theory Spec2Isabelle
  imports Main "HOL-Library.AList" "HOL-Library.Multiset"
begin

section \<open>Data model\<close>

text \<open>
  Values that travel along connections. JavaScript compares primitives by value and
  objects by reference, so an array carries its identity (an address) beside its
  elements, and so does a calculation-result \<^verbatim>\<open>Map\<close> (the value a subgraph node
  returns under \<^verbatim>\<open>_calculationResults\<close>). Numbers are integers here: \<^verbatim>\<open>NaN\<close> and
  fractions are not modelled.
\<close>

datatype val =
    VUndefined
  | VBool bool
  | VNum int
  | VStr string
  | VArr nat "val list"
  | VResult nat "(string \<times> (string \<times> val) list \<times> (string \<times> val) list) list"

text \<open>The errors the engine code can raise.\<close>

datatype error =
    CycleError
  | InvalidArgument
  | TypeError
  | MissingInterfaceKey
  | InvalidCalculationOutput
  | CalculationFailed

text \<open>
  \<^verbatim>\<open>NodeInterface\<close>: a port. \<^verbatim>\<open>AbstractNode\<close>: \<^verbatim>\<open>inputs\<close> and \<^verbatim>\<open>outputs\<close> are
  the entries of the JavaScript objects in \<^verbatim>\<open>Object.entries\<close> order (their keys are
  distinct); \<^verbatim>\<open>calculate\<close> and \<^verbatim>\<open>isInterfaceEqualTo\<close> are optional methods. The
  calculation step is a function of the resolved inputs and the calculation data that
  returns the output object or fails.
\<close>

record NodeInterface =
  intf_id :: string
  intf_nodeId :: string
  intf_value :: val
  intf_allowMultipleConnections :: bool
  intf_connectionCount :: nat

record AbstractNode =
  node_id :: string
  node_inputs :: "(string \<times> NodeInterface) list"
  node_outputs :: "(string \<times> NodeInterface) list"
  node_calculate :: "((string \<times> val) list \<Rightarrow> val \<Rightarrow> error + (string \<times> val) list) option"
  node_alwaysRecalculate :: bool
  node_isInterfaceEqualTo :: "(NodeInterface \<Rightarrow> val \<Rightarrow> bool) option"

record IConnection =
  conn_id :: string
  conn_from :: NodeInterface
  conn_to :: NodeInterface

record Graph =
  graph_id :: string
  graph_nodes :: "AbstractNode list"
  graph_connections :: "IConnection list"

datatype NodesOrGraph = ANodes "AbstractNode list" | AGraph Graph

text \<open>
  A JavaScript \<^verbatim>\<open>Map\<close> is an association list in insertion order: \<^verbatim>\<open>get\<close> is
  \<^const>\<open>map_of\<close>, \<^verbatim>\<open>set\<close> is \<^const>\<open>AList.update\<close> (an existing key keeps its place).
  A \<^verbatim>\<open>Set\<close> is a list without repetitions in insertion order.
\<close>

record ITopologicalSortingResult =
  calculationOrder :: "AbstractNode list"
  connectionsFromNode :: "(AbstractNode \<times> IConnection list) list"
  interfaceIdToNodeId :: "(string \<times> string) list"

record GraphData =
  data_nodes :: "AbstractNode list"
  data_connections :: "IConnection list"
  data_interfaceIdToNodeId :: "(string \<times> string) list"
  data_nodeIdToNode :: "(string \<times> AbstractNode) list"

section \<open>topologicalSorting.ts\<close>

definition registerInterfaces :: "AbstractNode \<Rightarrow> (string \<times> string) list \<Rightarrow> (string \<times> string) list" where
  "registerInterfaces n m =
     fold (\<lambda>kv acc. AList.update (intf_id (snd kv)) (node_id n) acc) (node_outputs n)
       (fold (\<lambda>kv acc. AList.update (intf_id (snd kv)) (node_id n) acc) (node_inputs n) m)"

definition nodesOrGraphToData :: "NodesOrGraph \<Rightarrow> IConnection list option \<Rightarrow> error + GraphData" where
  "nodesOrGraphToData nodesOrGraph pConnections =
     (case (case nodesOrGraph of
              AGraph g \<Rightarrow> Inr (graph_nodes g, graph_connections g)
            | ANodes ns \<Rightarrow>
                (case pConnections of
                   None \<Rightarrow> Inl InvalidArgument
                 | Some cs \<Rightarrow> Inr (ns, cs))) of
        Inl e \<Rightarrow> Inl e
      | Inr nc \<Rightarrow>
          Inr \<lparr> data_nodes = fst nc,
                data_connections = snd nc,
                data_interfaceIdToNodeId = fold registerInterfaces (fst nc) [],
                data_nodeIdToNode = fold (\<lambda>node m. AList.update (node_id node) node m) (fst nc) [] \<rparr>)"

text \<open>\<^verbatim>\<open>new Set(xs)\<close>: the first occurrence of every element, in order.\<close>

definition newSet :: "'a list \<Rightarrow> 'a list" where
  "newSet xs = rev (remdups (rev xs))"

text \<open>\<^verbatim>\<open>findIndex\<close> followed by \<^verbatim>\<open>splice(index, 1)\<close> when the index is not -1.\<close>

fun spliceFirst :: "('a \<Rightarrow> bool) \<Rightarrow> 'a list \<Rightarrow> 'a list" where
  "spliceFirst P [] = []"
| "spliceFirst P (x # xs) = (if P x then xs else x # spliceFirst P xs)"

definition connectionsFromCurrentNode ::
  "(string \<times> string) list \<Rightarrow> IConnection list \<Rightarrow> AbstractNode \<Rightarrow> IConnection list" where
  "connectionsFromCurrentNode ifToNode connections n =
     filter (\<lambda>c. map_of ifToNode (intf_id (conn_from c)) = Some (node_id n)) connections"

definition adjacentNodes ::
  "(string \<times> string) list \<Rightarrow> IConnection list \<Rightarrow> AbstractNode \<Rightarrow> string list" where
  "adjacentNodes ifToNode connections n =
     newSet (List.map_filter (\<lambda>c. map_of ifToNode (intf_id (conn_to c)))
               (connectionsFromCurrentNode ifToNode connections n))"

definition buildAdjacency ::
  "(string \<times> string) list \<Rightarrow> IConnection list \<Rightarrow> AbstractNode list \<Rightarrow> (string \<times> string list) list" where
  "buildAdjacency ifToNode connections nodes =
     fold (\<lambda>n adjacency. AList.update (node_id n) (adjacentNodes ifToNode connections n) adjacency) nodes []"

definition initialStartNodes ::
  "(string \<times> string) list \<Rightarrow> IConnection list \<Rightarrow> AbstractNode list \<Rightarrow> AbstractNode list" where
  "initialStartNodes ifToNode connections nodes =
     fold (\<lambda>c startNodes.
             spliceFirst (\<lambda>n. map_of ifToNode (intf_id (conn_to c)) = Some (node_id n)) startNodes)
          connections nodes"

text \<open>
  The inner \<^verbatim>\<open>while (nodesConnectedFromN.size > 0)\<close> loop. The set is the entry of
  \<^verbatim>\<open>n.id\<close> in \<^verbatim>\<open>adjacency\<close> and is mutated in place. A failed \<^verbatim>\<open>nodes.find\<close> pushes
  \<^verbatim>\<open>undefined\<close>, whose \<^verbatim>\<open>id\<close> is read when it is popped: a TypeError.
\<close>

function visitAdjacent ::
  "AbstractNode list \<Rightarrow> string \<Rightarrow> (string \<times> string list) list \<Rightarrow> AbstractNode list
     \<Rightarrow> error + ((string \<times> string list) list \<times> AbstractNode list)" where
  "visitAdjacent nodes nId adjacency startNodes =
     (case map_of adjacency nId of
        None \<Rightarrow> Inl TypeError
      | Some nodesConnectedFromN \<Rightarrow>
          (case nodesConnectedFromN of
             [] \<Rightarrow> Inr (adjacency, startNodes)
           | mId # rest \<Rightarrow>
               (if list_all (\<lambda>connectedNodes. mId \<notin> set connectedNodes)
                     (map snd (AList.update nId (removeAll mId nodesConnectedFromN) adjacency))
                then (case find (\<lambda>node. node_id node = mId) nodes of
                        None \<Rightarrow> Inl TypeError
                      | Some m \<Rightarrow>
                          visitAdjacent nodes nId
                            (AList.update nId (removeAll mId nodesConnectedFromN) adjacency)
                            (startNodes @ [m]))
                else visitAdjacent nodes nId
                       (AList.update nId (removeAll mId nodesConnectedFromN) adjacency)
                       startNodes)))"
  by pat_completeness auto
termination
  by (relation "measure (\<lambda>(nodes, nId, adjacency, startNodes).
                   case map_of adjacency nId of None \<Rightarrow> 0 | Some cs \<Rightarrow> length cs)")
     (auto simp: update_conv' less_Suc_eq_le)


definition edgeCount :: "(string \<times> string list) list \<Rightarrow> nat" where
  "edgeCount adjacency = sum_list (map (\<lambda>kv. length (snd kv)) adjacency)"

lemma edgeCount_update:
  "map_of adjacency k = Some cs \<Longrightarrow>
     edgeCount (AList.update k cs' adjacency) + length cs = edgeCount adjacency + length cs'"
  by (induction adjacency) (auto simp: edgeCount_def)

lemma visitAdjacent_measure:
  "visitAdjacent nodes nId adjacency startNodes = Inr r \<Longrightarrow>
     2 * edgeCount (fst r) + length (snd r) \<le> 2 * edgeCount adjacency + length startNodes"
proof (induction nodes nId adjacency startNodes rule: visitAdjacent.induct)
  case (1 nodes nId adjacency startNodes)
  show ?case
  proof (cases "map_of adjacency nId")
    case None
    with "1.prems" show ?thesis by (simp add: visitAdjacent.simps[of nodes nId adjacency])
  next
    case (Some cs)
    show ?thesis
    proof (cases cs)
      case Nil
      with Some "1.prems" show ?thesis by (auto simp: visitAdjacent.simps[of nodes nId adjacency])
    next
      case (Cons mId rest)
      let ?adj = "AList.update nId (removeAll mId cs) adjacency"
      have len: "length (removeAll mId cs) < length cs"
        using Cons by (simp add: less_Suc_eq_le)
      have cnt: "edgeCount ?adj + length cs = edgeCount adjacency + length (removeAll mId cs)"
        using Some by (rule edgeCount_update)
      show ?thesis
      proof (cases "list_all (\<lambda>connectedNodes. mId \<notin> set connectedNodes) (map snd ?adj)")
        case True
        show ?thesis
        proof (cases "find (\<lambda>node. node_id node = mId) nodes")
          case None
          with Some Cons True "1.prems" show ?thesis
            by (simp add: visitAdjacent.simps[of nodes nId adjacency])
        next
          case (Some m)
          have "visitAdjacent nodes nId ?adj (startNodes @ [m]) = Inr r"
            using \<open>map_of adjacency nId = Some cs\<close> Cons True Some "1.prems"
            by (simp add: visitAdjacent.simps[of nodes nId adjacency])
          then have "2 * edgeCount (fst r) + length (snd r)
                       \<le> 2 * edgeCount ?adj + length (startNodes @ [m])"
            using "1.IH"(1)[OF \<open>map_of adjacency nId = Some cs\<close> Cons _ Some] True Cons
            by simp
          with len cnt show ?thesis by simp
        qed
      next
        case False
        have "visitAdjacent nodes nId ?adj startNodes = Inr r"
          using Some Cons False "1.prems"
          by (simp add: visitAdjacent.simps[of nodes nId adjacency])
        then have "2 * edgeCount (fst r) + length (snd r) \<le> 2 * edgeCount ?adj + length startNodes"
          using "1.IH"(2)[OF Some Cons] False Cons by simp
        with len cnt show ?thesis by simp
      qed
    qed
  qed
qed

text \<open>The outer \<^verbatim>\<open>while (startNodes.length > 0)\<close> loop: pop the last start node.\<close>

function sortLoop ::
  "AbstractNode list \<Rightarrow> (string \<times> string list) list \<Rightarrow> AbstractNode list \<Rightarrow> AbstractNode list
     \<Rightarrow> error + ((string \<times> string list) list \<times> AbstractNode list)" where
  "sortLoop nodes adjacency startNodes sortedNodes =
     (if startNodes = [] then Inr (adjacency, sortedNodes)
      else (case visitAdjacent nodes (node_id (last startNodes)) adjacency (butlast startNodes) of
              Inl e \<Rightarrow> Inl e
            | Inr r \<Rightarrow> sortLoop nodes (fst r) (snd r) (sortedNodes @ [last startNodes])))"
  by pat_completeness auto
termination
proof (relation "measure (\<lambda>(nodes, adjacency, startNodes, sortedNodes).
                   2 * edgeCount adjacency + length startNodes)")
  show "wf (measure (\<lambda>(nodes :: AbstractNode list, adjacency, startNodes :: AbstractNode list,
                       sortedNodes :: AbstractNode list).
                   2 * edgeCount adjacency + length startNodes))"
    by simp
next
  fix nodes adjacency and startNodes sortedNodes :: "AbstractNode list" and r
  assume ne: "startNodes \<noteq> []"
    and r: "visitAdjacent nodes (node_id (last startNodes)) adjacency (butlast startNodes) = Inr r"
  have "2 * edgeCount (fst r) + length (snd r)
          \<le> 2 * edgeCount adjacency + length (butlast startNodes)"
    using r by (rule visitAdjacent_measure)
  moreover have "length (butlast startNodes) < length startNodes"
    using ne by simp
  ultimately show "((nodes, fst r, snd r, sortedNodes @ [last startNodes]),
                    nodes, adjacency, startNodes, sortedNodes)
                   \<in> measure (\<lambda>(nodes, adjacency, startNodes, sortedNodes).
                        2 * edgeCount adjacency + length startNodes)"
    by simp
qed

text \<open>Uses Kahn's algorithm to topologically sort the nodes in the graph.\<close>

definition sortTopologically ::
  "NodesOrGraph \<Rightarrow> IConnection list option \<Rightarrow> error + ITopologicalSortingResult" where
  "sortTopologically nodesOrGraph pConnections =
     (case nodesOrGraphToData nodesOrGraph pConnections of
        Inl e \<Rightarrow> Inl e
      | Inr d \<Rightarrow>
          (case sortLoop (data_nodes d)
                  (buildAdjacency (data_interfaceIdToNodeId d) (data_connections d) (data_nodes d))
                  (initialStartNodes (data_interfaceIdToNodeId d) (data_connections d) (data_nodes d))
                  [] of
             Inl e \<Rightarrow> Inl e
           | Inr r \<Rightarrow>
               (if list_ex (\<lambda>c. c \<noteq> []) (map snd (fst r)) then Inl CycleError
                else Inr \<lparr> calculationOrder = snd r,
                           connectionsFromNode =
                             map (\<lambda>n. (n, connectionsFromCurrentNode (data_interfaceIdToNodeId d)
                                             (data_connections d) n))
                                 (data_nodes d),
                           interfaceIdToNodeId = data_interfaceIdToNodeId d \<rparr>)))"

text \<open>
  \<^verbatim>\<open>containsCycle\<close>: a CycleError becomes \<^verbatim>\<open>true\<close>, any other error is thrown again.
\<close>

definition containsCycle :: "NodesOrGraph \<Rightarrow> IConnection list option \<Rightarrow> error + bool" where
  "containsCycle nodesOrGraph connections =
     (case sortTopologically nodesOrGraph connections of
        Inr r \<Rightarrow> Inr False
      | Inl err \<Rightarrow> (if err = CycleError then Inr True else Inl err))"


subsection \<open>Connected components\<close>

record GraphComponent =
  comp_nodes :: "AbstractNode list"
  comp_connections :: "IConnection list"

text \<open>
  The body of the loop that builds the \<^verbatim>\<open>predecessors\<close> and \<^verbatim>\<open>successors\<close> maps.
  \<^verbatim>\<open>predecessors.get(k)!.push(connection)\<close> follows a \<^verbatim>\<open>set(k, [])\<close> for a missing key.
\<close>

definition addPredecessor ::
  "IConnection \<Rightarrow> (string \<times> IConnection list) list \<Rightarrow> (string \<times> IConnection list) list" where
  "addPredecessor connection predecessors =
     (let k = intf_nodeId (conn_to connection);
          predecessors1 = (if map_of predecessors k = None then AList.update k [] predecessors
                           else predecessors)
      in AList.update k
           ((case map_of predecessors1 k of None \<Rightarrow> [] | Some cs \<Rightarrow> cs) @ [connection])
           predecessors1)"

definition addNodeLists ::
  "(string \<times> string) list \<Rightarrow> IConnection list \<Rightarrow> AbstractNode
     \<Rightarrow> (string \<times> IConnection list) list \<times> (string \<times> IConnection list) list
     \<Rightarrow> (string \<times> IConnection list) list \<times> (string \<times> IConnection list) list" where
  "addNodeLists ifToNode connections n built =
     (let successors = fst built;
          predecessors = snd built;
          fromCurrent = connectionsFromCurrentNode ifToNode connections n;
          predecessors1 = (if map_of predecessors (node_id n) = None
                           then AList.update (node_id n) [] predecessors else predecessors)
      in (AList.update (node_id n) fromCurrent successors,
          fold addPredecessor fromCurrent predecessors1))"

text \<open>
  The recursive \<^verbatim>\<open>dfs(nodeId, component)\<close>. Its call stack is the list of pending node
  ids: a call first handles the successors' destinations, then the predecessors'
  sources, each completely before the next, which is what putting them in front of the
  pending ids does. \<^verbatim>\<open>successors\<close> and \<^verbatim>\<open>nodeIdToNode\<close> have the same keys (the node
  ids), so a node id missing from one is missing from both, and spreading the
  \<^verbatim>\<open>undefined\<close> successor list raises a TypeError.
\<close>

function dfs ::
  "(string \<times> AbstractNode) list \<Rightarrow> (string \<times> IConnection list) list
     \<Rightarrow> (string \<times> IConnection list) list \<Rightarrow> string list \<Rightarrow> string list \<Rightarrow> GraphComponent
     \<Rightarrow> error + (string list \<times> GraphComponent)" where
  "dfs nodeIdToNode successors predecessors [] visited component = Inr (visited, component)"
| "dfs nodeIdToNode successors predecessors (nodeId # pending) visited component =
     (if nodeId \<in> set visited then dfs nodeIdToNode successors predecessors pending visited component
      else (case map_of successors nodeId of
              None \<Rightarrow> Inl TypeError
            | Some nSuccessors \<Rightarrow>
                (case map_of nodeIdToNode nodeId of
                   None \<Rightarrow> Inl TypeError
                 | Some node \<Rightarrow>
                     (case map_of predecessors nodeId of
                        None \<Rightarrow> Inl TypeError
                      | Some nPredecessors \<Rightarrow>
                          dfs nodeIdToNode successors predecessors
                            (map (\<lambda>connection. intf_nodeId (conn_to connection)) nSuccessors @
                             map (\<lambda>connection. intf_nodeId (conn_from connection)) nPredecessors @
                             pending)
                            (visited @ [nodeId])
                            \<lparr> comp_nodes = comp_nodes component @ [node],
                              comp_connections = comp_connections component @ nSuccessors \<rparr>))))"
  by pat_completeness auto
termination
proof (relation "inv_image (less_than <*lex*> less_than)
         (\<lambda>(nodeIdToNode, successors, predecessors, pending, visited, component).
            (card (fst ` set successors - set visited), length pending))")
  show "wf (inv_image (less_than <*lex*> less_than)
         (\<lambda>(nodeIdToNode :: (string \<times> AbstractNode) list, successors :: (string \<times> IConnection list) list,
             predecessors :: (string \<times> IConnection list) list, pending :: string list,
             visited :: string list, component :: GraphComponent).
            (card (fst ` set successors - set visited), length pending)))"
    by (intro wf_inv_image wf_lex_prod wf_less_than)
next
  fix nodeIdToNode :: "(string \<times> AbstractNode) list"
    and successors predecessors :: "(string \<times> IConnection list) list"
    and nodeId :: string and pending visited :: "string list" and component :: GraphComponent
  show "((nodeIdToNode, successors, predecessors, pending, visited, component),
         nodeIdToNode, successors, predecessors, nodeId # pending, visited, component)
        \<in> inv_image (less_than <*lex*> less_than)
         (\<lambda>(nodeIdToNode, successors, predecessors, pending, visited, component).
            (card (fst ` set successors - set visited), length pending))"
    by simp
next
  fix nodeIdToNode :: "(string \<times> AbstractNode) list"
    and successors predecessors :: "(string \<times> IConnection list) list"
    and nodeId :: string and pending visited :: "string list" and component :: GraphComponent
    and nSuccessors nPredecessors :: "IConnection list" and node :: AbstractNode
  assume nv: "nodeId \<notin> set visited" and s: "map_of successors nodeId = Some nSuccessors"
  have "nodeId \<in> fst ` set successors" using s by (metis domI dom_map_of_conv_image_fst)
  then have "fst ` set successors - set (visited @ [nodeId]) \<subset> fst ` set successors - set visited"
    using nv by auto
  then have "card (fst ` set successors - set (visited @ [nodeId]))
               < card (fst ` set successors - set visited)"
    by (intro psubset_card_mono) auto
  then show "((nodeIdToNode, successors, predecessors,
          map (\<lambda>connection. intf_nodeId (conn_to connection)) nSuccessors @
          map (\<lambda>connection. intf_nodeId (conn_from connection)) nPredecessors @ pending,
          visited @ [nodeId],
          \<lparr>comp_nodes = comp_nodes component @ [node],
             comp_connections = comp_connections component @ nSuccessors\<rparr>),
         nodeIdToNode, successors, predecessors, nodeId # pending, visited, component)
        \<in> inv_image (less_than <*lex*> less_than)
         (\<lambda>(nodeIdToNode, successors, predecessors, pending, visited, component).
            (card (fst ` set successors - set visited), length pending))"
    by simp
qed

text \<open>The loop over the nodes that starts a component at every node not yet visited.\<close>

fun componentsLoop ::
  "(string \<times> AbstractNode) list \<Rightarrow> (string \<times> IConnection list) list
     \<Rightarrow> (string \<times> IConnection list) list \<Rightarrow> AbstractNode list \<Rightarrow> string list
     \<Rightarrow> GraphComponent list \<Rightarrow> error + GraphComponent list" where
  "componentsLoop nodeIdToNode successors predecessors [] visited components = Inr components"
| "componentsLoop nodeIdToNode successors predecessors (node # rest) visited components =
     (if node_id node \<in> set visited
      then componentsLoop nodeIdToNode successors predecessors rest visited components
      else (case dfs nodeIdToNode successors predecessors [node_id node] visited
                   \<lparr> comp_nodes = [], comp_connections = [] \<rparr> of
              Inl e \<Rightarrow> Inl e
            | Inr r \<Rightarrow>
                componentsLoop nodeIdToNode successors predecessors rest (fst r)
                  (components @ [snd r])))"

definition connectedComponents ::
  "NodesOrGraph \<Rightarrow> IConnection list option \<Rightarrow> error + GraphComponent list" where
  "connectedComponents nodesOrGraph pConnections =
     (case nodesOrGraphToData nodesOrGraph pConnections of
        Inl e \<Rightarrow> Inl e
      | Inr d \<Rightarrow>
          (let built = fold (addNodeLists (data_interfaceIdToNodeId d) (data_connections d))
                         (data_nodes d) ([], [])
           in componentsLoop (data_nodeIdToNode d) (fst built) (snd built) (data_nodes d) [] []))"

text \<open>\<^verbatim>\<open>components.map((c) => sortTopologically(c.nodes, c.connections))\<close>: the first error ends it.\<close>

fun sortComponents :: "GraphComponent list \<Rightarrow> error + ITopologicalSortingResult list" where
  "sortComponents [] = Inr []"
| "sortComponents (c # cs) =
     (case sortTopologically (ANodes (comp_nodes c)) (Some (comp_connections c)) of
        Inl e \<Rightarrow> Inl e
      | Inr r \<Rightarrow> (case sortComponents cs of Inl e \<Rightarrow> Inl e | Inr rs \<Rightarrow> Inr (r # rs)))"

definition getSortedComponents ::
  "NodesOrGraph \<Rightarrow> IConnection list option \<Rightarrow> error + ITopologicalSortingResult list" where
  "getSortedComponents nodesOrGraph pConnections =
     (case connectedComponents nodesOrGraph pConnections of
        Inl e \<Rightarrow> Inl e
      | Inr components \<Rightarrow> sortComponents components)"

section \<open>dependencyEngine.ts\<close>

text \<open>
  The file holds two revisions of the class; the model follows the later one (with
  \<^verbatim>\<open>alwaysRecalculate\<close>, \<^verbatim>\<open>isInterfaceEqualTo\<close> and the merge of nested results).

  What a run does besides returning its result is kept in the run state: the \<^verbatim>\<open>inputs\<close>
  map it mutates, the result under construction, the trace of the notifications emitted,
  of the calculation steps invoked and of the \<^verbatim>\<open>transferData\<close> hook calls, and the next
  unused object identity (for the arrays the run creates). An exception leaves the state
  as it is at the throw: a step returns the error, if any, beside the state.
\<close>

datatype event =
    BeforeNodeCalculation AbstractNode "(string \<times> val) list"
  | NodeCalculate AbstractNode "(string \<times> val) list"
  | AfterNodeCalculation AbstractNode "(string \<times> val) list"
  | TransferData val IConnection

type_synonym CalculationResult = "(string \<times> (string \<times> val) list \<times> (string \<times> val) list) list"

record RunState =
  run_inputs :: "(string \<times> val) list"
  run_result :: CalculationResult
  run_events :: "event list"
  run_nextId :: nat

record DependencyEngine =
  engine_order :: "(string \<times> ITopologicalSortingResult list) list"
  engine_updatedNode :: "AbstractNode option"
  engine_recalculateOrder :: bool
  engine_transferData :: "val \<Rightarrow> IConnection \<Rightarrow> val"

definition emit :: "event \<Rightarrow> RunState \<Rightarrow> RunState" where
  "emit e st = st\<lparr> run_events := run_events st @ [e] \<rparr>"

text \<open>JavaScript's \<^verbatim>\<open>===\<close>: primitives by value, objects by identity.\<close>

fun strictEquals :: "val \<Rightarrow> val \<Rightarrow> bool" where
  "strictEquals VUndefined VUndefined = True"
| "strictEquals (VBool a) (VBool b) = (a = b)"
| "strictEquals (VNum a) (VNum b) = (a = b)"
| "strictEquals (VStr a) (VStr b) = (a = b)"
| "strictEquals (VArr a xs) (VArr b ys) = (a = b)"
| "strictEquals (VResult a xs) (VResult b ys) = (a = b)"
| "strictEquals v w = False"

text \<open>JavaScript's truthiness.\<close>

fun truthy :: "val \<Rightarrow> bool" where
  "truthy VUndefined = False"
| "truthy (VBool b) = b"
| "truthy (VNum n) = (n \<noteq> 0)"
| "truthy (VStr s) = (s \<noteq> [])"
| "truthy (VArr a xs) = True"
| "truthy (VResult a xs) = True"

text \<open>\<^verbatim>\<open>obj[key]\<close> on an object given by its entries.\<close>

definition property :: "(string \<times> val) list \<Rightarrow> string \<Rightarrow> val" where
  "property obj key = (case map_of obj key of None \<Rightarrow> VUndefined | Some v \<Rightarrow> v)"

text \<open>\<^verbatim>\<open>inputs.has(intf.id) ? inputs.get(intf.id) : intf.value\<close>\<close>

definition resolveInput :: "(string \<times> val) list \<Rightarrow> NodeInterface \<Rightarrow> val" where
  "resolveInput inputs intf =
     (case map_of inputs (intf_id intf) of Some v \<Rightarrow> v | None \<Rightarrow> intf_value intf)"

definition resolveInputs :: "(string \<times> val) list \<Rightarrow> AbstractNode \<Rightarrow> (string \<times> val) list" where
  "resolveInputs inputs node = map (\<lambda>kv. (fst kv, resolveInput inputs (snd kv))) (node_inputs node)"

text \<open>
  The entry of \<^verbatim>\<open>inputsChanged\<close> for one input port: the node's own
  \<^verbatim>\<open>isInterfaceEqualTo\<close> when it has one, \<^verbatim>\<open>!==\<close> otherwise.
\<close>

definition inputChanged :: "AbstractNode \<Rightarrow> NodeInterface \<Rightarrow> val \<Rightarrow> bool" where
  "inputChanged node intf v =
     (case node_isInterfaceEqualTo node of
        Some isInterfaceEqualTo \<Rightarrow> \<not> isInterfaceEqualTo intf v
      | None \<Rightarrow> \<not> strictEquals v (intf_value intf))"

definition inputsChanged :: "(string \<times> val) list \<Rightarrow> AbstractNode \<Rightarrow> (string \<times> bool) list" where
  "inputsChanged inputs node =
     map (\<lambda>kv. (fst kv, inputChanged node (snd kv) (resolveInput inputs (snd kv)))) (node_inputs node)"

text \<open>
  \<^verbatim>\<open>!updatedNode || node.id === updatedNode.id || node.alwaysRecalculate ||
  Object.values(inputsChanged).filter(v => !!v).length\<close>
\<close>

definition shouldCalculate :: "AbstractNode option \<Rightarrow> AbstractNode \<Rightarrow> (string \<times> bool) list \<Rightarrow> bool" where
  "shouldCalculate updatedNode node changed =
     (case updatedNode of
        None \<Rightarrow> True
      | Some u \<Rightarrow> node_id node = node_id u \<or> node_alwaysRecalculate node \<or>
                  length (filter (\<lambda>v. v) (map snd changed)) \<noteq> 0)"

text \<open>\<^verbatim>\<open>Object.fromEntries(Object.entries(node.outputs).map(([k, v]) => [k, v.value]))\<close>\<close>

definition currentOutputValues :: "AbstractNode \<Rightarrow> (string \<times> val) list" where
  "currentOutputValues node = map (\<lambda>kv. (fst kv, intf_value (snd kv))) (node_outputs node)"

text \<open>
  Modelled from the spec: \<^verbatim>\<open>validateNodeCalculationOutput\<close> of the base engine, which
  is not among the sources. The output values must cover every output port the node
  declares; a missing output is an error.
\<close>

definition validateNodeCalculationOutput :: "AbstractNode \<Rightarrow> (string \<times> val) list \<Rightarrow> error option" where
  "validateNodeCalculationOutput node outputValues =
     (if list_all (\<lambda>kv. fst kv \<in> fst ` set outputValues) (node_outputs node) then None
      else Some InvalidCalculationOutput)"

text \<open>
  The merge of \<^verbatim>\<open>outputValues._calculationResults\<close>, declared a \<^verbatim>\<open>Map\<close>. A truthy
  value without \<^verbatim>\<open>forEach\<close> raises a TypeError; an array under this key (outside the
  declared type: its own \<^verbatim>\<open>forEach\<close> would run) is given the same error here.
\<close>

definition mergeSubgraphResult :: "(string \<times> val) list \<Rightarrow> RunState \<Rightarrow> error option \<times> RunState" where
  "mergeSubgraphResult outputValues st =
     (case property outputValues ''_calculationResults'' of
        VResult a entries \<Rightarrow>
          (None, st\<lparr> run_result :=
                      fold (\<lambda>kv res. AList.update (fst kv) (snd kv) res) entries (run_result st) \<rparr>)
      | subgraphResult \<Rightarrow> (if truthy subgraphResult then (Some TypeError, st) else (None, st)))"

text \<open>
  Staging a value for the destination port of a connection: appended to the array of a
  port that allows multiple connections (a new array on the first write; \<^verbatim>\<open>push\<close> on
  anything but an array is a TypeError), set otherwise.
\<close>

definition stageValue :: "NodeInterface \<Rightarrow> val \<Rightarrow> RunState \<Rightarrow> error option \<times> RunState" where
  "stageValue to v st =
     (if intf_allowMultipleConnections to
      then (case map_of (run_inputs st) (intf_id to) of
              Some staged \<Rightarrow>
                (case staged of
                   VArr a xs \<Rightarrow>
                     (None, st\<lparr> run_inputs := AList.update (intf_id to) (VArr a (xs @ [v])) (run_inputs st) \<rparr>)
                 | other \<Rightarrow> (Some TypeError, st))
            | None \<Rightarrow>
                (None, st\<lparr> run_inputs := AList.update (intf_id to) (VArr (run_nextId st) [v]) (run_inputs st),
                           run_nextId := Suc (run_nextId st) \<rparr>))
      else (None, st\<lparr> run_inputs := AList.update (intf_id to) v (run_inputs st) \<rparr>))"

text \<open>The body of \<^verbatim>\<open>connectionsFromNode.get(node)!.forEach\<close>. An empty key is falsy.\<close>

definition propagateConnection ::
  "(val \<Rightarrow> IConnection \<Rightarrow> val) \<Rightarrow> AbstractNode \<Rightarrow> (string \<times> val) list \<Rightarrow> IConnection
     \<Rightarrow> RunState \<Rightarrow> error option \<times> RunState" where
  "propagateConnection transferData node outputValues connection st =
     (case find (\<lambda>kv. intf_id (snd kv) = intf_id (conn_from connection)) (node_outputs node) of
        None \<Rightarrow> (Some MissingInterfaceKey, st)
      | Some kv \<Rightarrow>
          (if fst kv = [] then (Some MissingInterfaceKey, st)
           else stageValue (conn_to connection)
                  (transferData (property outputValues (fst kv)) connection)
                  (emit (TransferData (property outputValues (fst kv)) connection) st)))"

fun propagateConnections ::
  "(val \<Rightarrow> IConnection \<Rightarrow> val) \<Rightarrow> AbstractNode \<Rightarrow> (string \<times> val) list \<Rightarrow> IConnection list
     \<Rightarrow> RunState \<Rightarrow> error option \<times> RunState" where
  "propagateConnections transferData node outputValues [] st = (None, st)"
| "propagateConnections transferData node outputValues (connection # rest) st =
     (case propagateConnection transferData node outputValues connection st of
        (Some e, st') \<Rightarrow> (Some e, st')
      | (None, st') \<Rightarrow> propagateConnections transferData node outputValues rest st')"

text \<open>
  \<^verbatim>\<open>connectionsFromNode.get(node)\<close>. The map is keyed by node objects; an object is
  found by its id (the sorter gives nodes of equal id equal entries).
\<close>

definition nodeMapGet :: "(AbstractNode \<times> 'a) list \<Rightarrow> AbstractNode \<Rightarrow> 'a option" where
  "nodeMapGet m node = map_option snd (find (\<lambda>kv. node_id (fst kv) = node_id node) m)"

text \<open>What follows the choice of \<^verbatim>\<open>outputValues\<close> in the loop body.\<close>

definition finishNode ::
  "(val \<Rightarrow> IConnection \<Rightarrow> val) \<Rightarrow> (AbstractNode \<times> IConnection list) list \<Rightarrow> AbstractNode
     \<Rightarrow> (string \<times> val) list \<Rightarrow> (string \<times> val) list \<Rightarrow> RunState \<Rightarrow> error option \<times> RunState" where
  "finishNode transferData connectionsFrom node inputValues outputValues st =
     (case validateNodeCalculationOutput node outputValues of
        Some e \<Rightarrow> (Some e, st)
      | None \<Rightarrow>
          (case mergeSubgraphResult outputValues
                  ((emit (AfterNodeCalculation node outputValues) st)
                     \<lparr> run_result := AList.update (node_id node) (inputValues, outputValues)
                                        (run_result st) \<rparr>) of
             (Some e, st') \<Rightarrow> (Some e, st')
           | (None, st') \<Rightarrow>
               (case nodeMapGet connectionsFrom node of
                  None \<Rightarrow> (None, st')
                | Some connections \<Rightarrow>
                    propagateConnections transferData node outputValues connections st')))"

text \<open>The body of the loop over \<^verbatim>\<open>calculationOrder\<close>.\<close>

definition calculateNode ::
  "(val \<Rightarrow> IConnection \<Rightarrow> val) \<Rightarrow> val \<Rightarrow> AbstractNode option
     \<Rightarrow> (AbstractNode \<times> IConnection list) list \<Rightarrow> AbstractNode \<Rightarrow> RunState
     \<Rightarrow> error option \<times> RunState" where
  "calculateNode transferData calculationData updatedNode connectionsFrom node st =
     (case node_calculate node of
        None \<Rightarrow> (None, st)
      | Some calculate \<Rightarrow>
          (let inputValues = resolveInputs (run_inputs st) node;
               changed = inputsChanged (run_inputs st) node;
               st1 = emit (BeforeNodeCalculation node inputValues) st
           in if shouldCalculate updatedNode node changed
              then (case calculate inputValues calculationData of
                      Inl e \<Rightarrow> (Some e, emit (NodeCalculate node inputValues) st1)
                    | Inr outputValues \<Rightarrow>
                        finishNode transferData connectionsFrom node inputValues outputValues
                          (emit (NodeCalculate node inputValues) st1))
              else finishNode transferData connectionsFrom node inputValues
                     (currentOutputValues node) st1))"

fun calculateNodes ::
  "(val \<Rightarrow> IConnection \<Rightarrow> val) \<Rightarrow> val \<Rightarrow> AbstractNode option
     \<Rightarrow> (AbstractNode \<times> IConnection list) list \<Rightarrow> AbstractNode list \<Rightarrow> RunState
     \<Rightarrow> error option \<times> RunState" where
  "calculateNodes transferData calculationData updatedNode connectionsFrom [] st = (None, st)"
| "calculateNodes transferData calculationData updatedNode connectionsFrom (node # rest) st =
     (case calculateNode transferData calculationData updatedNode connectionsFrom node st of
        (Some e, st') \<Rightarrow> (Some e, st')
      | (None, st') \<Rightarrow>
          calculateNodes transferData calculationData updatedNode connectionsFrom rest st')"

definition calculateComponent ::
  "(val \<Rightarrow> IConnection \<Rightarrow> val) \<Rightarrow> val \<Rightarrow> AbstractNode option \<Rightarrow> ITopologicalSortingResult
     \<Rightarrow> RunState \<Rightarrow> error option \<times> RunState" where
  "calculateComponent transferData calculationData updatedNode sortedComponent st =
     calculateNodes transferData calculationData updatedNode (connectionsFromNode sortedComponent)
       (calculationOrder sortedComponent) st"

text \<open>
  The loop over the sorted components: with an updated node, a component without a node
  of that id is skipped.
\<close>

fun calculateComponents ::
  "(val \<Rightarrow> IConnection \<Rightarrow> val) \<Rightarrow> val \<Rightarrow> AbstractNode option \<Rightarrow> ITopologicalSortingResult list
     \<Rightarrow> RunState \<Rightarrow> error option \<times> RunState" where
  "calculateComponents transferData calculationData updatedNode [] st = (None, st)"
| "calculateComponents transferData calculationData updatedNode (component # rest) st =
     (if (case updatedNode of
            None \<Rightarrow> False
          | Some u \<Rightarrow> find (\<lambda>n. node_id n = node_id u) (calculationOrder component) = None)
      then calculateComponents transferData calculationData updatedNode rest st
      else (case calculateComponent transferData calculationData updatedNode component st of
              (Some e, st') \<Rightarrow> (Some e, st')
            | (None, st') \<Rightarrow>
                calculateComponents transferData calculationData updatedNode rest st'))"

text \<open>
  \<^verbatim>\<open>runGraph\<close>. It returns the engine (the order cached, the updated node consumed) and
  the outcome of the run. \<open>nextId\<close> is the first object identity not in use.
\<close>

definition runGraph ::
  "DependencyEngine \<Rightarrow> Graph \<Rightarrow> (string \<times> val) list \<Rightarrow> val \<Rightarrow> nat
     \<Rightarrow> DependencyEngine \<times> error option \<times> RunState" where
  "runGraph engine graph inputs calculationData nextId =
     (let st = \<lparr> run_inputs = inputs, run_result = [], run_events = [], run_nextId = nextId \<rparr>
      in case (case map_of (engine_order engine) (graph_id graph) of
                 Some components \<Rightarrow> Inr engine
               | None \<Rightarrow>
                   (case getSortedComponents (AGraph graph) None of
                      Inl e \<Rightarrow> Inl e
                    | Inr components \<Rightarrow>
                        Inr (engine\<lparr> engine_order :=
                               AList.update (graph_id graph) components (engine_order engine) \<rparr>))) of
           Inl e \<Rightarrow> (engine, Some e, st)
         | Inr engine1 \<Rightarrow>
             (engine1\<lparr> engine_updatedNode := None \<rparr>,
              calculateComponents (engine_transferData engine) calculationData
                (engine_updatedNode engine)
                (case map_of (engine_order engine1) (graph_id graph) of
                   None \<Rightarrow> [] | Some components \<Rightarrow> components)
                st))"

text \<open>
  \<^verbatim>\<open>execute\<close>: the values of the unconnected inputs are gathered first, then the root
  graph is run.
\<close>

definition unconnectedInputValues :: "AbstractNode list \<Rightarrow> (string \<times> val) list" where
  "unconnectedInputValues nodes =
     fold (\<lambda>n inputValues.
             fold (\<lambda>kv m. if intf_connectionCount (snd kv) = 0
                           then AList.update (intf_id (snd kv)) (intf_value (snd kv)) m else m)
                  (node_inputs n) inputValues)
          nodes []"

definition execute ::
  "DependencyEngine \<Rightarrow> Graph \<Rightarrow> val \<Rightarrow> nat \<Rightarrow> DependencyEngine \<times> error option \<times> RunState" where
  "execute engine graph calculationData nextId =
     runGraph
       (if engine_recalculateOrder engine
        then engine\<lparr> engine_order := [], engine_recalculateOrder := False \<rparr> else engine)
       graph (unconnectedInputValues (graph_nodes graph)) calculationData nextId"

section \<open>Well-formed inputs\<close>

text \<open>
  The data model's invariants for a set of nodes and connections: node ids are unique,
  port ids are unique and every port belongs to exactly one node, and every connection
  joins ports of the given nodes. \<open>edges\<close> lists, for every connection, the pair of
  the node owning its source port and the node owning its destination port; the input
  contains a directed cycle when this relation is not acyclic. \<open>graphInput\<close> says
  that the arguments of an entry point stand for the given nodes and connections,
  passed directly or as a graph.
\<close>

definition interfaceIds :: "AbstractNode \<Rightarrow> string list" where
  "interfaceIds n = map (\<lambda>kv. intf_id (snd kv)) (node_inputs n @ node_outputs n)"

definition wellFormed :: "AbstractNode list \<Rightarrow> IConnection list \<Rightarrow> bool" where
  "wellFormed nodes connections \<longleftrightarrow>
     distinct (map node_id nodes) \<and>
     distinct (concat (map interfaceIds nodes)) \<and>
     list_all (\<lambda>c. intf_id (conn_from c) \<in> set (concat (map interfaceIds nodes)) \<and>
                   intf_id (conn_to c) \<in> set (concat (map interfaceIds nodes))) connections"

text \<open>
  Every port records the id of its node in \<^verbatim>\<open>nodeId\<close>; a connection holds the port
  objects themselves, so the \<^verbatim>\<open>nodeId\<close> of each end is the id of the node owning it.
\<close>

definition nodeIdsConsistent :: "AbstractNode list \<Rightarrow> IConnection list \<Rightarrow> bool" where
  "nodeIdsConsistent nodes connections \<longleftrightarrow>
     list_all (\<lambda>c. list_all (\<lambda>n.
         (intf_id (conn_from c) \<in> set (interfaceIds n) \<longrightarrow> intf_nodeId (conn_from c) = node_id n) \<and>
         (intf_id (conn_to c) \<in> set (interfaceIds n) \<longrightarrow> intf_nodeId (conn_to c) = node_id n))
       nodes) connections"

definition edges :: "AbstractNode list \<Rightarrow> IConnection list \<Rightarrow> (string \<times> string) list" where
  "edges nodes connections =
     concat (map (\<lambda>c. concat (map (\<lambda>n. concat (map (\<lambda>m.
       if intf_id (conn_from c) \<in> set (interfaceIds n) \<and> intf_id (conn_to c) \<in> set (interfaceIds m)
       then [(node_id n, node_id m)] else []) nodes)) nodes)) connections)"

definition graphInput ::
  "NodesOrGraph \<Rightarrow> IConnection list option \<Rightarrow> AbstractNode list \<Rightarrow> IConnection list \<Rightarrow> bool" where
  "graphInput nodesOrGraph pConnections nodes connections \<longleftrightarrow>
     (case nodesOrGraph of
        ANodes ns \<Rightarrow> ns = nodes \<and> pConnections = Some connections
      | AGraph g \<Rightarrow> graph_nodes g = nodes \<and> graph_connections g = connections)"

section \<open>The nodes of the engine's tests\<close>

text \<open>
  \<^verbatim>\<open>TestNode\<close>: inputs \<^verbatim>\<open>a\<close> and \<^verbatim>\<open>b\<close> (both 1 at first), outputs \<^verbatim>\<open>c = a + b\<close> and
  \<^verbatim>\<open>d = a - b\<close>. Port ids are made from the node id and the key.
\<close>

definition testCalculate :: "(string \<times> val) list \<Rightarrow> val \<Rightarrow> error + (string \<times> val) list" where
  "testCalculate inputValues globalValues =
     (case (map_of inputValues ''a'', map_of inputValues ''b'') of
        (Some (VNum a), Some (VNum b)) \<Rightarrow> Inr [(''c'', VNum (a + b)), (''d'', VNum (a - b))]
      | _ \<Rightarrow> Inl CalculationFailed)"

definition testInterface :: "string \<Rightarrow> string \<Rightarrow> val \<Rightarrow> NodeInterface" where
  "testInterface nodeId key v =
     \<lparr> intf_id = nodeId @ ''.'' @ key, intf_nodeId = nodeId, intf_value = v,
       intf_allowMultipleConnections = False, intf_connectionCount = 0 \<rparr>"

definition testNode :: "string \<Rightarrow> AbstractNode" where
  "testNode nodeId =
     \<lparr> node_id = nodeId,
       node_inputs = [(''a'', testInterface nodeId ''a'' (VNum 1)), (''b'', testInterface nodeId ''b'' (VNum 1))],
       node_outputs = [(''c'', testInterface nodeId ''c'' VUndefined), (''d'', testInterface nodeId ''d'' VUndefined)],
       node_calculate = Some testCalculate,
       node_alwaysRecalculate = False,
       node_isInterfaceEqualTo = None \<rparr>"

definition testConnection :: "string \<Rightarrow> NodeInterface \<Rightarrow> NodeInterface \<Rightarrow> IConnection" where
  "testConnection i f t = \<lparr> conn_id = i, conn_from = f, conn_to = t \<rparr>"

definition conn12 :: IConnection where
  "conn12 = testConnection ''a'' (testInterface ''n1'' ''c'' VUndefined) (testInterface ''n2'' ''a'' (VNum 1))"

definition conn21 :: IConnection where
  "conn21 = testConnection ''b'' (testInterface ''n2'' ''c'' VUndefined) (testInterface ''n1'' ''a'' (VNum 1))"

section \<open>Correctness of the sorter\<close>

declare visitAdjacent.simps [simp del] sortLoop.simps [simp del]

definition remaining :: "(string \<times> string list) list \<Rightarrow> (string \<times> string) set" where
  "remaining adjacency = {(u, v). \<exists>cs. map_of adjacency u = Some cs \<and> v \<in> set cs}"

lemma remaining_update:
  "map_of adjacency k = Some cs \<Longrightarrow>
     remaining (AList.update k (removeAll m cs) adjacency) = remaining adjacency - {(k, m)}"
  by (auto simp: remaining_def update_conv' split: if_splits)

lemma remaining_alt:
  assumes "distinct (map fst adjacency)"
  shows "remaining adjacency = {(u, v). \<exists>cs. (u, cs) \<in> set adjacency \<and> v \<in> set cs}"
  using assms by (simp add: remaining_def)

lemma list_all_remaining:
  assumes "distinct (map fst adjacency)"
  shows "list_all (\<lambda>cs. m \<notin> set cs) (map snd adjacency) \<longleftrightarrow> (\<forall>u. (u, m) \<notin> remaining adjacency)"
  unfolding remaining_alt[OF assms] list_all_iff by force

lemma list_ex_remaining:
  assumes "distinct (map fst adjacency)"
  shows "list_ex (\<lambda>c. c \<noteq> []) (map snd adjacency) \<longleftrightarrow> remaining adjacency \<noteq> {}"
proof
  assume "list_ex (\<lambda>c. c \<noteq> []) (map snd adjacency)"
  then obtain u cs where "(u, cs) \<in> set adjacency" "cs \<noteq> []"
    by (auto simp: list_ex_iff)
  then have "(u, hd cs) \<in> remaining adjacency"
    unfolding remaining_alt[OF assms] by auto
  then show "remaining adjacency \<noteq> {}" by blast
next
  assume "remaining adjacency \<noteq> {}"
  then obtain u v where "(u, v) \<in> remaining adjacency" by auto
  then obtain cs where "(u, cs) \<in> set adjacency" "v \<in> set cs"
    unfolding remaining_alt[OF assms] by auto
  then show "list_ex (\<lambda>c. c \<noteq> []) (map snd adjacency)"
    by (force simp: list_ex_iff)
qed

lemma find_node_id:
  "m \<in> set (map node_id nodes) \<Longrightarrow>
     \<exists>n. find (\<lambda>node. node_id node = m) nodes = Some n \<and> n \<in> set nodes \<and> node_id n = m"
  by (induction nodes) auto


definition kahnInv ::
  "AbstractNode list \<Rightarrow> (string \<times> string) set \<Rightarrow> string set \<Rightarrow> (string \<times> string list) list
     \<Rightarrow> AbstractNode list \<Rightarrow> AbstractNode list \<Rightarrow> bool" where
  "kahnInv nodes E busy adjacency startNodes sortedNodes \<longleftrightarrow>
     distinct (map fst adjacency) \<and>
     set (map fst adjacency) = set (map node_id nodes) \<and>
     remaining adjacency \<subseteq> E \<and>
     set startNodes \<subseteq> set nodes \<and>
     set sortedNodes \<subseteq> set nodes \<and>
     distinct (map node_id (startNodes @ sortedNodes)) \<and>
     (\<forall>v \<in> set (map node_id nodes).
        v \<in> set (map node_id (startNodes @ sortedNodes)) \<longleftrightarrow> (\<forall>u. (u, v) \<notin> remaining adjacency)) \<and>
     (\<forall>n \<in> set sortedNodes. node_id n \<notin> busy \<longrightarrow> (\<forall>v. (node_id n, v) \<notin> remaining adjacency)) \<and>
     (\<forall>u v. (u, v) \<in> E \<longrightarrow> (u, v) \<notin> remaining adjacency \<longrightarrow> u \<in> set (map node_id sortedNodes)) \<and>
     (\<forall>i j. i < length sortedNodes \<longrightarrow> j < length sortedNodes \<longrightarrow>
        (node_id (sortedNodes ! i), node_id (sortedNodes ! j)) \<in> E \<longrightarrow> i < j)"

lemma visitAdjacent_inv:
  assumes "kahnInv nodes E {nId} adjacency startNodes sortedNodes"
    and "E \<subseteq> set (map node_id nodes) \<times> set (map node_id nodes)"
    and "nId \<in> set (map node_id sortedNodes)"
  shows "\<exists>r. visitAdjacent nodes nId adjacency startNodes = Inr r \<and>
             kahnInv nodes E {} (fst r) (snd r) sortedNodes"
  using assms
proof (induction nodes nId adjacency startNodes rule: visitAdjacent.induct)
  case (1 nodes nId adjacency startNodes)
  note inv = "1.prems"(1) and E = "1.prems"(2) and nId = "1.prems"(3)
  from inv have dist: "distinct (map fst adjacency)"
    and keys: "set (map fst adjacency) = set (map node_id nodes)"
    and RE: "remaining adjacency \<subseteq> E"
    and st: "set startNodes \<subseteq> set nodes"
    and so: "set sortedNodes \<subseteq> set nodes"
    and dn: "distinct (map node_id (startNodes @ sortedNodes))"
    and F: "\<forall>v \<in> set (map node_id nodes).
        v \<in> set (map node_id (startNodes @ sortedNodes)) \<longleftrightarrow> (\<forall>u. (u, v) \<notin> remaining adjacency)"
    and G: "\<forall>n \<in> set sortedNodes. node_id n \<notin> {nId} \<longrightarrow> (\<forall>v. (node_id n, v) \<notin> remaining adjacency)"
    and H: "\<forall>u v. (u, v) \<in> E \<longrightarrow> (u, v) \<notin> remaining adjacency \<longrightarrow> u \<in> set (map node_id sortedNodes)"
    and I: "\<forall>i j. i < length sortedNodes \<longrightarrow> j < length sortedNodes \<longrightarrow>
        (node_id (sortedNodes ! i), node_id (sortedNodes ! j)) \<in> E \<longrightarrow> i < j"
    unfolding kahnInv_def by blast+
  have "nId \<in> set (map node_id nodes)" using nId so by auto
  then have "nId \<in> fst ` set adjacency" using keys by simp
  then obtain cs where cs: "map_of adjacency nId = Some cs"
    by (metis domD dom_map_of_conv_image_fst)
  show ?case
  proof (cases cs)
    case Nil
    have "\<forall>v. (nId, v) \<notin> remaining adjacency"
      using cs Nil by (simp add: remaining_def)
    with G have "\<forall>n \<in> set sortedNodes. node_id n \<notin> {} \<longrightarrow> (\<forall>v. (node_id n, v) \<notin> remaining adjacency)"
      by auto
    then have "kahnInv nodes E {} adjacency startNodes sortedNodes"
      unfolding kahnInv_def using dist keys RE st so dn F H I by blast
    then show ?thesis
      using cs Nil by (simp add: visitAdjacent.simps[of nodes nId adjacency])
  next
    case (Cons mId rest)
    let ?adj = "AList.update nId (removeAll mId cs) adjacency"
    have R': "remaining ?adj = remaining adjacency - {(nId, mId)}"
      using cs by (rule remaining_update)
    have edge: "(nId, mId) \<in> remaining adjacency"
      using cs Cons by (auto simp: remaining_def)
    then have mE: "(nId, mId) \<in> E" using RE by auto
    then have mIds: "mId \<in> set (map node_id nodes)" using E by auto
    have mNot: "mId \<notin> set (map node_id (startNodes @ sortedNodes))"
      using F mIds edge by blast
    have dist': "distinct (map fst ?adj)"
      using dist by (rule distinct_update)
    have keys': "set (map fst ?adj) = set (map node_id nodes)"
      using keys \<open>nId \<in> fst ` set adjacency\<close> by (auto simp: dom_update)
    have RE': "remaining ?adj \<subseteq> E" using RE R' by auto
    have G': "\<forall>n \<in> set sortedNodes. node_id n \<notin> {nId} \<longrightarrow> (\<forall>v. (node_id n, v) \<notin> remaining ?adj)"
      using G R' by auto
    have H': "\<forall>u v. (u, v) \<in> E \<longrightarrow> (u, v) \<notin> remaining ?adj \<longrightarrow> u \<in> set (map node_id sortedNodes)"
      using H R' nId by auto
    show ?thesis
    proof (cases "list_all (\<lambda>connectedNodes. mId \<notin> set connectedNodes) (map snd ?adj)")
      case True
      then have noIn: "\<forall>u. (u, mId) \<notin> remaining ?adj"
        using list_all_remaining[OF dist'] by blast
      obtain m where m: "find (\<lambda>node. node_id node = mId) nodes = Some m"
        "m \<in> set nodes" "node_id m = mId"
        using find_node_id[OF mIds] by blast
      have st': "set (startNodes @ [m]) \<subseteq> set nodes" using st m by auto
      have dn': "distinct (map node_id ((startNodes @ [m]) @ sortedNodes))"
        using dn mNot m by auto
      have F': "\<forall>v \<in> set (map node_id nodes).
          v \<in> set (map node_id ((startNodes @ [m]) @ sortedNodes)) \<longleftrightarrow> (\<forall>u. (u, v) \<notin> remaining ?adj)"
      proof
        fix v assume v: "v \<in> set (map node_id nodes)"
        show "v \<in> set (map node_id ((startNodes @ [m]) @ sortedNodes)) \<longleftrightarrow> (\<forall>u. (u, v) \<notin> remaining ?adj)"
        proof (cases "v = mId")
          case True
          then show ?thesis using noIn m by auto
        next
          case False
          have "(\<forall>u. (u, v) \<notin> remaining ?adj) \<longleftrightarrow> (\<forall>u. (u, v) \<notin> remaining adjacency)"
            using R' False by auto
          moreover have "v \<in> set (map node_id ((startNodes @ [m]) @ sortedNodes))
                           \<longleftrightarrow> v \<in> set (map node_id (startNodes @ sortedNodes))"
            using False m by auto
          ultimately show ?thesis using F v by blast
        qed
      qed
      have inv': "kahnInv nodes E {nId} ?adj (startNodes @ [m]) sortedNodes"
        unfolding kahnInv_def using dist' keys' RE' st' so dn' F' G' H' I by blast
      have "\<exists>r. visitAdjacent nodes nId ?adj (startNodes @ [m]) = Inr r \<and>
             kahnInv nodes E {} (fst r) (snd r) sortedNodes"
        using "1.IH"(1)[OF cs Cons _ m(1) inv' E nId] True Cons by simp
      then show ?thesis
        using cs Cons True m(1) by (simp add: visitAdjacent.simps[of nodes nId adjacency])
    next
      case False
      then obtain u where u: "(u, mId) \<in> remaining ?adj"
        using list_all_remaining[OF dist'] by blast
      have F': "\<forall>v \<in> set (map node_id nodes).
          v \<in> set (map node_id (startNodes @ sortedNodes)) \<longleftrightarrow> (\<forall>u. (u, v) \<notin> remaining ?adj)"
      proof
        fix v assume v: "v \<in> set (map node_id nodes)"
        show "v \<in> set (map node_id (startNodes @ sortedNodes)) \<longleftrightarrow> (\<forall>u. (u, v) \<notin> remaining ?adj)"
        proof (cases "v = mId")
          case True
          then show ?thesis using u mNot by auto
        next
          case False
          have "(\<forall>u. (u, v) \<notin> remaining ?adj) \<longleftrightarrow> (\<forall>u. (u, v) \<notin> remaining adjacency)"
            using R' False by auto
          then show ?thesis using F v by blast
        qed
      qed
      have inv': "kahnInv nodes E {nId} ?adj startNodes sortedNodes"
        unfolding kahnInv_def using dist' keys' RE' st so dn F' G' H' I by blast
      have "\<exists>r. visitAdjacent nodes nId ?adj startNodes = Inr r \<and>
             kahnInv nodes E {} (fst r) (snd r) sortedNodes"
        using "1.IH"(2)[OF cs Cons _ inv' E nId] False Cons by simp
      then show ?thesis
        using cs Cons False by (simp add: visitAdjacent.simps[of nodes nId adjacency])
    qed
  qed
qed


lemma kahnInv_pop:
  assumes inv: "kahnInv nodes E {} adjacency startNodes sortedNodes"
    and ne: "startNodes \<noteq> []"
  shows "kahnInv nodes E {node_id (last startNodes)} adjacency (butlast startNodes)
           (sortedNodes @ [last startNodes])"
proof -
  let ?n = "last startNodes"
  let ?st = "butlast startNodes"
  let ?so = "sortedNodes @ [?n]"
  have split: "startNodes = ?st @ [?n]" using ne by simp
  from inv have dist: "distinct (map fst adjacency)"
    and keys: "set (map fst adjacency) = set (map node_id nodes)"
    and RE: "remaining adjacency \<subseteq> E"
    and st: "set startNodes \<subseteq> set nodes"
    and so: "set sortedNodes \<subseteq> set nodes"
    and dn: "distinct (map node_id (startNodes @ sortedNodes))"
    and F: "\<forall>v \<in> set (map node_id nodes).
        v \<in> set (map node_id (startNodes @ sortedNodes)) \<longleftrightarrow> (\<forall>u. (u, v) \<notin> remaining adjacency)"
    and G: "\<forall>n \<in> set sortedNodes. node_id n \<notin> {} \<longrightarrow> (\<forall>v. (node_id n, v) \<notin> remaining adjacency)"
    and H: "\<forall>u v. (u, v) \<in> E \<longrightarrow> (u, v) \<notin> remaining adjacency \<longrightarrow> u \<in> set (map node_id sortedNodes)"
    and I: "\<forall>i j. i < length sortedNodes \<longrightarrow> j < length sortedNodes \<longrightarrow>
        (node_id (sortedNodes ! i), node_id (sortedNodes ! j)) \<in> E \<longrightarrow> i < j"
    unfolding kahnInv_def by blast+
  have nIn: "?n \<in> set nodes" using st ne by auto
  have sets: "set (map node_id (?st @ ?so)) = set (map node_id (startNodes @ sortedNodes))"
    by (subst (2) split) auto
  have st': "set ?st \<subseteq> set nodes" using st by (metis in_set_butlastD subsetD subsetI)
  have so': "set ?so \<subseteq> set nodes" using so nIn by auto
  have "distinct (map node_id ((?st @ [?n]) @ sortedNodes))" using dn split by simp
  then have dn': "distinct (map node_id (?st @ ?so))" by auto
  have nNot: "node_id ?n \<notin> set (map node_id sortedNodes)"
    using \<open>distinct (map node_id ((?st @ [?n]) @ sortedNodes))\<close> by auto
  have F': "\<forall>v \<in> set (map node_id nodes).
        v \<in> set (map node_id (?st @ ?so)) \<longleftrightarrow> (\<forall>u. (u, v) \<notin> remaining adjacency)"
    using F sets by simp
  have G': "\<forall>n \<in> set ?so. node_id n \<notin> {node_id ?n} \<longrightarrow> (\<forall>v. (node_id n, v) \<notin> remaining adjacency)"
    using G by auto
  have H': "\<forall>u v. (u, v) \<in> E \<longrightarrow> (u, v) \<notin> remaining adjacency \<longrightarrow> u \<in> set (map node_id ?so)"
    using H by auto
  have preds: "\<And>u v. (u, v) \<in> E \<Longrightarrow> v \<in> set (map node_id (startNodes @ sortedNodes))
                  \<Longrightarrow> v \<in> set (map node_id nodes) \<Longrightarrow> u \<in> set (map node_id sortedNodes)"
    using F H by blast
  have nIds: "node_id ?n \<in> set (map node_id nodes)" using nIn by auto
  have nSt: "node_id ?n \<in> set (map node_id (startNodes @ sortedNodes))" using ne by auto
  have I': "\<forall>i j. i < length ?so \<longrightarrow> j < length ?so \<longrightarrow>
        (node_id (?so ! i), node_id (?so ! j)) \<in> E \<longrightarrow> i < j"
  proof (intro allI impI)
    fix i j assume i: "i < length ?so" and j: "j < length ?so"
      and e: "(node_id (?so ! i), node_id (?so ! j)) \<in> E"
    show "i < j"
    proof (cases "j < length sortedNodes")
      case jOld: True
      show ?thesis
      proof (cases "i < length sortedNodes")
        case True
        with jOld e I show ?thesis by (simp add: nth_append)
      next
        case False
        then have "?so ! i = ?n" using i by (simp add: nth_append)
        moreover have "?so ! j = sortedNodes ! j" using jOld by (simp add: nth_append)
        ultimately have e': "(node_id ?n, node_id (sortedNodes ! j)) \<in> E" using e by simp
        have "sortedNodes ! j \<in> set sortedNodes" using jOld by simp
        then have "node_id (sortedNodes ! j) \<in> set (map node_id (startNodes @ sortedNodes))"
          "node_id (sortedNodes ! j) \<in> set (map node_id nodes)"
          using so by auto
        from preds[OF e' this] nNot show ?thesis by simp
      qed
    next
      case False
      then have jn: "?so ! j = ?n" "j = length sortedNodes" using j by (auto simp: nth_append)
      show ?thesis
      proof (cases "i < length sortedNodes")
        case True
        then show ?thesis using jn by simp
      next
        case False
        then have "?so ! i = ?n" using i by (simp add: nth_append)
        then have "(node_id ?n, node_id ?n) \<in> E" using e jn by simp
        from preds[OF this nSt nIds] nNot show ?thesis by simp
      qed
    qed
  qed
  show ?thesis
    unfolding kahnInv_def using dist keys RE st' so' dn' F' G' H' I' by blast
qed

lemma sortLoop_inv:
  assumes "kahnInv nodes E {} adjacency startNodes sortedNodes"
    and "E \<subseteq> set (map node_id nodes) \<times> set (map node_id nodes)"
  shows "\<exists>r. sortLoop nodes adjacency startNodes sortedNodes = Inr r \<and>
             kahnInv nodes E {} (fst r) [] (snd r)"
  using assms
proof (induction nodes adjacency startNodes sortedNodes rule: sortLoop.induct)
  case (1 nodes adjacency startNodes sortedNodes)
  show ?case
  proof (cases "startNodes = []")
    case True
    then show ?thesis
      unfolding sortLoop.simps[of nodes adjacency startNodes sortedNodes]
      using "1.prems"(1) by simp
  next
    case False
    let ?n = "last startNodes"
    have inv1: "kahnInv nodes E {node_id ?n} adjacency (butlast startNodes) (sortedNodes @ [?n])"
      using kahnInv_pop[OF "1.prems"(1) False] .
    have "node_id ?n \<in> set (map node_id (sortedNodes @ [?n]))" by simp
    from visitAdjacent_inv[OF inv1 "1.prems"(2) this]
    obtain r where r: "visitAdjacent nodes (node_id ?n) adjacency (butlast startNodes) = Inr r"
      and inv2: "kahnInv nodes E {} (fst r) (snd r) (sortedNodes @ [?n])"
      by blast
    from "1.IH"[OF False r inv2 "1.prems"(2)]
    show ?thesis
      unfolding sortLoop.simps[of nodes adjacency startNodes sortedNodes]
      using False r by simp
  qed
qed

lemma set_newSet: "set (newSet xs) = set xs"
  by (simp add: newSet_def)

lemma set_map_filter: "set (List.map_filter f xs) = {y. \<exists>x \<in> set xs. f x = Some y}"
  by (induction xs) (auto split: option.splits)

definition mapEdges :: "(string \<times> string) list \<Rightarrow> IConnection list \<Rightarrow> (string \<times> string) set" where
  "mapEdges ifToNode connections =
     {(u, v). \<exists>c \<in> set connections. map_of ifToNode (intf_id (conn_from c)) = Some u \<and>
                                    map_of ifToNode (intf_id (conn_to c)) = Some v}"

lemma fold_update_keys:
  "fst ` set (fold (\<lambda>n acc. AList.update (key n) (g n) acc) xs acc0)
     = key ` set xs \<union> fst ` set acc0"
  by (induction xs arbitrary: acc0) (auto simp: dom_update)

lemma fold_update_distinct:
  "distinct (map fst acc0) \<Longrightarrow>
     distinct (map fst (fold (\<lambda>n acc. AList.update (key n) (g n) acc) xs acc0))"
  by (induction xs arbitrary: acc0) (auto simp: distinct_update)

lemma fold_update_lookup:
  "map_of (fold (\<lambda>n acc. AList.update (key n) (h (key n)) acc) xs acc0) k
     = (if k \<in> key ` set xs then Some (h k) else map_of acc0 k)"
proof (induction xs arbitrary: acc0)
  case Nil
  then show ?case by simp
next
  case (Cons x xs)
  show ?case
    unfolding fold_simps Cons.IH by (simp add: update_conv')
qed

definition adjacentIds :: "(string \<times> string) list \<Rightarrow> IConnection list \<Rightarrow> string \<Rightarrow> string list" where
  "adjacentIds ifToNode connections k =
     newSet (List.map_filter (\<lambda>c. map_of ifToNode (intf_id (conn_to c)))
               (filter (\<lambda>c. map_of ifToNode (intf_id (conn_from c)) = Some k) connections))"

lemma adjacentNodes_ids:
  "adjacentNodes ifToNode connections n = adjacentIds ifToNode connections (node_id n)"
  by (simp add: adjacentNodes_def adjacentIds_def connectionsFromCurrentNode_def)

lemma set_adjacentIds:
  "set (adjacentIds ifToNode connections k) = {v. (k, v) \<in> mapEdges ifToNode connections}"
  by (auto simp: adjacentIds_def set_newSet set_map_filter mapEdges_def)

lemma remaining_buildAdjacency:
  assumes ran: "\<And>p i. map_of ifToNode p = Some i \<Longrightarrow> i \<in> set (map node_id nodes)"
  shows "remaining (buildAdjacency ifToNode connections nodes) = mapEdges ifToNode connections"
proof -
  let ?adj = "buildAdjacency ifToNode connections nodes"
  have look: "\<And>k. map_of ?adj k =
      (if k \<in> node_id ` set nodes then Some (adjacentIds ifToNode connections k) else None)"
    unfolding buildAdjacency_def adjacentNodes_ids by (simp add: fold_update_lookup)
  show ?thesis
  proof (rule set_eqI, clarify)
    fix u v
    show "(u, v) \<in> remaining ?adj \<longleftrightarrow> (u, v) \<in> mapEdges ifToNode connections"
    proof
      assume "(u, v) \<in> remaining ?adj"
      then obtain cs where cs: "map_of ?adj u = Some cs" "v \<in> set cs"
        by (auto simp: remaining_def)
      then have "cs = adjacentIds ifToNode connections u"
        unfolding look by (simp split: if_splits)
      then show "(u, v) \<in> mapEdges ifToNode connections"
        using cs by (simp add: set_adjacentIds)
    next
      assume e: "(u, v) \<in> mapEdges ifToNode connections"
      then have "u \<in> node_id ` set nodes" using ran by (auto simp: mapEdges_def)
      then have "map_of ?adj u = Some (adjacentIds ifToNode connections u)"
        unfolding look by simp
      moreover have "v \<in> set (adjacentIds ifToNode connections u)"
        using e by (simp add: set_adjacentIds)
      ultimately show "(u, v) \<in> remaining ?adj" by (auto simp: remaining_def)
    qed
  qed
qed

lemma spliceFirst_filter:
  "distinct (map node_id xs) \<Longrightarrow>
     spliceFirst (\<lambda>n. t = Some (node_id n)) xs = filter (\<lambda>n. t \<noteq> Some (node_id n)) xs"
proof (induction xs)
  case Nil
  then show ?case by simp
next
  case (Cons x xs)
  show ?case
  proof (cases "t = Some (node_id x)")
    case True
    then have "\<forall>n \<in> set xs. t \<noteq> Some (node_id n)" using Cons.prems by auto
    then have "filter (\<lambda>n. t \<noteq> Some (node_id n)) xs = xs" by simp
    then show ?thesis using True by simp
  next
    case False
    then show ?thesis using Cons by simp
  qed
qed

lemma initialStartNodes_filter:
  "distinct (map node_id nodes) \<Longrightarrow>
     initialStartNodes ifToNode connections nodes =
       filter (\<lambda>n. \<forall>c \<in> set connections. map_of ifToNode (intf_id (conn_to c)) \<noteq> Some (node_id n)) nodes"
  unfolding initialStartNodes_def
proof (induction connections arbitrary: nodes)
  case Nil
  then show ?case by simp
next
  case (Cons c cs)
  let ?t = "map_of ifToNode (intf_id (conn_to c))"
  have "distinct (map node_id (filter (\<lambda>n. ?t \<noteq> Some (node_id n)) nodes))"
    using Cons.prems by (simp add: distinct_map_filter)
  from Cons.IH[OF this] show ?case
    using Cons.prems by (simp add: spliceFirst_filter)
qed

lemma kahnInv_initial:
  assumes dist: "distinct (map node_id nodes)"
    and ran: "\<And>p i. map_of ifToNode p = Some i \<Longrightarrow> i \<in> set (map node_id nodes)"
    and src: "\<And>c. c \<in> set connections \<Longrightarrow> map_of ifToNode (intf_id (conn_to c)) \<noteq> None
                 \<Longrightarrow> map_of ifToNode (intf_id (conn_from c)) \<noteq> None"
  shows "kahnInv nodes (mapEdges ifToNode connections) {}
           (buildAdjacency ifToNode connections nodes)
           (initialStartNodes ifToNode connections nodes) []"
proof -
  let ?adj = "buildAdjacency ifToNode connections nodes"
  let ?st = "initialStartNodes ifToNode connections nodes"
  let ?E = "mapEdges ifToNode connections"
  have R: "remaining ?adj = ?E" using ran by (rule remaining_buildAdjacency)
  have st: "?st = filter (\<lambda>n. \<forall>c \<in> set connections.
                     map_of ifToNode (intf_id (conn_to c)) \<noteq> Some (node_id n)) nodes"
    using dist by (rule initialStartNodes_filter)
  have d1: "distinct (map fst ?adj)"
    unfolding buildAdjacency_def by (rule fold_update_distinct) simp
  have k1: "set (map fst ?adj) = set (map node_id nodes)"
    unfolding buildAdjacency_def by (simp add: fold_update_keys)
  have s1: "set ?st \<subseteq> set nodes" using st by auto
  have dn: "distinct (map node_id (?st @ []))"
    using st dist by (simp add: distinct_map_filter)
  have F: "\<forall>v \<in> set (map node_id nodes).
        v \<in> set (map node_id (?st @ [])) \<longleftrightarrow> (\<forall>u. (u, v) \<notin> remaining ?adj)"
  proof
    fix v assume "v \<in> set (map node_id nodes)"
    then obtain n where n: "n \<in> set nodes" "v = node_id n" by auto
    have "v \<in> set (map node_id ?st) \<longleftrightarrow>
            (\<forall>c \<in> set connections. map_of ifToNode (intf_id (conn_to c)) \<noteq> Some v)"
      using n st by auto
    also have "\<dots> \<longleftrightarrow> (\<forall>u. (u, v) \<notin> ?E)"
    proof
      assume "\<forall>c \<in> set connections. map_of ifToNode (intf_id (conn_to c)) \<noteq> Some v"
      then show "\<forall>u. (u, v) \<notin> ?E" by (auto simp: mapEdges_def)
    next
      assume a: "\<forall>u. (u, v) \<notin> ?E"
      show "\<forall>c \<in> set connections. map_of ifToNode (intf_id (conn_to c)) \<noteq> Some v"
      proof
        fix c assume c: "c \<in> set connections"
        show "map_of ifToNode (intf_id (conn_to c)) \<noteq> Some v"
        proof
          assume t: "map_of ifToNode (intf_id (conn_to c)) = Some v"
          then obtain u where "map_of ifToNode (intf_id (conn_from c)) = Some u"
            using src[OF c] by auto
          then have "(u, v) \<in> ?E" using c t by (auto simp: mapEdges_def)
          with a show False by blast
        qed
      qed
    qed
    finally show "v \<in> set (map node_id (?st @ [])) \<longleftrightarrow> (\<forall>u. (u, v) \<notin> remaining ?adj)"
      using R by simp
  qed
  have RE: "remaining ?adj \<subseteq> ?E" using R by simp
  have s2: "set ([] :: AbstractNode list) \<subseteq> set nodes" by simp
  have G: "\<forall>n \<in> set ([] :: AbstractNode list). node_id n \<notin> {} \<longrightarrow> (\<forall>v. (node_id n, v) \<notin> remaining ?adj)"
    by simp
  have H: "\<forall>u v. (u, v) \<in> ?E \<longrightarrow> (u, v) \<notin> remaining ?adj
              \<longrightarrow> u \<in> set (map node_id ([] :: AbstractNode list))"
    using R by simp
  have I: "\<forall>i j. i < length ([] :: AbstractNode list) \<longrightarrow> j < length ([] :: AbstractNode list) \<longrightarrow>
        (node_id ([] ! i), node_id ([] ! j)) \<in> ?E \<longrightarrow> i < j"
    by simp
  show ?thesis
    unfolding kahnInv_def using d1 k1 RE s1 s2 dn F G H I by blast
qed


lemma takeWhile_position:
  "distinct (map f xs) \<Longrightarrow> i < length xs \<Longrightarrow>
     length (takeWhile (\<lambda>x. f x \<noteq> f (xs ! i)) xs) = i"
proof (induction xs arbitrary: i)
  case Nil
  then show ?case by simp
next
  case (Cons x xs)
  show ?case
  proof (cases i)
    case 0
    then show ?thesis by simp
  next
    case (Suc k)
    then have "f x \<noteq> f (xs ! k)" using Cons.prems by auto
    then show ?thesis using Suc Cons by simp
  qed
qed

lemma positions_acyclic:
  assumes dist: "distinct (map node_id sortedNodes)"
    and dom: "E \<subseteq> set (map node_id sortedNodes) \<times> set (map node_id sortedNodes)"
    and ord: "\<forall>i j. i < length sortedNodes \<longrightarrow> j < length sortedNodes \<longrightarrow>
        (node_id (sortedNodes ! i), node_id (sortedNodes ! j)) \<in> E \<longrightarrow> i < j"
  shows "acyclic E"
proof -
  let ?pos = "\<lambda>v. length (takeWhile (\<lambda>x. node_id x \<noteq> v) sortedNodes)"
  have "E \<subseteq> measure ?pos"
  proof (rule subsetI, clarify)
    fix u v assume e: "(u, v) \<in> E"
    then have "u \<in> set (map node_id sortedNodes)" "v \<in> set (map node_id sortedNodes)"
      using dom by auto
    then obtain i j where i: "i < length sortedNodes" "u = node_id (sortedNodes ! i)"
      and j: "j < length sortedNodes" "v = node_id (sortedNodes ! j)"
      unfolding in_set_conv_nth by auto
    have "?pos u = i" unfolding i(2) using dist i(1) by (rule takeWhile_position)
    moreover have "?pos v = j" unfolding j(2) using dist j(1) by (rule takeWhile_position)
    moreover have "i < j" using ord i j e by blast
    ultimately show "(u, v) \<in> measure ?pos" by simp
  qed
  then have "wf E" by (rule wf_subset[OF wf_measure])
  then show ?thesis by (rule wf_acyclic)
qed

lemma kahnInv_final:
  assumes inv: "kahnInv nodes E {} adjacency [] sortedNodes"
    and dist: "distinct (map node_id nodes)"
    and E: "E \<subseteq> set (map node_id nodes) \<times> set (map node_id nodes)"
  shows "remaining adjacency = {} \<longleftrightarrow> acyclic E"
    and "remaining adjacency = {} \<Longrightarrow> mset sortedNodes = mset nodes"
    and "\<forall>i j. i < length sortedNodes \<longrightarrow> j < length sortedNodes \<longrightarrow>
        (node_id (sortedNodes ! i), node_id (sortedNodes ! j)) \<in> E \<longrightarrow> i < j"
proof -
  from inv have RE: "remaining adjacency \<subseteq> E"
    and so: "set sortedNodes \<subseteq> set nodes"
    and dn: "distinct (map node_id sortedNodes)"
    and F: "\<forall>v \<in> set (map node_id nodes).
        v \<in> set (map node_id sortedNodes) \<longleftrightarrow> (\<forall>u. (u, v) \<notin> remaining adjacency)"
    and G: "\<forall>n \<in> set sortedNodes. \<forall>v. (node_id n, v) \<notin> remaining adjacency"
    and I: "\<forall>i j. i < length sortedNodes \<longrightarrow> j < length sortedNodes \<longrightarrow>
        (node_id (sortedNodes ! i), node_id (sortedNodes ! j)) \<in> E \<longrightarrow> i < j"
    unfolding kahnInv_def by simp_all
  show "\<forall>i j. i < length sortedNodes \<longrightarrow> j < length sortedNodes \<longrightarrow>
        (node_id (sortedNodes ! i), node_id (sortedNodes ! j)) \<in> E \<longrightarrow> i < j"
    by (rule I)
  have all: "set (map node_id sortedNodes) = set (map node_id nodes)" if "remaining adjacency = {}"
  proof
    show "set (map node_id sortedNodes) \<subseteq> set (map node_id nodes)" using so by auto
    show "set (map node_id nodes) \<subseteq> set (map node_id sortedNodes)" using F that by blast
  qed
  show perm: "mset sortedNodes = mset nodes" if empty: "remaining adjacency = {}"
  proof -
    have inj: "inj_on node_id (set nodes)" using dist by (simp add: distinct_map)
    have "set nodes \<subseteq> set sortedNodes"
    proof
      fix n assume n: "n \<in> set nodes"
      then have "node_id n \<in> set (map node_id sortedNodes)" using all[OF empty] by auto
      then obtain m where m: "m \<in> set sortedNodes" "node_id m = node_id n" by auto
      then have "m = n" using inj n so by (auto dest: inj_onD)
      then show "n \<in> set sortedNodes" using m by simp
    qed
    then have "set sortedNodes = set nodes" using so by auto
    moreover have "distinct sortedNodes" using dn by (rule distinct_map[THEN iffD1, THEN conjunct1])
    moreover have "distinct nodes" using dist by (rule distinct_map[THEN iffD1, THEN conjunct1])
    ultimately show ?thesis by (simp add: set_eq_iff_mset_eq_distinct)
  qed
  show "remaining adjacency = {} \<longleftrightarrow> acyclic E"
  proof
    assume empty: "remaining adjacency = {}"
    have "E \<subseteq> set (map node_id sortedNodes) \<times> set (map node_id sortedNodes)"
      using E all[OF empty] by simp
    with dn show "acyclic E" using I by (rule positions_acyclic)
  next
    assume acyc: "acyclic E"
    show "remaining adjacency = {}"
    proof (rule ccontr)
      assume "remaining adjacency \<noteq> {}"
      then obtain a b where ab: "(a, b) \<in> remaining adjacency" by auto
      let ?R = "remaining adjacency"
      let ?S = "set (map node_id nodes) - set (map node_id sortedNodes)"
      have "finite E" using E by (rule finite_subset) simp
      then have "finite ?R" using RE by (rule rev_finite_subset)
      moreover have "acyclic ?R" using acyc RE by (rule acyclic_subset)
      ultimately have wf: "wf ?R" by (rule finite_acyclic_wf)
      have "b \<in> set (map node_id nodes)" using ab RE E by auto
      then have bS: "b \<in> ?S" using F ab by blast
      from wfE_min[OF wf bS] obtain z where z: "z \<in> ?S" "\<And>y. (y, z) \<in> ?R \<Longrightarrow> y \<notin> ?S"
        by blast
      from z(1) F obtain y where y: "(y, z) \<in> ?R" by blast
      then have "y \<in> set (map node_id nodes)" using RE E by auto
      moreover have "y \<notin> set (map node_id sortedNodes)" using G y by auto
      ultimately have "y \<in> ?S" by simp
      with z(2)[OF y] show False by simp
    qed
  qed
qed


lemma set_edges:
  "set (edges nodes connections) =
     {(node_id n, node_id m) | n m c. c \<in> set connections \<and> n \<in> set nodes \<and> m \<in> set nodes \<and>
        intf_id (conn_from c) \<in> set (interfaceIds n) \<and> intf_id (conn_to c) \<in> set (interfaceIds m)}"
  unfolding edges_def by (auto split: if_splits) 

lemma fold_register_lookup:
  "map_of (fold (\<lambda>kv acc. AList.update (intf_id (snd kv)) v acc) xs m) p
     = (if p \<in> (\<lambda>kv. intf_id (snd kv)) ` set xs then Some v else map_of m p)"
  by (induction xs arbitrary: m) (auto simp: update_conv')

lemma registerInterfaces_lookup:
  "map_of (registerInterfaces n m) p
     = (if p \<in> set (interfaceIds n) then Some (node_id n) else map_of m p)"
  by (auto simp: registerInterfaces_def interfaceIds_def fold_register_lookup)

lemma interfaceIdToNodeId_Some:
  "map_of (fold registerInterfaces nodes acc) p = Some i \<Longrightarrow>
     (\<exists>n \<in> set nodes. i = node_id n \<and> p \<in> set (interfaceIds n)) \<or> map_of acc p = Some i"
proof (induction nodes arbitrary: acc)
  case Nil
  then show ?case by simp
next
  case (Cons x xs)
  from Cons.IH[of "registerInterfaces x acc"] Cons.prems
  show ?case by (auto simp: registerInterfaces_lookup split: if_splits)
qed

lemma interfaceIdToNodeId_owner:
  "distinct (concat (map interfaceIds nodes)) \<Longrightarrow> n \<in> set nodes \<Longrightarrow> p \<in> set (interfaceIds n) \<Longrightarrow>
     map_of (fold registerInterfaces nodes acc) p = Some (node_id n)"
proof (induction nodes arbitrary: acc rule: rev_induct)
  case Nil
  then show ?case by simp
next
  case (snoc x xs)
  have d: "distinct (concat (map interfaceIds xs))"
    and disj: "set (concat (map interfaceIds xs)) \<inter> set (interfaceIds x) = {}"
    using snoc.prems(1) by auto
  show ?case
  proof (cases "p \<in> set (interfaceIds x)")
    case True
    have "n \<notin> set xs" using True snoc.prems(3) disj by auto
    then have "n = x" using snoc.prems(2) by simp
    then show ?thesis using True by (simp add: registerInterfaces_lookup)
  next
    case False
    then have "n \<in> set xs" using snoc.prems by auto
    from snoc.IH[OF d this snoc.prems(3)] False
    show ?thesis by (simp add: registerInterfaces_lookup)
  qed
qed

lemma wellFormed_mapEdges:
  assumes wf: "wellFormed nodes connections"
  shows "mapEdges (fold registerInterfaces nodes []) connections = set (edges nodes connections)"
proof -
  have dp: "distinct (concat (map interfaceIds nodes))" using wf by (simp add: wellFormed_def)
  let ?o = "fold registerInterfaces nodes []"
  show ?thesis
  proof (rule set_eqI, clarify)
    fix u v
    show "(u, v) \<in> mapEdges ?o connections \<longleftrightarrow> (u, v) \<in> set (edges nodes connections)"
    proof
      assume "(u, v) \<in> mapEdges ?o connections"
      then obtain c where c: "c \<in> set connections"
        "map_of ?o (intf_id (conn_from c)) = Some u" "map_of ?o (intf_id (conn_to c)) = Some v"
        by (auto simp: mapEdges_def)
      from interfaceIdToNodeId_Some[OF c(2)] obtain n where
        n: "n \<in> set nodes" "u = node_id n" "intf_id (conn_from c) \<in> set (interfaceIds n)" by auto
      from interfaceIdToNodeId_Some[OF c(3)] obtain m where
        m: "m \<in> set nodes" "v = node_id m" "intf_id (conn_to c) \<in> set (interfaceIds m)" by auto
      show "(u, v) \<in> set (edges nodes connections)"
        unfolding set_edges using c(1) n m by blast
    next
      assume "(u, v) \<in> set (edges nodes connections)"
      then obtain n m c where c: "c \<in> set connections" and n: "n \<in> set nodes" "u = node_id n"
        "intf_id (conn_from c) \<in> set (interfaceIds n)" and m: "m \<in> set nodes" "v = node_id m"
        "intf_id (conn_to c) \<in> set (interfaceIds m)"
        unfolding set_edges by blast
      have "map_of ?o (intf_id (conn_from c)) = Some u"
        using interfaceIdToNodeId_owner[OF dp n(1) n(3)] n(2) by simp
      moreover have "map_of ?o (intf_id (conn_to c)) = Some v"
        using interfaceIdToNodeId_owner[OF dp m(1) m(3)] m(2) by simp
      ultimately show "(u, v) \<in> mapEdges ?o connections"
        using c by (auto simp: mapEdges_def)
    qed
  qed
qed

lemma sortLoop_wellFormed:
  assumes wf: "wellFormed nodes connections"
  shows "\<exists>r. sortLoop nodes
               (buildAdjacency (fold registerInterfaces nodes []) connections nodes)
               (initialStartNodes (fold registerInterfaces nodes []) connections nodes) [] = Inr r \<and>
             (list_ex (\<lambda>c. c \<noteq> []) (map snd (fst r)) \<longleftrightarrow> \<not> acyclic (set (edges nodes connections))) \<and>
             (acyclic (set (edges nodes connections)) \<longrightarrow> mset (snd r) = mset nodes) \<and>
             (\<forall>i j. i < length (snd r) \<longrightarrow> j < length (snd r) \<longrightarrow>
                (node_id (snd r ! i), node_id (snd r ! j)) \<in> set (edges nodes connections) \<longrightarrow> i < j)"
proof -
  let ?o = "fold registerInterfaces nodes []"
  let ?E = "set (edges nodes connections)"
  have dist: "distinct (map node_id nodes)"
    and dp: "distinct (concat (map interfaceIds nodes))"
    and ends: "\<And>c. c \<in> set connections \<Longrightarrow>
          intf_id (conn_from c) \<in> set (concat (map interfaceIds nodes))"
    using wf by (auto simp: wellFormed_def list_all_iff)
  have ran: "\<And>p i. map_of ?o p = Some i \<Longrightarrow> i \<in> set (map node_id nodes)"
    using interfaceIdToNodeId_Some[of nodes "[]"] by fastforce
  have src: "\<And>c. c \<in> set connections \<Longrightarrow> map_of ?o (intf_id (conn_to c)) \<noteq> None
                 \<Longrightarrow> map_of ?o (intf_id (conn_from c)) \<noteq> None"
  proof -
    fix c assume "c \<in> set connections"
    from ends[OF this] obtain n where "n \<in> set nodes" "intf_id (conn_from c) \<in> set (interfaceIds n)"
      by auto
    from interfaceIdToNodeId_owner[OF dp this]
    show "map_of ?o (intf_id (conn_from c)) \<noteq> None" by simp
  qed
  have E: "mapEdges ?o connections = ?E" using wf by (rule wellFormed_mapEdges)
  have Esub: "?E \<subseteq> set (map node_id nodes) \<times> set (map node_id nodes)"
    unfolding set_edges by auto
  have "kahnInv nodes (mapEdges ?o connections) {} (buildAdjacency ?o connections nodes)
          (initialStartNodes ?o connections nodes) []"
  proof (rule kahnInv_initial)
    show "distinct (map node_id nodes)" by (rule dist)
    show "\<And>p i. map_of ?o p = Some i \<Longrightarrow> i \<in> set (map node_id nodes)" by (rule ran)
    show "\<And>c. c \<in> set connections \<Longrightarrow> map_of ?o (intf_id (conn_to c)) \<noteq> None
                 \<Longrightarrow> map_of ?o (intf_id (conn_from c)) \<noteq> None" by (rule src)
  qed
  then have "kahnInv nodes ?E {} (buildAdjacency ?o connections nodes)
          (initialStartNodes ?o connections nodes) []"
    unfolding E .
  from sortLoop_inv[OF this Esub] obtain r where
    r: "sortLoop nodes (buildAdjacency ?o connections nodes)
          (initialStartNodes ?o connections nodes) [] = Inr r"
    and inv: "kahnInv nodes ?E {} (fst r) [] (snd r)" by blast
  have dk: "distinct (map fst (fst r))" using inv by (simp add: kahnInv_def)
  note fin = kahnInv_final[OF inv dist Esub]
  have "list_ex (\<lambda>c. c \<noteq> []) (map snd (fst r)) \<longleftrightarrow> \<not> acyclic ?E"
    using list_ex_remaining[OF dk] fin(1) by simp
  moreover have "acyclic ?E \<longrightarrow> mset (snd r) = mset nodes"
    using fin(1) fin(2) by blast
  ultimately show ?thesis using r fin(3) by blast
qed

lemma graphInput_data:
  "graphInput nodesOrGraph pConnections nodes connections \<Longrightarrow>
     nodesOrGraphToData nodesOrGraph pConnections =
       Inr \<lparr> data_nodes = nodes, data_connections = connections,
             data_interfaceIdToNodeId = fold registerInterfaces nodes [],
             data_nodeIdToNode = fold (\<lambda>node m. AList.update (node_id node) node m) nodes [] \<rparr>"
  by (auto simp: graphInput_def nodesOrGraphToData_def split: NodesOrGraph.splits)

text \<open>
  Claim C1. For every acyclic, well-formed set of nodes and connections, given directly
  or as a graph, \<^verbatim>\<open>sortTopologically\<close> returns a result whose \<^verbatim>\<open>calculationOrder\<close> is a
  permutation of exactly the input nodes, and for every input connection the node owning
  its source port stands at a strictly smaller index than the node owning its
  destination port.
\<close>

theorem sortTopologically_topological_order:
  assumes inp: "graphInput nodesOrGraph pConnections nodes connections"
    and wf: "wellFormed nodes connections"
    and acyc: "acyclic (set (edges nodes connections))"
  shows "\<exists>r. sortTopologically nodesOrGraph pConnections = Inr r \<and>
             mset (calculationOrder r) = mset nodes \<and>
             (\<forall>c \<in> set connections. \<exists>i j. i < j \<and> j < length (calculationOrder r) \<and>
                 intf_id (conn_from c) \<in> set (interfaceIds (calculationOrder r ! i)) \<and>
                 intf_id (conn_to c) \<in> set (interfaceIds (calculationOrder r ! j)))"
proof -
  let ?E = "set (edges nodes connections)"
  let ?o = "fold registerInterfaces nodes []"
  from sortLoop_wellFormed[OF wf] obtain r0 where
    r0: "sortLoop nodes (buildAdjacency ?o connections nodes)
           (initialStartNodes ?o connections nodes) [] = Inr r0"
    and cyc: "list_ex (\<lambda>c. c \<noteq> []) (map snd (fst r0)) \<longleftrightarrow> \<not> acyclic ?E"
    and perm: "acyclic ?E \<longrightarrow> mset (snd r0) = mset nodes"
    and ord: "\<forall>i j. i < length (snd r0) \<longrightarrow> j < length (snd r0) \<longrightarrow>
                (node_id (snd r0 ! i), node_id (snd r0 ! j)) \<in> ?E \<longrightarrow> i < j"
    by blast
  let ?r = "\<lparr> calculationOrder = snd r0,
              connectionsFromNode = map (\<lambda>n. (n, connectionsFromCurrentNode ?o connections n)) nodes,
              interfaceIdToNodeId = ?o \<rparr>"
  have res: "sortTopologically nodesOrGraph pConnections = Inr ?r"
    using r0 cyc acyc by (simp add: sortTopologically_def graphInput_data[OF inp])
  have p: "mset (snd r0) = mset nodes" using perm acyc by simp
  then have sets: "set (snd r0) = set nodes" by (rule mset_eq_setD)
  have conns: "\<forall>c \<in> set connections. \<exists>i j. i < j \<and> j < length (snd r0) \<and>
                 intf_id (conn_from c) \<in> set (interfaceIds (snd r0 ! i)) \<and>
                 intf_id (conn_to c) \<in> set (interfaceIds (snd r0 ! j))"
  proof
    fix c assume c: "c \<in> set connections"
    then obtain n m where n: "n \<in> set nodes" "intf_id (conn_from c) \<in> set (interfaceIds n)"
      and m: "m \<in> set nodes" "intf_id (conn_to c) \<in> set (interfaceIds m)"
      using wf by (auto simp: wellFormed_def list_all_iff)
    have "n \<in> set (snd r0)" "m \<in> set (snd r0)" using n(1) m(1) sets by simp_all
    then obtain i j where i: "i < length (snd r0)" "snd r0 ! i = n"
      and j: "j < length (snd r0)" "snd r0 ! j = m"
      unfolding in_set_conv_nth by blast
    have "(node_id n, node_id m) \<in> ?E"
      unfolding set_edges using c n m by blast
    then have "i < j" using ord i j by simp
    then show "\<exists>i j. i < j \<and> j < length (snd r0) \<and>
                 intf_id (conn_from c) \<in> set (interfaceIds (snd r0 ! i)) \<and>
                 intf_id (conn_to c) \<in> set (interfaceIds (snd r0 ! j))"
      using i j n m by blast
  qed
  show ?thesis using res p conns by simp
qed

lemma acyclic_empty_rel: "acyclic ({} :: ('a \<times> 'a) set)"
  by (simp add: acyclic_def)

lemma wellFormed_example:
  "wellFormed [testNode ''n1'', testNode ''n2''] [conn12]"
  by (simp add: wellFormed_def interfaceIds_def testNode_def testInterface_def conn12_def
        testConnection_def)

lemma edges_example:
  "edges [testNode ''n1'', testNode ''n2''] [conn12] = [(''n1'', ''n2'')]"
  by (simp add: edges_def interfaceIds_def testNode_def testInterface_def conn12_def
        testConnection_def)

theorem sortTopologically_topological_order_witness:
  "graphInput (ANodes [testNode ''n1'', testNode ''n2'']) (Some [conn12])
      [testNode ''n1'', testNode ''n2''] [conn12] \<and>
   wellFormed [testNode ''n1'', testNode ''n2''] [conn12] \<and>
   acyclic (set (edges [testNode ''n1'', testNode ''n2''] [conn12])) \<and>
   (\<exists>r. sortTopologically (ANodes [testNode ''n1'', testNode ''n2'']) (Some [conn12]) = Inr r \<and>
        mset (calculationOrder r) = mset [testNode ''n1'', testNode ''n2''] \<and>
        (\<forall>c \<in> set [conn12]. \<exists>i j. i < j \<and> j < length (calculationOrder r) \<and>
            intf_id (conn_from c) \<in> set (interfaceIds (calculationOrder r ! i)) \<and>
            intf_id (conn_to c) \<in> set (interfaceIds (calculationOrder r ! j))))"
proof -
  have g: "graphInput (ANodes [testNode ''n1'', testNode ''n2'']) (Some [conn12])
      [testNode ''n1'', testNode ''n2''] [conn12]"
    by (simp add: graphInput_def)
  have a: "acyclic (set (edges [testNode ''n1'', testNode ''n2''] [conn12]))"
    by (simp add: edges_example acyclic_empty_rel)
  show ?thesis
    using g wellFormed_example a sortTopologically_topological_order[OF g wellFormed_example a]
    by blast
qed

text \<open>
  Claim C2. For every well-formed input set of nodes and connections: if it contains a
  directed cycle, \<^verbatim>\<open>sortTopologically\<close> throws CycleError and \<^verbatim>\<open>containsCycle\<close> returns
  true; if it is acyclic, \<^verbatim>\<open>sortTopologically\<close> does not throw and \<^verbatim>\<open>containsCycle\<close>
  returns false. No other error is raised on such an input.
\<close>

theorem sortTopologically_cycle_detection:
  assumes inp: "graphInput nodesOrGraph pConnections nodes connections"
    and wf: "wellFormed nodes connections"
  shows "(\<not> acyclic (set (edges nodes connections)) \<longrightarrow>
            sortTopologically nodesOrGraph pConnections = Inl CycleError \<and>
            containsCycle nodesOrGraph pConnections = Inr True) \<and>
         (acyclic (set (edges nodes connections)) \<longrightarrow>
            (\<exists>r. sortTopologically nodesOrGraph pConnections = Inr r) \<and>
            containsCycle nodesOrGraph pConnections = Inr False)"
proof -
  let ?E = "set (edges nodes connections)"
  let ?o = "fold registerInterfaces nodes []"
  from sortLoop_wellFormed[OF wf] obtain r0 where
    r0: "sortLoop nodes (buildAdjacency ?o connections nodes)
           (initialStartNodes ?o connections nodes) [] = Inr r0"
    and cyc: "list_ex (\<lambda>c. c \<noteq> []) (map snd (fst r0)) \<longleftrightarrow> \<not> acyclic ?E"
    by blast
  have thrown: "sortTopologically nodesOrGraph pConnections = Inl CycleError" if "\<not> acyclic ?E"
    using r0 cyc that by (simp add: sortTopologically_def graphInput_data[OF inp])
  have returned: "\<exists>r. sortTopologically nodesOrGraph pConnections = Inr r" if "acyclic ?E"
    using r0 cyc that by (simp add: sortTopologically_def graphInput_data[OF inp])
  show ?thesis
    using thrown returned by (auto simp: containsCycle_def)
qed

lemma wellFormed_cycle_example:
  "wellFormed [testNode ''n1'', testNode ''n2''] [conn12, conn21]"
  by (simp add: wellFormed_def interfaceIds_def testNode_def testInterface_def conn12_def
        conn21_def testConnection_def)

lemma edges_cycle_example:
  "edges [testNode ''n1'', testNode ''n2''] [conn12, conn21] = [(''n1'', ''n2''), (''n2'', ''n1'')]"
  by (simp add: edges_def interfaceIds_def testNode_def testInterface_def conn12_def
        conn21_def testConnection_def)

theorem sortTopologically_cycle_detection_witness:
  "graphInput (ANodes [testNode ''n1'', testNode ''n2'']) (Some [conn12, conn21])
      [testNode ''n1'', testNode ''n2''] [conn12, conn21] \<and>
   wellFormed [testNode ''n1'', testNode ''n2''] [conn12, conn21] \<and>
   \<not> acyclic (set (edges [testNode ''n1'', testNode ''n2''] [conn12, conn21])) \<and>
   sortTopologically (ANodes [testNode ''n1'', testNode ''n2'']) (Some [conn12, conn21]) = Inl CycleError \<and>
   containsCycle (ANodes [testNode ''n1'', testNode ''n2'']) (Some [conn12, conn21]) = Inr True \<and>
   graphInput (ANodes [testNode ''n1'', testNode ''n2'']) (Some [conn12])
      [testNode ''n1'', testNode ''n2''] [conn12] \<and>
   wellFormed [testNode ''n1'', testNode ''n2''] [conn12] \<and>
   acyclic (set (edges [testNode ''n1'', testNode ''n2''] [conn12])) \<and>
   (\<exists>r. sortTopologically (ANodes [testNode ''n1'', testNode ''n2'']) (Some [conn12]) = Inr r) \<and>
   containsCycle (ANodes [testNode ''n1'', testNode ''n2'']) (Some [conn12]) = Inr False"
proof -
  have g1: "graphInput (ANodes [testNode ''n1'', testNode ''n2'']) (Some [conn12, conn21])
      [testNode ''n1'', testNode ''n2''] [conn12, conn21]"
    by (simp add: graphInput_def)
  have "(''n1'', ''n1'') \<in> {(''n1'', ''n2''), (''n2'', ''n1'')}\<^sup>+"
    by (rule trancl_into_trancl[OF r_into_trancl]) simp_all
  then have c1: "\<not> acyclic (set (edges [testNode ''n1'', testNode ''n2''] [conn12, conn21]))"
    unfolding edges_cycle_example acyclic_def by auto
  have g2: "graphInput (ANodes [testNode ''n1'', testNode ''n2'']) (Some [conn12])
      [testNode ''n1'', testNode ''n2''] [conn12]"
    by (simp add: graphInput_def)
  have a2: "acyclic (set (edges [testNode ''n1'', testNode ''n2''] [conn12]))"
    by (simp add: edges_example acyclic_empty_rel)
  show ?thesis
    using g1 wellFormed_cycle_example c1
      sortTopologically_cycle_detection[OF g1 wellFormed_cycle_example]
      g2 wellFormed_example a2
      sortTopologically_cycle_detection[OF g2 wellFormed_example]
    by blast
qed

section \<open>Determinism of the sorter\<close>























section \<open>Correctness of the component analyzer\<close>

declare dfs.simps [simp del]

definition successorList :: "(string \<times> string) list \<Rightarrow> IConnection list \<Rightarrow> string \<Rightarrow> IConnection list" where
  "successorList ifToNode connections k =
     filter (\<lambda>c. map_of ifToNode (intf_id (conn_from c)) = Some k) connections"

definition listAt :: "(string \<times> 'a list) list \<Rightarrow> string \<Rightarrow> 'a set" where
  "listAt m k = (case map_of m k of None \<Rightarrow> {} | Some cs \<Rightarrow> set cs)"

lemma connectionsFromCurrentNode_successorList:
  "connectionsFromCurrentNode ifToNode connections n = successorList ifToNode connections (node_id n)"
  by (simp add: connectionsFromCurrentNode_def successorList_def)

lemma addPredecessor_listAt:
  "listAt (addPredecessor c p) k = listAt p k \<union> (if intf_nodeId (conn_to c) = k then {c} else {})"
  by (auto simp: addPredecessor_def listAt_def Let_def update_conv' split: option.splits if_splits)

lemma addPredecessor_dom:
  "map_of p k \<noteq> None \<Longrightarrow> map_of (addPredecessor c p) k \<noteq> None"
  by (auto simp: addPredecessor_def Let_def update_conv')

lemma fold_addPredecessor_listAt:
  "listAt (fold addPredecessor cs p) k = listAt p k \<union> {c \<in> set cs. intf_nodeId (conn_to c) = k}"
  by (induction cs arbitrary: p) (auto simp: addPredecessor_listAt)

lemma fold_addPredecessor_dom:
  "map_of p k \<noteq> None \<Longrightarrow> map_of (fold addPredecessor cs p) k \<noteq> None"
proof (induction cs arbitrary: p)
  case Nil
  then show ?case by simp
next
  case (Cons c cs)
  have "map_of (addPredecessor c p) k \<noteq> None" using Cons.prems by (rule addPredecessor_dom)
  then have "map_of (fold addPredecessor cs (addPredecessor c p)) k \<noteq> None" by (rule Cons.IH)
  then show ?case by simp
qed

lemma ensure_listAt:
  "listAt (if map_of p j = None then AList.update j [] p else p) k = listAt p k"
  by (auto simp: listAt_def update_conv' split: option.splits)

lemma addNodeLists_fst:
  "fst (addNodeLists ifToNode connections n built) =
     AList.update (node_id n) (successorList ifToNode connections (node_id n)) (fst built)"
  by (simp add: addNodeLists_def Let_def connectionsFromCurrentNode_successorList)

lemma addNodeLists_listAt:
  "listAt (snd (addNodeLists ifToNode connections n built)) k =
     listAt (snd built) k \<union>
       {c \<in> set (successorList ifToNode connections (node_id n)). intf_nodeId (conn_to c) = k}"
  unfolding addNodeLists_def Let_def snd_conv connectionsFromCurrentNode_successorList
    fold_addPredecessor_listAt ensure_listAt by simp

lemma addNodeLists_dom:
  "map_of (snd built) k \<noteq> None \<or> k = node_id n \<Longrightarrow>
     map_of (snd (addNodeLists ifToNode connections n built)) k \<noteq> None"
  unfolding addNodeLists_def Let_def snd_conv
  by (rule fold_addPredecessor_dom) (auto simp: update_conv')

lemma built_successors:
  "fst (fold (addNodeLists ifToNode connections) nodes built) =
     fold (\<lambda>n acc. AList.update (node_id n) (successorList ifToNode connections (node_id n)) acc)
       nodes (fst built)"
  by (induction nodes arbitrary: built) (simp_all add: addNodeLists_fst)

lemma built_predecessors_listAt:
  "listAt (snd (fold (addNodeLists ifToNode connections) nodes built)) k =
     listAt (snd built) k \<union>
       {c. \<exists>n \<in> set nodes. c \<in> set (successorList ifToNode connections (node_id n)) \<and>
                            intf_nodeId (conn_to c) = k}"
  by (induction nodes arbitrary: built) (auto simp: addNodeLists_listAt)

lemma built_predecessors_dom:
  "map_of (snd built) k \<noteq> None \<or> k \<in> node_id ` set nodes \<Longrightarrow>
     map_of (snd (fold (addNodeLists ifToNode connections) nodes built)) k \<noteq> None"
proof (induction nodes arbitrary: built)
  case Nil
  then show ?case by simp
next
  case (Cons x xs)
  show ?case
  proof (cases "map_of (snd built) k \<noteq> None \<or> k = node_id x")
    case True
    then have "map_of (snd (addNodeLists ifToNode connections x built)) k \<noteq> None"
      by (rule addNodeLists_dom)
    then show ?thesis using Cons.IH by simp
  next
    case False
    then have "k \<in> node_id ` set xs" using Cons.prems by auto
    then show ?thesis using Cons.IH by simp
  qed
qed

lemma nodeIdToNode_lookup:
  "map_of (fold (\<lambda>node m. AList.update (node_id node) node m) nodes acc) k = Some n \<Longrightarrow>
     (n \<in> set nodes \<and> node_id n = k) \<or> map_of acc k = Some n"
proof (induction nodes arbitrary: acc)
  case Nil
  then show ?case by simp
next
  case (Cons x xs)
  from Cons.IH[OF Cons.prems[simplified]] show ?case
    by (auto simp: update_conv' split: if_splits)
qed

lemma nodeIdToNode_dom:
  "k \<in> node_id ` set nodes \<Longrightarrow>
     map_of (fold (\<lambda>node m. AList.update (node_id node) node m) nodes acc) k \<noteq> None"
proof -
  assume "k \<in> node_id ` set nodes"
  then have "k \<in> fst ` set (fold (\<lambda>node m. AList.update (node_id node) node m) nodes acc)"
    by (simp add: fold_update_keys)
  then show ?thesis by (simp add: map_of_eq_None_iff)
qed


definition children :: "IConnection list \<Rightarrow> IConnection list \<Rightarrow> string list" where
  "children nSuccessors nPredecessors =
     map (\<lambda>connection. intf_nodeId (conn_to connection)) nSuccessors @
     map (\<lambda>connection. intf_nodeId (conn_from connection)) nPredecessors"

definition dfsMaps ::
  "string set \<Rightarrow> (string \<times> string) set \<Rightarrow> (string \<Rightarrow> AbstractNode) \<Rightarrow> (string \<Rightarrow> IConnection list)
     \<Rightarrow> (string \<times> AbstractNode) list \<Rightarrow> (string \<times> IConnection list) list
     \<Rightarrow> (string \<times> IConnection list) list \<Rightarrow> bool" where
  "dfsMaps ids nb nodeOf succOf nodeIdToNode successors predecessors \<longleftrightarrow>
     nb \<subseteq> ids \<times> ids \<and>
     (\<forall>k \<in> ids. map_of successors k = Some (succOf k)) \<and>
     (\<forall>k \<in> ids. map_of nodeIdToNode k = Some (nodeOf k)) \<and>
     (\<forall>k \<in> ids. \<exists>ps. map_of predecessors k = Some ps \<and> set (children (succOf k) ps) = nb `` {k})"

lemma dfs_correct:
  assumes "dfsMaps ids nb nodeOf succOf nodeIdToNode successors predecessors"
    and "set pending \<subseteq> ids" and "set visited \<subseteq> ids" and "distinct visited"
    and "\<forall>v \<in> set visited. nb `` {v} \<subseteq> set visited \<union> set pending"
  shows "\<exists>new. dfs nodeIdToNode successors predecessors pending visited component =
             Inr (visited @ new,
                  \<lparr> comp_nodes = comp_nodes component @ map nodeOf new,
                    comp_connections = comp_connections component @ concat (map succOf new) \<rparr>) \<and>
           distinct (visited @ new) \<and> set new \<subseteq> ids \<and> set pending \<subseteq> set (visited @ new) \<and>
           (\<forall>v \<in> set (visited @ new). nb `` {v} \<subseteq> set (visited @ new))"
  using assms
proof (induction nodeIdToNode successors predecessors pending visited component rule: dfs.induct)
  case (1 nodeIdToNode successors predecessors visited component)
  have "dfs nodeIdToNode successors predecessors [] visited component =
          Inr (visited @ [], \<lparr> comp_nodes = comp_nodes component @ map nodeOf [],
                    comp_connections = comp_connections component @ concat (map succOf []) \<rparr>)"
    by (simp add: dfs.simps)
  moreover have "\<forall>v \<in> set (visited @ []). nb `` {v} \<subseteq> set (visited @ [])"
    using "1.prems"(5) by simp
  moreover have "distinct (visited @ [])" "set ([] :: string list) \<subseteq> ids"
    "set ([] :: string list) \<subseteq> set (visited @ [])"
    using "1.prems"(4) by simp_all
  ultimately show ?case by (intro exI[of _ "[]"] conjI)
next
  case (2 nodeIdToNode successors predecessors nodeId pending visited component)
  note M = "2.prems"(1) and pend = "2.prems"(2) and vis = "2.prems"(3) and dist = "2.prems"(4)
    and closed = "2.prems"(5)
  show ?case
  proof (cases "nodeId \<in> set visited")
    case True
    have closed': "\<forall>v \<in> set visited. nb `` {v} \<subseteq> set visited \<union> set pending"
      using closed True by auto
    have pend': "set pending \<subseteq> ids" using pend by simp
    from "2.IH"(1)[OF True M pend' vis dist closed'] obtain new where
      new: "dfs nodeIdToNode successors predecessors pending visited component =
             Inr (visited @ new,
                  \<lparr> comp_nodes = comp_nodes component @ map nodeOf new,
                    comp_connections = comp_connections component @ concat (map succOf new) \<rparr>)"
        "distinct (visited @ new)" "set new \<subseteq> ids" "set pending \<subseteq> set (visited @ new)"
        "\<forall>v \<in> set (visited @ new). nb `` {v} \<subseteq> set (visited @ new)"
      by blast
    have "dfs nodeIdToNode successors predecessors (nodeId # pending) visited component =
            dfs nodeIdToNode successors predecessors pending visited component"
      using True by (simp add: dfs.simps)
    moreover have "set (nodeId # pending) \<subseteq> set (visited @ new)"
      using new(4) True by auto
    ultimately show ?thesis using new by metis
  next
    case False
    have nIds: "nodeId \<in> ids" using pend by simp
    from M nIds have s: "map_of successors nodeId = Some (succOf nodeId)"
      and n: "map_of nodeIdToNode nodeId = Some (nodeOf nodeId)"
      and nbsub: "nb \<subseteq> ids \<times> ids"
      unfolding dfsMaps_def by blast+
    from M nIds obtain ps where ps: "map_of predecessors nodeId = Some ps"
      "set (children (succOf nodeId) ps) = nb `` {nodeId}"
      unfolding dfsMaps_def by blast
    let ?pending = "map (\<lambda>connection. intf_nodeId (conn_to connection)) (succOf nodeId) @
                    map (\<lambda>connection. intf_nodeId (conn_from connection)) ps @ pending"
    let ?component = "\<lparr> comp_nodes = comp_nodes component @ [nodeOf nodeId],
                         comp_connections = comp_connections component @ succOf nodeId \<rparr>"
    have setp: "set ?pending = nb `` {nodeId} \<union> set pending"
      using ps(2) by (auto simp: children_def)
    have pend': "set ?pending \<subseteq> ids" unfolding setp using pend nbsub by auto
    have vis': "set (visited @ [nodeId]) \<subseteq> ids" using vis nIds by simp
    have dist': "distinct (visited @ [nodeId])" using dist False by simp
    have closed': "\<forall>v \<in> set (visited @ [nodeId]). nb `` {v} \<subseteq> set (visited @ [nodeId]) \<union> set ?pending"
      unfolding setp using closed by auto
    from "2.IH"(2)[OF False s n ps(1) M pend' vis' dist' closed'] obtain new where
      new: "dfs nodeIdToNode successors predecessors ?pending (visited @ [nodeId]) ?component =
             Inr ((visited @ [nodeId]) @ new,
                  \<lparr> comp_nodes = comp_nodes ?component @ map nodeOf new,
                    comp_connections = comp_connections ?component @ concat (map succOf new) \<rparr>)"
        "distinct ((visited @ [nodeId]) @ new)" "set new \<subseteq> ids"
        "set ?pending \<subseteq> set ((visited @ [nodeId]) @ new)"
        "\<forall>v \<in> set ((visited @ [nodeId]) @ new). nb `` {v} \<subseteq> set ((visited @ [nodeId]) @ new)"
      by blast
    have "dfs nodeIdToNode successors predecessors (nodeId # pending) visited component =
            dfs nodeIdToNode successors predecessors ?pending (visited @ [nodeId]) ?component"
      using False s n ps(1) by (simp add: dfs.simps)
    then have res: "dfs nodeIdToNode successors predecessors (nodeId # pending) visited component =
            Inr (visited @ (nodeId # new),
                  \<lparr> comp_nodes = comp_nodes component @ map nodeOf (nodeId # new),
                    comp_connections = comp_connections component @ concat (map succOf (nodeId # new)) \<rparr>)"
      using new(1) by simp
    have d: "distinct (visited @ (nodeId # new))" using new(2) by simp
    have i: "set (nodeId # new) \<subseteq> ids" using new(3) nIds by simp
    have p: "set (nodeId # pending) \<subseteq> set (visited @ (nodeId # new))"
      using new(4) setp by auto
    have c: "\<forall>v \<in> set (visited @ (nodeId # new)). nb `` {v} \<subseteq> set (visited @ (nodeId # new))"
      using new(5) by simp
    show ?thesis using res d i p c by blast
  qed
qed


definition componentOK ::
  "string set \<Rightarrow> (string \<times> string) set \<Rightarrow> (string \<Rightarrow> AbstractNode) \<Rightarrow> (string \<Rightarrow> IConnection list)
     \<Rightarrow> GraphComponent \<Rightarrow> bool" where
  "componentOK ids nb nodeOf succOf c \<longleftrightarrow>
     set (map node_id (comp_nodes c)) \<subseteq> ids \<and>
     comp_nodes c = map nodeOf (map node_id (comp_nodes c)) \<and>
     comp_connections c = concat (map succOf (map node_id (comp_nodes c))) \<and>
     nb `` set (map node_id (comp_nodes c)) \<subseteq> set (map node_id (comp_nodes c))"

lemma componentsLoop_correct:
  assumes M: "dfsMaps ids nb nodeOf succOf nodeIdToNode successors predecessors"
    and nodeOf: "\<forall>k \<in> ids. node_id (nodeOf k) = k"
    and sym: "sym nb"
    and "node_id ` set rest \<subseteq> ids" and "set visited \<subseteq> ids" and "distinct visited"
    and "\<forall>v \<in> set visited. nb `` {v} \<subseteq> set visited"
    and "visited = concat (map (\<lambda>c. map node_id (comp_nodes c)) components)"
    and "\<forall>c \<in> set components. componentOK ids nb nodeOf succOf c"
  shows "\<exists>components' visited'.
           componentsLoop nodeIdToNode successors predecessors rest visited components = Inr components' \<and>
           visited' = concat (map (\<lambda>c. map node_id (comp_nodes c)) components') \<and>
           (\<forall>c \<in> set components'. componentOK ids nb nodeOf succOf c) \<and>
           set visited \<union> node_id ` set rest \<subseteq> set visited' \<and> set visited' \<subseteq> ids \<and>
           distinct visited'"
  using assms(4-)
proof (induction rest arbitrary: visited components)
  case Nil
  then show ?case by simp
next
  case (Cons node rest)
  note rest = Cons.prems(1) and vis = Cons.prems(2) and dist = Cons.prems(3)
    and closed = Cons.prems(4) and cat = Cons.prems(5) and ok = Cons.prems(6)
  have rest': "node_id ` set rest \<subseteq> ids" using rest by simp
  show ?case
  proof (cases "node_id node \<in> set visited")
    case True
    from Cons.IH[OF rest' vis dist closed cat ok] obtain components' visited' where
      r: "componentsLoop nodeIdToNode successors predecessors rest visited components = Inr components'"
        "visited' = concat (map (\<lambda>c. map node_id (comp_nodes c)) components')"
        "\<forall>c \<in> set components'. componentOK ids nb nodeOf succOf c"
        "set visited \<union> node_id ` set rest \<subseteq> set visited'" "set visited' \<subseteq> ids"
        "distinct visited'"
      by blast
    have "componentsLoop nodeIdToNode successors predecessors (node # rest) visited components
            = Inr components'"
      using True r(1) by simp
    moreover have "set visited \<union> node_id ` set (node # rest) \<subseteq> set visited'"
      using r(4) True by auto
    ultimately show ?thesis using r(2,3,5,6) by blast
  next
    case False
    let ?x = "node_id node"
    have pend: "set [?x] \<subseteq> ids" using rest by simp
    have closed0: "\<forall>v \<in> set visited. nb `` {v} \<subseteq> set visited \<union> set [?x]"
      using closed by auto
    from dfs_correct[OF M pend vis dist closed0, of "\<lparr> comp_nodes = [], comp_connections = [] \<rparr>"]
    obtain new where
      d: "dfs nodeIdToNode successors predecessors [?x] visited \<lparr> comp_nodes = [], comp_connections = [] \<rparr>
            = Inr (visited @ new, \<lparr> comp_nodes = map nodeOf new,
                                  comp_connections = concat (map succOf new) \<rparr>)"
      and dn: "distinct (visited @ new)" and ni: "set new \<subseteq> ids"
      and xin: "set [?x] \<subseteq> set (visited @ new)"
      and cl: "\<forall>v \<in> set (visited @ new). nb `` {v} \<subseteq> set (visited @ new)"
      by auto
    let ?c = "\<lparr> comp_nodes = map nodeOf new, comp_connections = concat (map succOf new) \<rparr>"
    have keys: "map node_id (comp_nodes ?c) = new"
      using ni nodeOf by (simp add: map_idI subset_iff)
    have closedNew: "nb `` set new \<subseteq> set new"
    proof
      fix w assume "w \<in> nb `` set new"
      then obtain v where v: "v \<in> set new" "(v, w) \<in> nb" by auto
      then have "w \<in> set (visited @ new)" using cl by auto
      moreover have "w \<notin> set visited"
      proof
        assume w: "w \<in> set visited"
        have "(w, v) \<in> nb" using v(2) sym by (meson symD)
        then have "v \<in> set visited" using closed w by auto
        then show False using dn v(1) by auto
      qed
      ultimately show "w \<in> set new" by simp
    qed
    have okc: "componentOK ids nb nodeOf succOf ?c"
      unfolding componentOK_def keys using ni closedNew by simp
    have vis': "set (visited @ new) \<subseteq> ids" using vis ni by simp
    have cl': "\<forall>v \<in> set (visited @ new). nb `` {v} \<subseteq> set (visited @ new)" by (rule cl)
    have cat': "visited @ new = concat (map (\<lambda>c. map node_id (comp_nodes c)) (components @ [?c]))"
      using cat keys by simp
    have ok': "\<forall>c \<in> set (components @ [?c]). componentOK ids nb nodeOf succOf c"
      using ok okc by simp
    from Cons.IH[OF rest' vis' dn cl' cat' ok'] obtain components' visited' where
      r: "componentsLoop nodeIdToNode successors predecessors rest (visited @ new) (components @ [?c])
            = Inr components'"
        "visited' = concat (map (\<lambda>c. map node_id (comp_nodes c)) components')"
        "\<forall>c \<in> set components'. componentOK ids nb nodeOf succOf c"
        "set (visited @ new) \<union> node_id ` set rest \<subseteq> set visited'" "set visited' \<subseteq> ids"
        "distinct visited'"
      by blast
    have "componentsLoop nodeIdToNode successors predecessors (node # rest) visited components
            = Inr components'"
      using False d r(1) by simp
    moreover have "set visited \<union> node_id ` set (node # rest) \<subseteq> set visited'"
      using r(4) xin by auto
    ultimately show ?thesis using r(2,3,5,6) by blast
  qed
qed


lemma connection_endpoints:
  assumes wf: "wellFormed nodes connections" and cons: "nodeIdsConsistent nodes connections"
    and c: "c \<in> set connections"
  shows "map_of (fold registerInterfaces nodes []) (intf_id (conn_from c)) = Some (intf_nodeId (conn_from c))"
    and "map_of (fold registerInterfaces nodes []) (intf_id (conn_to c)) = Some (intf_nodeId (conn_to c))"
    and "\<exists>n \<in> set nodes. node_id n = intf_nodeId (conn_from c) \<and> intf_id (conn_from c) \<in> set (interfaceIds n)"
    and "\<exists>n \<in> set nodes. node_id n = intf_nodeId (conn_to c) \<and> intf_id (conn_to c) \<in> set (interfaceIds n)"
proof -
  have dp: "distinct (concat (map interfaceIds nodes))" using wf by (simp add: wellFormed_def)
  obtain n m where n: "n \<in> set nodes" "intf_id (conn_from c) \<in> set (interfaceIds n)"
    and m: "m \<in> set nodes" "intf_id (conn_to c) \<in> set (interfaceIds m)"
    using wf c by (auto simp: wellFormed_def list_all_iff)
  have nf: "intf_nodeId (conn_from c) = node_id n" and mt: "intf_nodeId (conn_to c) = node_id m"
    using cons c n m by (auto simp: nodeIdsConsistent_def list_all_iff)
  show "map_of (fold registerInterfaces nodes []) (intf_id (conn_from c)) = Some (intf_nodeId (conn_from c))"
    using interfaceIdToNodeId_owner[OF dp n] nf by simp
  show "map_of (fold registerInterfaces nodes []) (intf_id (conn_to c)) = Some (intf_nodeId (conn_to c))"
    using interfaceIdToNodeId_owner[OF dp m] mt by simp
  show "\<exists>n \<in> set nodes. node_id n = intf_nodeId (conn_from c) \<and> intf_id (conn_from c) \<in> set (interfaceIds n)"
    using n nf by auto
  show "\<exists>n \<in> set nodes. node_id n = intf_nodeId (conn_to c) \<and> intf_id (conn_to c) \<in> set (interfaceIds n)"
    using m mt by auto
qed

lemma edges_endpoints:
  assumes wf: "wellFormed nodes connections" and cons: "nodeIdsConsistent nodes connections"
  shows "set (edges nodes connections) =
           (\<lambda>c. (intf_nodeId (conn_from c), intf_nodeId (conn_to c))) ` set connections"
proof (rule set_eqI, clarify)
  fix u v
  show "(u, v) \<in> set (edges nodes connections) \<longleftrightarrow>
          (u, v) \<in> (\<lambda>c. (intf_nodeId (conn_from c), intf_nodeId (conn_to c))) ` set connections"
  proof
    assume "(u, v) \<in> set (edges nodes connections)"
    then obtain n m c where c: "c \<in> set connections" and n: "n \<in> set nodes" "u = node_id n"
        "intf_id (conn_from c) \<in> set (interfaceIds n)" and m: "m \<in> set nodes" "v = node_id m"
        "intf_id (conn_to c) \<in> set (interfaceIds m)"
      unfolding set_edges by blast
    have "intf_nodeId (conn_from c) = u" "intf_nodeId (conn_to c) = v"
      using cons c n m by (auto simp: nodeIdsConsistent_def list_all_iff)
    then show "(u, v) \<in> (\<lambda>c. (intf_nodeId (conn_from c), intf_nodeId (conn_to c))) ` set connections"
      using c by force
  next
    assume "(u, v) \<in> (\<lambda>c. (intf_nodeId (conn_from c), intf_nodeId (conn_to c))) ` set connections"
    then obtain c where c: "c \<in> set connections" "u = intf_nodeId (conn_from c)"
      "v = intf_nodeId (conn_to c)" by auto
    from connection_endpoints(3,4)[OF wf cons c(1)] obtain n m where
      "n \<in> set nodes" "node_id n = u" "intf_id (conn_from c) \<in> set (interfaceIds n)"
      "m \<in> set nodes" "node_id m = v" "intf_id (conn_to c) \<in> set (interfaceIds m)"
      unfolding c(2,3) by blast
    then have "\<exists>n m c. (u, v) = (node_id n, node_id m) \<and> c \<in> set connections \<and> n \<in> set nodes \<and>
        m \<in> set nodes \<and> intf_id (conn_from c) \<in> set (interfaceIds n) \<and>
        intf_id (conn_to c) \<in> set (interfaceIds m)"
      using c(1) by blast
    then show "(u, v) \<in> set (edges nodes connections)"
      unfolding set_edges by simp
  qed
qed

lemma dfsMaps_built:
  assumes wf: "wellFormed nodes connections" and cons: "nodeIdsConsistent nodes connections"
  defines "ifToNode \<equiv> fold registerInterfaces nodes []"
  defines "nodeIdToNode \<equiv> fold (\<lambda>node m. AList.update (node_id node) node m) nodes []"
  defines "built \<equiv> fold (addNodeLists ifToNode connections) nodes ([], [])"
  defines "E \<equiv> set (edges nodes connections)"
  shows "dfsMaps (node_id ` set nodes) (E \<union> E\<inverse>) (\<lambda>k. the (map_of nodeIdToNode k))
           (successorList ifToNode connections) nodeIdToNode (fst built) (snd built)"
    and "\<forall>k \<in> node_id ` set nodes. node_id (the (map_of nodeIdToNode k)) = k \<and>
            the (map_of nodeIdToNode k) \<in> set nodes"
proof -
  let ?ids = "node_id ` set nodes"
  let ?src = "\<lambda>c. intf_nodeId (conn_from c)"
  let ?dst = "\<lambda>c. intf_nodeId (conn_to c)"
  have E: "E = (\<lambda>c. (?src c, ?dst c)) ` set connections"
    unfolding E_def using wf cons by (rule edges_endpoints)
  have Esub: "E \<subseteq> ?ids \<times> ?ids" unfolding E_def set_edges by auto
  have from_c: "\<And>c. c \<in> set connections \<Longrightarrow> map_of ifToNode (intf_id (conn_from c)) = Some (?src c)"
    unfolding ifToNode_def using connection_endpoints(1)[OF wf cons] .
  have srcIds: "\<And>c. c \<in> set connections \<Longrightarrow> ?src c \<in> ?ids"
    using E Esub by auto
  have succ: "\<And>k. set (successorList ifToNode connections k) = {c \<in> set connections. ?src c = k}"
    using from_c by (auto simp: successorList_def)
  have a: "E \<union> E\<inverse> \<subseteq> ?ids \<times> ?ids" using Esub by auto
  have b: "\<forall>k \<in> ?ids. map_of (fst built) k = Some (successorList ifToNode connections k)"
    unfolding built_def built_successors by (simp add: fold_update_lookup)
  have node: "\<forall>k \<in> ?ids. \<exists>n. map_of nodeIdToNode k = Some n \<and> n \<in> set nodes \<and> node_id n = k"
  proof
    fix k assume "k \<in> ?ids"
    then have "map_of nodeIdToNode k \<noteq> None" unfolding nodeIdToNode_def by (rule nodeIdToNode_dom)
    then obtain n where n: "map_of nodeIdToNode k = Some n" by auto
    then have "n \<in> set nodes \<and> node_id n = k"
      unfolding nodeIdToNode_def using nodeIdToNode_lookup by fastforce
    with n show "\<exists>n. map_of nodeIdToNode k = Some n \<and> n \<in> set nodes \<and> node_id n = k" by blast
  qed
  then have c: "\<forall>k \<in> ?ids. map_of nodeIdToNode k = Some (the (map_of nodeIdToNode k))"
    by fastforce
  show "\<forall>k \<in> ?ids. node_id (the (map_of nodeIdToNode k)) = k \<and> the (map_of nodeIdToNode k) \<in> set nodes"
    using node by fastforce
  have d: "\<forall>k \<in> ?ids. \<exists>ps. map_of (snd built) k = Some ps \<and>
              set (children (successorList ifToNode connections k) ps) = (E \<union> E\<inverse>) `` {k}"
  proof
    fix k assume k: "k \<in> ?ids"
    then have "map_of (snd built) k \<noteq> None"
      unfolding built_def by (intro built_predecessors_dom) simp
    then obtain ps where ps: "map_of (snd built) k = Some ps" by auto
    have "set ps = listAt (snd built) k" using ps by (simp add: listAt_def)
    also have "\<dots> = {c. \<exists>n \<in> set nodes. c \<in> set (successorList ifToNode connections (node_id n)) \<and> ?dst c = k}"
      unfolding built_def built_predecessors_listAt by (simp add: listAt_def)
    also have "\<dots> = {c \<in> set connections. ?dst c = k}"
      unfolding succ using srcIds by auto
    finally have setps: "set ps = {c \<in> set connections. ?dst c = k}" .
    have "set (children (successorList ifToNode connections k) ps) =
            ?dst ` {c \<in> set connections. ?src c = k} \<union> ?src ` {c \<in> set connections. ?dst c = k}"
      unfolding children_def using succ setps by simp
    also have "\<dots> = (E \<union> E\<inverse>) `` {k}"
      unfolding E by force
    finally show "\<exists>ps. map_of (snd built) k = Some ps \<and>
              set (children (successorList ifToNode connections k) ps) = (E \<union> E\<inverse>) `` {k}"
      using ps by blast
  qed
  show "dfsMaps ?ids (E \<union> E\<inverse>) (\<lambda>k. the (map_of nodeIdToNode k))
           (successorList ifToNode connections) nodeIdToNode (fst built) (snd built)"
    unfolding dfsMaps_def using a b c d by blast
qed


lemma mset_filter_disjoint:
  "(\<And>x. x \<in> set xs \<Longrightarrow> \<not> (P x \<and> Q x)) \<Longrightarrow>
     mset (filter P xs) + mset (filter Q xs) = mset (filter (\<lambda>x. P x \<or> Q x) xs)"
  by (induction xs) auto

lemma mset_concat_filter:
  "distinct ks \<Longrightarrow>
     mset (concat (map (\<lambda>k. filter (\<lambda>x. f x = Some k) xs) ks))
       = mset (filter (\<lambda>x. f x \<in> Some ` set ks) xs)"
proof (induction ks)
  case Nil
  then show ?case by simp
next
  case (Cons k ks)
  have IH: "mset (concat (map (\<lambda>k. filter (\<lambda>x. f x = Some k) xs) ks))
              = mset (filter (\<lambda>x. f x \<in> Some ` set ks) xs)"
    using Cons.prems by (intro Cons.IH) simp
  have "mset (concat (map (\<lambda>k. filter (\<lambda>x. f x = Some k) xs) (k # ks)))
          = mset (filter (\<lambda>x. f x = Some k) xs) + mset (filter (\<lambda>x. f x \<in> Some ` set ks) xs)"
    unfolding IH[symmetric] by simp
  also have "\<dots> = mset (filter (\<lambda>x. f x = Some k \<or> f x \<in> Some ` set ks) xs)"
    using Cons.prems by (intro mset_filter_disjoint) auto
  also have "filter (\<lambda>x. f x = Some k \<or> f x \<in> Some ` set ks) xs
               = filter (\<lambda>x. f x \<in> Some ` set (k # ks)) xs"
    by (rule filter_cong) auto
  finally show ?case .
qed

lemma same_node:
  "distinct (map node_id nodes) \<Longrightarrow> n \<in> set nodes \<Longrightarrow> m \<in> set nodes \<Longrightarrow>
     node_id n = node_id m \<Longrightarrow> n = m"
  by (meson distinct_map inj_onD)

lemma closed_rtrancl:
  "(a, b) \<in> r\<^sup>* \<Longrightarrow> a \<in> S \<Longrightarrow> r `` S \<subseteq> S \<Longrightarrow> b \<in> S"
  by (induction rule: rtrancl_induct) auto

text \<open>
  Claim C3. For every well-formed input set of nodes and connections,
  \<^verbatim>\<open>connectedComponents\<close> returns components whose node lists are pairwise disjoint and
  whose union is the input node set; two nodes joined by a path of connections followed
  in either direction are in the same component; and each component's connection list
  holds exactly the input connections with at least one endpoint in that component.
\<close>

theorem connectedComponents_partition:
  assumes inp: "graphInput nodesOrGraph pConnections nodes connections"
    and wf: "wellFormed nodes connections"
    and cons: "nodeIdsConsistent nodes connections"
  shows "\<exists>components. connectedComponents nodesOrGraph pConnections = Inr components \<and>
           distinct (concat (map comp_nodes components)) \<and>
           set (concat (map comp_nodes components)) = set nodes \<and>
           (\<forall>c \<in> set components. \<forall>n \<in> set (comp_nodes c). \<forall>m \<in> set nodes.
              (node_id n, node_id m) \<in> (set (edges nodes connections) \<union> (set (edges nodes connections))\<inverse>)\<^sup>*
                \<longrightarrow> m \<in> set (comp_nodes c)) \<and>
           (\<forall>c \<in> set components.
              mset (comp_connections c) =
                mset (filter (\<lambda>connection. \<exists>n \<in> set (comp_nodes c).
                         intf_id (conn_from connection) \<in> set (interfaceIds n) \<or>
                         intf_id (conn_to connection) \<in> set (interfaceIds n)) connections))"
proof -
  define ifToNode where "ifToNode = fold registerInterfaces nodes []"
  define nodeIdToNode where "nodeIdToNode = fold (\<lambda>node m. AList.update (node_id node) node m) nodes []"
  define built where "built = fold (addNodeLists ifToNode connections) nodes ([], [])"
  define E where "E = set (edges nodes connections)"
  define nodeOf where "nodeOf = (\<lambda>k. the (map_of nodeIdToNode k))"
  define succOf where "succOf = successorList ifToNode connections"
  let ?ids = "node_id ` set nodes"
  let ?nb = "E \<union> E\<inverse>"
  have M: "dfsMaps ?ids ?nb nodeOf succOf nodeIdToNode (fst built) (snd built)"
    unfolding nodeOf_def succOf_def built_def ifToNode_def nodeIdToNode_def E_def
    using wf cons by (rule dfsMaps_built(1))
  have nodeOf: "\<forall>k \<in> ?ids. node_id (nodeOf k) = k \<and> nodeOf k \<in> set nodes"
    unfolding nodeOf_def nodeIdToNode_def using wf cons by (rule dfsMaps_built(2))
  then have nodeOf1: "\<forall>k \<in> ?ids. node_id (nodeOf k) = k" by blast
  have sym: "sym ?nb" by (simp add: sym_Un_converse)
  have dist: "distinct (map node_id nodes)" using wf by (simp add: wellFormed_def)
  then have inj: "inj_on node_id (set nodes)" by (simp add: distinct_map)
  have dp: "distinct (concat (map interfaceIds nodes))" using wf by (simp add: wellFormed_def)
  have "\<exists>components' visited'.
           componentsLoop nodeIdToNode (fst built) (snd built) nodes [] [] = Inr components' \<and>
           visited' = concat (map (\<lambda>c. map node_id (comp_nodes c)) components') \<and>
           (\<forall>c \<in> set components'. componentOK ?ids ?nb nodeOf succOf c) \<and>
           set [] \<union> node_id ` set nodes \<subseteq> set visited' \<and> set visited' \<subseteq> ?ids \<and>
           distinct visited'"
    using M nodeOf1 sym by (rule componentsLoop_correct) simp_all
  then obtain components where
    res: "componentsLoop nodeIdToNode (fst built) (snd built) nodes [] [] = Inr components"
    and ok: "\<forall>c \<in> set components. componentOK ?ids ?nb nodeOf succOf c"
    and all: "?ids \<subseteq> set (concat (map (\<lambda>c. map node_id (comp_nodes c)) components))"
    and sub: "set (concat (map (\<lambda>c. map node_id (comp_nodes c)) components)) \<subseteq> ?ids"
    and dv: "distinct (concat (map (\<lambda>c. map node_id (comp_nodes c)) components))"
    by auto
  let ?cat = "concat (map comp_nodes components)"
  have cat: "map node_id ?cat = concat (map (\<lambda>c. map node_id (comp_nodes c)) components)"
    by (simp add: map_concat comp_def)
  have run: "connectedComponents nodesOrGraph pConnections = Inr components"
    using res
    by (simp add: connectedComponents_def graphInput_data[OF inp] Let_def built_def ifToNode_def
          nodeIdToNode_def)
  have compNodes: "set (comp_nodes c) \<subseteq> set nodes" if "c \<in> set components" for c
  proof -
    have o: "componentOK ?ids ?nb nodeOf succOf c" using ok that by blast
    then have "comp_nodes c = map nodeOf (map node_id (comp_nodes c))"
      and "set (map node_id (comp_nodes c)) \<subseteq> ?ids"
      unfolding componentOK_def by blast+
    then have eq: "set (comp_nodes c) = nodeOf ` set (map node_id (comp_nodes c))"
      and ks: "set (map node_id (comp_nodes c)) \<subseteq> ?ids"
      by (metis set_map)+
    show ?thesis
    proof
      fix x assume "x \<in> set (comp_nodes c)"
      then obtain k where k: "k \<in> set (map node_id (comp_nodes c))" "x = nodeOf k"
        using eq by blast
      then have "k \<in> ?ids" using ks by blast
      then show "x \<in> set nodes" using nodeOf k(2) by blast
    qed
  qed
  have "distinct (map node_id ?cat)" using dv cat by simp
  then have d1: "distinct ?cat" by (rule distinct_map[THEN iffD1, THEN conjunct1])
  have s1: "set ?cat = set nodes"
  proof
    show "set ?cat \<subseteq> set nodes" using compNodes by auto
    show "set nodes \<subseteq> set ?cat"
    proof
      fix n assume n: "n \<in> set nodes"
      then have "node_id n \<in> ?ids" by simp
      then have "node_id n \<in> set (concat (map (\<lambda>c. map node_id (comp_nodes c)) components))"
        using all by blast
      then have "node_id n \<in> set (map node_id ?cat)" unfolding cat .
      then have "node_id n \<in> node_id ` set ?cat" by (simp only: set_map)
      then obtain m where m: "m \<in> set ?cat" "node_id m = node_id n" by (elim imageE) metis
      then have "m \<in> set nodes" using compNodes by auto
      then have "m = n" using n m(2) by (intro same_node[OF dist]) simp_all
      then show "n \<in> set ?cat" using m(1) by simp
    qed
  qed
  have paths: "\<forall>c \<in> set components. \<forall>n \<in> set (comp_nodes c). \<forall>m \<in> set nodes.
      (node_id n, node_id m) \<in> ?nb\<^sup>* \<longrightarrow> m \<in> set (comp_nodes c)"
  proof (intro ballI impI)
    fix c n m assume c: "c \<in> set components" and n: "n \<in> set (comp_nodes c)"
      and m: "m \<in> set nodes" and path: "(node_id n, node_id m) \<in> ?nb\<^sup>*"
    have "nb_closed": "?nb `` set (map node_id (comp_nodes c)) \<subseteq> set (map node_id (comp_nodes c))"
      using ok c unfolding componentOK_def by blast
    have "node_id n \<in> set (map node_id (comp_nodes c))" using n by simp
    from closed_rtrancl[OF path this nb_closed]
    obtain m' where m': "m' \<in> set (comp_nodes c)" "node_id m' = node_id m" by auto
    then have "m' \<in> set nodes" using compNodes[OF c] by auto
    then have "m' = m" using m m'(2) by (intro same_node[OF dist]) simp_all
    then show "m \<in> set (comp_nodes c)" using m'(1) by simp
  qed
  have conns: "\<forall>c \<in> set components.
      mset (comp_connections c) =
        mset (filter (\<lambda>connection. \<exists>n \<in> set (comp_nodes c).
                 intf_id (conn_from connection) \<in> set (interfaceIds n) \<or>
                 intf_id (conn_to connection) \<in> set (interfaceIds n)) connections)"
  proof
    fix c assume c: "c \<in> set components"
    let ?ks = "map node_id (comp_nodes c)"
    have o: "comp_connections c = concat (map succOf ?ks)" "?nb `` set ?ks \<subseteq> set ?ks"
      using ok c unfolding componentOK_def by blast+
    have "?ks \<in> set (map (\<lambda>c. map node_id (comp_nodes c)) components)" using c by simp
    with dv have "distinct ?ks" unfolding distinct_concat_iff by blast
    then have "mset (comp_connections c) =
        mset (filter (\<lambda>x. map_of ifToNode (intf_id (conn_from x)) \<in> Some ` set ?ks) connections)"
      unfolding o(1) succOf_def successorList_def by (rule mset_concat_filter)
    also have "filter (\<lambda>x. map_of ifToNode (intf_id (conn_from x)) \<in> Some ` set ?ks) connections =
        filter (\<lambda>connection. \<exists>n \<in> set (comp_nodes c).
                 intf_id (conn_from connection) \<in> set (interfaceIds n) \<or>
                 intf_id (conn_to connection) \<in> set (interfaceIds n)) connections"
    proof (rule filter_cong[OF refl])
      fix x assume x: "x \<in> set connections"
      note ep = connection_endpoints[OF wf cons x, folded ifToNode_def]
      show "(map_of ifToNode (intf_id (conn_from x)) \<in> Some ` set ?ks) \<longleftrightarrow>
            (\<exists>n \<in> set (comp_nodes c). intf_id (conn_from x) \<in> set (interfaceIds n) \<or>
                 intf_id (conn_to x) \<in> set (interfaceIds n))"
      proof
        assume "map_of ifToNode (intf_id (conn_from x)) \<in> Some ` set ?ks"
        then obtain n' where n': "n' \<in> set (comp_nodes c)" "node_id n' = intf_nodeId (conn_from x)"
          using ep(1) by auto
        from ep(3) obtain nf where nf: "nf \<in> set nodes" "node_id nf = intf_nodeId (conn_from x)"
          "intf_id (conn_from x) \<in> set (interfaceIds nf)" by blast
        have "n' \<in> set nodes" using compNodes[OF c] n'(1) by auto
        then have "n' = nf" using nf(1,2) n'(2) by (intro same_node[OF dist]) simp_all
        then show "\<exists>n \<in> set (comp_nodes c). intf_id (conn_from x) \<in> set (interfaceIds n) \<or>
                 intf_id (conn_to x) \<in> set (interfaceIds n)"
          using n'(1) nf(3) by blast
      next
        assume "\<exists>n \<in> set (comp_nodes c). intf_id (conn_from x) \<in> set (interfaceIds n) \<or>
                 intf_id (conn_to x) \<in> set (interfaceIds n)"
        then obtain n where n: "n \<in> set (comp_nodes c)"
          "intf_id (conn_from x) \<in> set (interfaceIds n) \<or> intf_id (conn_to x) \<in> set (interfaceIds n)"
          by blast
        have nn: "n \<in> set nodes" using compNodes[OF c] n(1) by auto
        have nk: "node_id n \<in> set ?ks" using n(1) by simp
        from n(2) show "map_of ifToNode (intf_id (conn_from x)) \<in> Some ` set ?ks"
        proof
          assume "intf_id (conn_from x) \<in> set (interfaceIds n)"
          then have "map_of ifToNode (intf_id (conn_from x)) = Some (node_id n)"
            unfolding ifToNode_def using interfaceIdToNodeId_owner[OF dp nn] by simp
          then show ?thesis using nk by simp
        next
          assume t: "intf_id (conn_to x) \<in> set (interfaceIds n)"
          then have "map_of ifToNode (intf_id (conn_to x)) = Some (node_id n)"
            unfolding ifToNode_def using interfaceIdToNodeId_owner[OF dp nn] by simp
          then have dst: "intf_nodeId (conn_to x) = node_id n" using ep(2) by simp
          have "(intf_nodeId (conn_from x), intf_nodeId (conn_to x)) \<in> E"
            unfolding E_def edges_endpoints[OF wf cons] using x by blast
          then have "(node_id n, intf_nodeId (conn_from x)) \<in> ?nb" using dst by auto
          then have "intf_nodeId (conn_from x) \<in> set ?ks" using o(2) nk by blast
          then show ?thesis using ep(1) by simp
        qed
      qed
    qed
    finally show "mset (comp_connections c) =
        mset (filter (\<lambda>connection. \<exists>n \<in> set (comp_nodes c).
                 intf_id (conn_from connection) \<in> set (interfaceIds n) \<or>
                 intf_id (conn_to connection) \<in> set (interfaceIds n)) connections)" .
  qed
  show ?thesis
    unfolding E_def[symmetric] using run d1 s1 paths conns
    by (intro exI[of _ components] conjI)
qed


lemma wellFormed_components_example:
  "wellFormed [testNode ''n1'', testNode ''n2'', testNode ''n3''] [conn12]"
  by (simp add: wellFormed_def interfaceIds_def testNode_def testInterface_def conn12_def
        testConnection_def)

lemma nodeIdsConsistent_example:
  "nodeIdsConsistent [testNode ''n1'', testNode ''n2'', testNode ''n3''] [conn12]"
  by (simp add: nodeIdsConsistent_def interfaceIds_def testNode_def testInterface_def conn12_def
        testConnection_def)

theorem connectedComponents_partition_witness:
  "graphInput (ANodes [testNode ''n1'', testNode ''n2'', testNode ''n3'']) (Some [conn12])
      [testNode ''n1'', testNode ''n2'', testNode ''n3''] [conn12] \<and>
   wellFormed [testNode ''n1'', testNode ''n2'', testNode ''n3''] [conn12] \<and>
   nodeIdsConsistent [testNode ''n1'', testNode ''n2'', testNode ''n3''] [conn12] \<and>
   (\<exists>components.
      connectedComponents (ANodes [testNode ''n1'', testNode ''n2'', testNode ''n3'']) (Some [conn12])
        = Inr components \<and>
      distinct (concat (map comp_nodes components)) \<and>
      set (concat (map comp_nodes components)) = set [testNode ''n1'', testNode ''n2'', testNode ''n3''] \<and>
      (\<forall>c \<in> set components. \<forall>n \<in> set (comp_nodes c).
         \<forall>m \<in> set [testNode ''n1'', testNode ''n2'', testNode ''n3''].
           (node_id n, node_id m)
             \<in> (set (edges [testNode ''n1'', testNode ''n2'', testNode ''n3''] [conn12]) \<union>
                 (set (edges [testNode ''n1'', testNode ''n2'', testNode ''n3''] [conn12]))\<inverse>)\<^sup>*
           \<longrightarrow> m \<in> set (comp_nodes c)) \<and>
      (\<forall>c \<in> set components.
         mset (comp_connections c) =
           mset (filter (\<lambda>connection. \<exists>n \<in> set (comp_nodes c).
                    intf_id (conn_from connection) \<in> set (interfaceIds n) \<or>
                    intf_id (conn_to connection) \<in> set (interfaceIds n)) [conn12])))"
proof -
  have g: "graphInput (ANodes [testNode ''n1'', testNode ''n2'', testNode ''n3'']) (Some [conn12])
      [testNode ''n1'', testNode ''n2'', testNode ''n3''] [conn12]"
    by (simp add: graphInput_def)
  show ?thesis
    using g wellFormed_components_example nodeIdsConsistent_example
      connectedComponents_partition[OF g wellFormed_components_example nodeIdsConsistent_example]
    by (intro conjI)
qed

section \<open>The engine's run\<close>

definition calculatedIds :: "event list \<Rightarrow> string list" where
  "calculatedIds evs =
     List.map_filter (\<lambda>e. case e of NodeCalculate n iv \<Rightarrow> Some (node_id n) | _ \<Rightarrow> None) evs"

definition isTransfer :: "event \<Rightarrow> bool" where
  "isTransfer e = (case e of TransferData v c \<Rightarrow> True | _ \<Rightarrow> False)"

definition nestedKeys :: "(string \<times> val) list \<Rightarrow> string set" where
  "nestedKeys outputValues =
     (case property outputValues ''_calculationResults'' of
        VResult a entries \<Rightarrow> fst ` set entries
      | _ \<Rightarrow> {})"

lemma calculatedIds_append [simp]:
  "calculatedIds (xs @ ys) = calculatedIds xs @ calculatedIds ys"
  by (simp add: calculatedIds_def List.map_filter_def)

lemma calculatedIds_simps [simp]:
  "calculatedIds [] = []"
  "calculatedIds (NodeCalculate n iv # evs) = node_id n # calculatedIds evs"
  "calculatedIds (BeforeNodeCalculation n iv # evs) = calculatedIds evs"
  "calculatedIds (AfterNodeCalculation n ov # evs) = calculatedIds evs"
  "calculatedIds (TransferData v c # evs) = calculatedIds evs"
  by (simp_all add: calculatedIds_def)

lemma calculatedIds_transfers:
  "list_all isTransfer evs \<Longrightarrow> calculatedIds evs = []"
  by (induction evs) (auto simp: isTransfer_def split: event.splits)

lemma stageValue_state:
  "run_events (snd (stageValue to v st)) = run_events st \<and>
   run_result (snd (stageValue to v st)) = run_result st"
  by (simp add: stageValue_def split: option.splits val.splits)

lemma propagateConnection_state:
  "\<exists>evs. run_events (snd (propagateConnection transferData node outputValues connection st))
            = run_events st @ evs \<and> list_all isTransfer evs \<and>
         run_result (snd (propagateConnection transferData node outputValues connection st))
            = run_result st"
proof (cases "find (\<lambda>kv. intf_id (snd kv) = intf_id (conn_from connection)) (node_outputs node)")
  case None
  then show ?thesis by (simp add: propagateConnection_def)
next
  case (Some kv)
  show ?thesis
  proof (cases "fst kv = []")
    case True
    then show ?thesis using Some by (simp add: propagateConnection_def)
  next
    case False
    then show ?thesis using Some
      by (simp add: propagateConnection_def stageValue_state emit_def isTransfer_def)
  qed
qed

lemma propagateConnections_state:
  "\<exists>evs. run_events (snd (propagateConnections transferData node outputValues connections st))
            = run_events st @ evs \<and> list_all isTransfer evs \<and>
         run_result (snd (propagateConnections transferData node outputValues connections st))
            = run_result st"
proof (induction connections arbitrary: st)
  case Nil
  then show ?case by simp
next
  case (Cons c cs)
  obtain e st1 where r: "propagateConnection transferData node outputValues c st = (e, st1)"
    by (cases "propagateConnection transferData node outputValues c st")
  from propagateConnection_state[of transferData node outputValues c st] r
  obtain evs1 where evs1: "run_events st1 = run_events st @ evs1" "list_all isTransfer evs1"
    "run_result st1 = run_result st" by auto
  show ?case
  proof (cases e)
    case (Some err)
    then show ?thesis using r evs1 by simp
  next
    case None
    from Cons.IH[of st1] obtain evs2 where
      evs2: "run_events (snd (propagateConnections transferData node outputValues cs st1))
               = run_events st1 @ evs2" "list_all isTransfer evs2"
        "run_result (snd (propagateConnections transferData node outputValues cs st1)) = run_result st1"
      by auto
    have "run_events (snd (propagateConnections transferData node outputValues (c # cs) st))
            = run_events st @ (evs1 @ evs2)"
      using r None evs1 evs2 by simp
    moreover have "list_all isTransfer (evs1 @ evs2)" using evs1 evs2 by simp
    moreover have "run_result (snd (propagateConnections transferData node outputValues (c # cs) st))
            = run_result st"
      using r None evs1 evs2 by simp
    ultimately show ?thesis by blast
  qed
qed

lemma fold_update_other:
  "k \<notin> fst ` set entries \<Longrightarrow>
     map_of (fold (\<lambda>kv res. AList.update (fst kv) (snd kv) res) entries res) k = map_of res k"
  by (induction entries arbitrary: res) (auto simp: update_conv')

lemma mergeSubgraphResult_state:
  "run_events (snd (mergeSubgraphResult outputValues st)) = run_events st \<and>
   run_inputs (snd (mergeSubgraphResult outputValues st)) = run_inputs st \<and>
   (k \<notin> nestedKeys outputValues \<longrightarrow>
      map_of (run_result (snd (mergeSubgraphResult outputValues st))) k = map_of (run_result st) k)"
  by (auto simp: mergeSubgraphResult_def nestedKeys_def fold_update_other split: val.splits)

lemma finishNode_state:
  assumes ok: "validateNodeCalculationOutput node outputValues = None"
  shows "\<exists>evs. run_events (snd (finishNode transferData connectionsFrom node inputValues outputValues st))
            = run_events st @ AfterNodeCalculation node outputValues # evs \<and> list_all isTransfer evs \<and>
         (node_id node \<notin> nestedKeys outputValues \<longrightarrow>
            map_of (run_result (snd (finishNode transferData connectionsFrom node inputValues outputValues st)))
              (node_id node) = Some (inputValues, outputValues))"
proof -
  let ?st1 = "(emit (AfterNodeCalculation node outputValues) st)
                \<lparr> run_result := AList.update (node_id node) (inputValues, outputValues) (run_result st) \<rparr>"
  obtain e st2 where m: "mergeSubgraphResult outputValues ?st1 = (e, st2)"
    by (cases "mergeSubgraphResult outputValues ?st1")
  from mergeSubgraphResult_state[of outputValues ?st1 "node_id node"] m
  have st2: "run_events st2 = run_events st @ [AfterNodeCalculation node outputValues]"
    "node_id node \<notin> nestedKeys outputValues \<longrightarrow>
       map_of (run_result st2) (node_id node) = Some (inputValues, outputValues)"
    by (auto simp: emit_def update_conv')
  show ?thesis
  proof (cases "e = None \<and> nodeMapGet connectionsFrom node \<noteq> None")
    case False
    then have "finishNode transferData connectionsFrom node inputValues outputValues st = (e, st2)"
      using ok m by (auto simp: finishNode_def split: option.splits)
    then show ?thesis using st2 by simp
  next
    case True
    then obtain connections where c: "nodeMapGet connectionsFrom node = Some connections" by auto
    then have f: "finishNode transferData connectionsFrom node inputValues outputValues st
            = propagateConnections transferData node outputValues connections st2"
      using ok m True by (simp add: finishNode_def)
    from propagateConnections_state[of transferData node outputValues connections st2]
    obtain evs where "run_events (snd (propagateConnections transferData node outputValues connections st2))
            = run_events st2 @ evs" "list_all isTransfer evs"
         "run_result (snd (propagateConnections transferData node outputValues connections st2))
            = run_result st2" by auto
    then show ?thesis unfolding f using st2 by simp
  qed
qed

lemma validate_currentOutputValues:
  "validateNodeCalculationOutput node (currentOutputValues node) = None"
  by (auto simp: validateNodeCalculationOutput_def currentOutputValues_def list_all_iff image_iff)

lemma shouldCalculate_iff:
  "shouldCalculate updatedNode node (inputsChanged inputs node) \<longleftrightarrow>
     updatedNode = None \<or> (\<exists>u. updatedNode = Some u \<and> node_id node = node_id u) \<or>
     node_alwaysRecalculate node \<or>
     (\<exists>kv \<in> set (node_inputs node). inputChanged node (snd kv) (resolveInput inputs (snd kv)))"
  by (cases updatedNode) (auto simp: shouldCalculate_def inputsChanged_def filter_empty_conv)

lemma calculateNode_trace:
  assumes calc: "node_calculate node = Some calculate"
    and run: "calculateNode transferData calculationData updatedNode connectionsFrom node st = (err, st')"
  shows "if shouldCalculate updatedNode node (inputsChanged (run_inputs st) node)
         then \<exists>evs. drop (length (run_events st)) (run_events st') =
                 BeforeNodeCalculation node (resolveInputs (run_inputs st) node) #
                 NodeCalculate node (resolveInputs (run_inputs st) node) # evs
         else \<exists>evs. drop (length (run_events st)) (run_events st') =
                 BeforeNodeCalculation node (resolveInputs (run_inputs st) node) #
                 AfterNodeCalculation node (currentOutputValues node) # evs \<and>
                 list_all isTransfer evs \<and>
                 (node_id node \<notin> nestedKeys (currentOutputValues node) \<longrightarrow>
                    map_of (run_result st') (node_id node)
                      = Some (resolveInputs (run_inputs st) node, currentOutputValues node))"
proof -
  let ?iv = "resolveInputs (run_inputs st) node"
  let ?st1 = "emit (BeforeNodeCalculation node ?iv) st"
  let ?cond = "shouldCalculate updatedNode node (inputsChanged (run_inputs st) node)"
  let ?new = "drop (length (run_events st)) (run_events st')"
  show ?thesis
  proof (cases ?cond)
    case True
    let ?st2 = "emit (NodeCalculate node ?iv) ?st1"
    have "\<exists>evs. run_events st' = run_events st @ BeforeNodeCalculation node ?iv # NodeCalculate node ?iv # evs"
    proof (cases "calculate ?iv calculationData")
      case (Inl e)
      then have "st' = ?st2" using run calc True by (simp add: calculateNode_def Let_def)
      then show ?thesis by (simp add: emit_def)
    next
      case (Inr outputValues)
      then have r: "finishNode transferData connectionsFrom node ?iv outputValues ?st2 = (err, st')"
        using run calc True by (simp add: calculateNode_def Let_def)
      show ?thesis
      proof (cases "validateNodeCalculationOutput node outputValues")
        case None
        from finishNode_state[OF None, of transferData connectionsFrom ?iv ?st2] r
        show ?thesis by (auto simp: emit_def)
      next
        case (Some e)
        then have "st' = ?st2" using r by (simp add: finishNode_def)
        then show ?thesis by (simp add: emit_def)
      qed
    qed
    then have "\<exists>evs. ?new = BeforeNodeCalculation node ?iv # NodeCalculate node ?iv # evs"
      by auto
    then show ?thesis using True by simp
  next
    case False
    then have r: "finishNode transferData connectionsFrom node ?iv (currentOutputValues node) ?st1
                    = (err, st')"
      using run calc by (simp add: calculateNode_def Let_def)
    from finishNode_state[OF validate_currentOutputValues, of transferData connectionsFrom node ?iv ?st1] r
    obtain evs where evs: "run_events st' = run_events ?st1 @ AfterNodeCalculation node (currentOutputValues node) # evs"
      "list_all isTransfer evs"
      "node_id node \<notin> nestedKeys (currentOutputValues node) \<longrightarrow>
         map_of (run_result st') (node_id node) = Some (?iv, currentOutputValues node)"
      by auto
    have new: "?new = BeforeNodeCalculation node ?iv # AfterNodeCalculation node (currentOutputValues node) # evs"
      using evs(1) by (simp add: emit_def)
    show ?thesis using False new evs(2,3) by simp
  qed
qed

text \<open>Structural equality of values: equality once the object identities are erased.\<close>

primrec stripIds :: "val \<Rightarrow> val" where
  "stripIds VUndefined = VUndefined"
| "stripIds (VBool b) = VBool b"
| "stripIds (VNum n) = VNum n"
| "stripIds (VStr s) = VStr s"
| "stripIds (VArr a xs) = VArr 0 (map stripIds xs)"
| "stripIds (VResult a entries) =
     VResult 0 (map (map_prod id (map_prod (map (map_prod id stripIds)) (map (map_prod id stripIds)))) entries)"

definition valueEquals :: "val \<Rightarrow> val \<Rightarrow> bool" where
  "valueEquals v w \<longleftrightarrow> stripIds v = stripIds w"

text \<open>
  The graph of the test ``should not recalculate node if inputs weren't changed'' after
  its first run has been applied: \<^verbatim>\<open>n1.c\<close> is connected to \<^verbatim>\<open>n2.a\<close>.
\<close>

definition appliedNode1 :: AbstractNode where
  "appliedNode1 =
     (testNode ''n1'')\<lparr> node_outputs := [(''c'', testInterface ''n1'' ''c'' (VNum 2)),
                                           (''d'', testInterface ''n1'' ''d'' (VNum 0))] \<rparr>"

definition appliedNode2 :: AbstractNode where
  "appliedNode2 =
     (testNode ''n2'')\<lparr> node_inputs := [(''a'', (testInterface ''n2'' ''a'' (VNum 2))\<lparr> intf_connectionCount := 1 \<rparr>),
                                          (''b'', testInterface ''n2'' ''b'' (VNum 1))],
                        node_outputs := [(''c'', testInterface ''n2'' ''c'' (VNum 3)),
                                         (''d'', testInterface ''n2'' ''d'' (VNum 1))] \<rparr>"

definition appliedGraph :: Graph where
  "appliedGraph = \<lparr> graph_id = ''g'', graph_nodes = [appliedNode1, appliedNode2],
                    graph_connections = [conn12] \<rparr>"

definition testEngine :: "AbstractNode option \<Rightarrow> DependencyEngine" where
  "testEngine updatedNode =
     \<lparr> engine_order = [], engine_updatedNode = updatedNode, engine_recalculateOrder = True,
       engine_transferData = (\<lambda>v connection. v) \<rparr>"

text \<open>
  Claim C8, as stated, fails: a node without \<^verbatim>\<open>isInterfaceEqualTo\<close> compares with
  \<^verbatim>\<open>!==\<close>. Here the resolved input is an array with the elements of the stored one but
  another identity: it counts as changed, and the node is recalculated.
\<close>

definition arrayNode :: AbstractNode where
  "arrayNode =
     \<lparr> node_id = ''n'',
       node_inputs = [(''a'', testInterface ''n'' ''a'' (VArr 1 [VNum 1]))],
       node_outputs = [],
       node_calculate = Some (\<lambda>inputValues globalValues. Inr []),
       node_alwaysRecalculate = False,
       node_isInterfaceEqualTo = None \<rparr>"

definition arrayRun :: RunState where
  "arrayRun = \<lparr> run_inputs = [(''n.a'', VArr 2 [VNum 1])], run_result = [], run_events = [],
                run_nextId = 3 \<rparr>"

theorem reference_equality_counterexample:
  "node_isInterfaceEqualTo arrayNode = None \<and>
   list_all (\<lambda>kv. valueEquals (resolveInput (run_inputs arrayRun) (snd kv)) (intf_value (snd kv)))
     (node_inputs arrayNode) \<and>
   map snd (inputsChanged (run_inputs arrayRun) arrayNode) = [True] \<and>
   calculatedIds (run_events (snd (calculateNode (\<lambda>v c. v) VUndefined (Some (testNode ''n1'')) []
                                      arrayNode arrayRun))) = [''n'']"
proof -
  have "node_isInterfaceEqualTo arrayNode = None" by (simp add: arrayNode_def)
  moreover have "list_all (\<lambda>kv. valueEquals (resolveInput (run_inputs arrayRun) (snd kv)) (intf_value (snd kv)))
     (node_inputs arrayNode)"
    by (simp add: arrayNode_def arrayRun_def valueEquals_def resolveInput_def testInterface_def)
  moreover have "map snd (inputsChanged (run_inputs arrayRun) arrayNode) = [True]"
    by (simp add: arrayNode_def arrayRun_def inputsChanged_def inputChanged_def resolveInput_def
          testInterface_def)
  moreover have "calculatedIds (run_events (snd (calculateNode (\<lambda>v c. v) VUndefined
      (Some (testNode ''n1'')) [] arrayNode arrayRun))) = [''n'']"
    by code_simp
  ultimately show ?thesis by (intro conjI)
qed

text \<open>
  Claim C8, amended. For every visited node, input-change detection compares each
  resolved input value with the port's stored value through the node's own
  \<^verbatim>\<open>isInterfaceEqualTo\<close> predicate when the node defines one (so a node can ask for
  structural equality); a node without it is compared with \<^verbatim>\<open>!==\<close>, which compares
  objects by reference.
\<close>

theorem inputsChanged_comparison:
  assumes calc: "node_calculate node = Some calculate"
    and run: "calculateNode transferData calculationData (Some u) connectionsFrom node st = (err, st')"
    and other: "node_id node \<noteq> node_id u"
    and flag: "\<not> node_alwaysRecalculate node"
  shows "map fst (inputsChanged (run_inputs st) node) = map fst (node_inputs node) \<and>
   (\<forall>isEqual. node_isInterfaceEqualTo node = Some isEqual \<longrightarrow>
      map snd (inputsChanged (run_inputs st) node)
        = map (\<lambda>kv. \<not> isEqual (snd kv) (resolveInput (run_inputs st) (snd kv))) (node_inputs node)) \<and>
   (node_isInterfaceEqualTo node = None \<longrightarrow>
      map snd (inputsChanged (run_inputs st) node)
        = map (\<lambda>kv. \<not> strictEquals (resolveInput (run_inputs st) (snd kv)) (intf_value (snd kv)))
            (node_inputs node)) \<and>
   (\<forall>a xs b ys. strictEquals (VArr a xs) (VArr b ys) = (a = b)) \<and>
   (node_id node \<in> set (calculatedIds (drop (length (run_events st)) (run_events st'))) \<longleftrightarrow>
      True \<in> set (map snd (inputsChanged (run_inputs st) node)))"
proof -
  have flags: "map fst (inputsChanged (run_inputs st) node) = map fst (node_inputs node) \<and>
   (\<forall>isEqual. node_isInterfaceEqualTo node = Some isEqual \<longrightarrow>
      map snd (inputsChanged (run_inputs st) node)
        = map (\<lambda>kv. \<not> isEqual (snd kv) (resolveInput (run_inputs st) (snd kv))) (node_inputs node)) \<and>
   (node_isInterfaceEqualTo node = None \<longrightarrow>
      map snd (inputsChanged (run_inputs st) node)
        = map (\<lambda>kv. \<not> strictEquals (resolveInput (run_inputs st) (snd kv)) (intf_value (snd kv)))
            (node_inputs node)) \<and>
   (\<forall>a xs b ys. strictEquals (VArr a xs) (VArr b ys) = (a = b))"
    by (simp add: inputsChanged_def inputChanged_def comp_def)
  have cond: "shouldCalculate (Some u) node (inputsChanged (run_inputs st) node) \<longleftrightarrow>
                True \<in> set (map snd (inputsChanged (run_inputs st) node))"
    using other flag by (auto simp: shouldCalculate_def filter_empty_conv)
  have "node_id node \<in> set (calculatedIds (drop (length (run_events st)) (run_events st'))) \<longleftrightarrow>
      True \<in> set (map snd (inputsChanged (run_inputs st) node))"
  proof (cases "shouldCalculate (Some u) node (inputsChanged (run_inputs st) node)")
    case True
    with calculateNode_trace[OF calc run]
    have "node_id node \<in> set (calculatedIds (drop (length (run_events st)) (run_events st')))"
      by auto
    then show ?thesis using True cond by simp
  next
    case False
    with calculateNode_trace[OF calc run] obtain evs where
      new: "drop (length (run_events st)) (run_events st') =
              BeforeNodeCalculation node (resolveInputs (run_inputs st) node) #
              AfterNodeCalculation node (currentOutputValues node) # evs"
      and tr: "list_all isTransfer evs"
      by auto
    have "calculatedIds (drop (length (run_events st)) (run_events st')) = []"
      unfolding new using calculatedIds_transfers[OF tr] by simp
    then show ?thesis using False cond by simp
  qed
  with flags show ?thesis by blast
qed

definition structuralNode :: AbstractNode where
  "structuralNode =
     arrayNode\<lparr> node_isInterfaceEqualTo := Some (\<lambda>intf v. valueEquals v (intf_value intf)) \<rparr>"

theorem inputsChanged_comparison_witness:
  "node_calculate arrayNode = Some (\<lambda>inputValues globalValues. Inr []) \<and>
   calculateNode (\<lambda>v c. v) VUndefined (Some (testNode ''n1'')) [] arrayNode arrayRun
     = (None, snd (calculateNode (\<lambda>v c. v) VUndefined (Some (testNode ''n1'')) [] arrayNode arrayRun)) \<and>
   node_id arrayNode \<noteq> node_id (testNode ''n1'') \<and>
   \<not> node_alwaysRecalculate arrayNode \<and>
   node_isInterfaceEqualTo arrayNode = None \<and>
   map snd (inputsChanged (run_inputs arrayRun) arrayNode)
     = map (\<lambda>kv. \<not> strictEquals (resolveInput (run_inputs arrayRun) (snd kv)) (intf_value (snd kv)))
         (node_inputs arrayNode) \<and>
   node_id arrayNode \<in> set (calculatedIds (drop (length (run_events arrayRun))
      (run_events (snd (calculateNode (\<lambda>v c. v) VUndefined (Some (testNode ''n1'')) [] arrayNode arrayRun))))) \<and>
   node_calculate structuralNode = Some (\<lambda>inputValues globalValues. Inr []) \<and>
   calculateNode (\<lambda>v c. v) VUndefined (Some (testNode ''n1'')) [] structuralNode arrayRun
     = (None, snd (calculateNode (\<lambda>v c. v) VUndefined (Some (testNode ''n1'')) [] structuralNode arrayRun)) \<and>
   node_id structuralNode \<noteq> node_id (testNode ''n1'') \<and>
   \<not> node_alwaysRecalculate structuralNode \<and>
   node_isInterfaceEqualTo structuralNode = Some (\<lambda>intf v. valueEquals v (intf_value intf)) \<and>
   map snd (inputsChanged (run_inputs arrayRun) structuralNode)
     = map (\<lambda>kv. \<not> valueEquals (resolveInput (run_inputs arrayRun) (snd kv)) (intf_value (snd kv)))
         (node_inputs structuralNode) \<and>
   node_id structuralNode \<notin> set (calculatedIds (drop (length (run_events arrayRun))
      (run_events (snd (calculateNode (\<lambda>v c. v) VUndefined (Some (testNode ''n1'')) [] structuralNode arrayRun)))))"
proof -
  have c1: "node_calculate arrayNode = Some (\<lambda>inputValues globalValues. Inr [])"
    by (simp add: arrayNode_def)
  have "fst (calculateNode (\<lambda>v c. v) VUndefined (Some (testNode ''n1'')) [] arrayNode arrayRun) = None"
    by code_simp
  then have r1: "calculateNode (\<lambda>v c. v) VUndefined (Some (testNode ''n1'')) [] arrayNode arrayRun
     = (None, snd (calculateNode (\<lambda>v c. v) VUndefined (Some (testNode ''n1'')) [] arrayNode arrayRun))"
    by (metis prod.collapse)
  have o1: "node_id arrayNode \<noteq> node_id (testNode ''n1'')" by (simp add: arrayNode_def testNode_def)
  have f1: "\<not> node_alwaysRecalculate arrayNode" by (simp add: arrayNode_def)
  have n1: "node_isInterfaceEqualTo arrayNode = None" by (simp add: arrayNode_def)
  have t1: "True \<in> set (map snd (inputsChanged (run_inputs arrayRun) arrayNode))"
    by (simp add: arrayNode_def arrayRun_def inputsChanged_def inputChanged_def resolveInput_def
          testInterface_def)
  have c2: "node_calculate structuralNode = Some (\<lambda>inputValues globalValues. Inr [])"
    by (simp add: structuralNode_def arrayNode_def)
  have "fst (calculateNode (\<lambda>v c. v) VUndefined (Some (testNode ''n1'')) [] structuralNode arrayRun) = None"
    by (simp add: calculateNode_def structuralNode_def arrayNode_def arrayRun_def Let_def
          shouldCalculate_def inputsChanged_def inputChanged_def resolveInput_def resolveInputs_def
          testInterface_def testNode_def valueEquals_def finishNode_def
          validateNodeCalculationOutput_def currentOutputValues_def mergeSubgraphResult_def
          property_def emit_def nodeMapGet_def)
  then have r2: "calculateNode (\<lambda>v c. v) VUndefined (Some (testNode ''n1'')) [] structuralNode arrayRun
     = (None, snd (calculateNode (\<lambda>v c. v) VUndefined (Some (testNode ''n1'')) [] structuralNode arrayRun))"
    by (metis prod.collapse)
  have o2: "node_id structuralNode \<noteq> node_id (testNode ''n1'')"
    by (simp add: structuralNode_def arrayNode_def testNode_def)
  have f2: "\<not> node_alwaysRecalculate structuralNode" by (simp add: structuralNode_def arrayNode_def)
  have s2: "node_isInterfaceEqualTo structuralNode = Some (\<lambda>intf v. valueEquals v (intf_value intf))"
    by (simp add: structuralNode_def)
  have t2: "True \<notin> set (map snd (inputsChanged (run_inputs arrayRun) structuralNode))"
    by (simp add: structuralNode_def arrayNode_def arrayRun_def inputsChanged_def inputChanged_def
          resolveInput_def testInterface_def valueEquals_def)
  note w1 = inputsChanged_comparison[OF c1 r1 o1 f1]
  note w2 = inputsChanged_comparison[OF c2 r2 o2 f2]
  have a1: "map snd (inputsChanged (run_inputs arrayRun) arrayNode)
     = map (\<lambda>kv. \<not> strictEquals (resolveInput (run_inputs arrayRun) (snd kv)) (intf_value (snd kv)))
         (node_inputs arrayNode)"
    using w1 n1 by blast
  have a2: "node_id arrayNode \<in> set (calculatedIds (drop (length (run_events arrayRun))
      (run_events (snd (calculateNode (\<lambda>v c. v) VUndefined (Some (testNode ''n1'')) [] arrayNode arrayRun)))))"
    using w1 t1 by blast
  have b1: "map snd (inputsChanged (run_inputs arrayRun) structuralNode)
     = map (\<lambda>kv. \<not> valueEquals (resolveInput (run_inputs arrayRun) (snd kv)) (intf_value (snd kv)))
         (node_inputs structuralNode)"
    using w2 s2 by blast
  have b2: "node_id structuralNode \<notin> set (calculatedIds (drop (length (run_events arrayRun))
      (run_events (snd (calculateNode (\<lambda>v c. v) VUndefined (Some (testNode ''n1'')) [] structuralNode arrayRun)))))"
    using w2 t2 by blast
  show ?thesis
    using c1 r1 o1 f1 n1 a1 a2 c2 r2 o2 f2 s2 b1 b2 by (intro conjI)
qed


section \<open>The trace of a run\<close>

text \<open>
  The \<^verbatim>\<open>inputs\<close> map of a run changes only where a value is staged, right after a call of
  the \<^verbatim>\<open>transferData\<close> hook. \<open>stagedInputs\<close> gives the map as it stands after a prefix of
  the trace: the run's initial map with the values of the prefix's hook calls staged in
  their order.
\<close>

definition stageEvent :: "(val \<Rightarrow> IConnection \<Rightarrow> val) \<Rightarrow> event \<Rightarrow> RunState \<Rightarrow> RunState" where
  "stageEvent transferData e st =
     (case e of
        TransferData v connection \<Rightarrow> snd (stageValue (conn_to connection) (transferData v connection) st)
      | _ \<Rightarrow> st)"

definition stagedInputs ::
  "(val \<Rightarrow> IConnection \<Rightarrow> val) \<Rightarrow> (string \<times> val) list \<Rightarrow> nat \<Rightarrow> event list \<Rightarrow> (string \<times> val) list" where
  "stagedInputs transferData inputs nextId evs =
     run_inputs (fold (stageEvent transferData) evs
       \<lparr> run_inputs = inputs, run_result = [], run_events = [], run_nextId = nextId \<rparr>)"

definition staging :: "RunState \<Rightarrow> (string \<times> val) list \<times> nat" where
  "staging st = (run_inputs st, run_nextId st)"

definition mergedResult :: "(string \<times> val) list \<Rightarrow> CalculationResult \<Rightarrow> CalculationResult" where
  "mergedResult outputValues res =
     (case property outputValues ''_calculationResults'' of
        VResult a entries \<Rightarrow> fold (\<lambda>kv res. AList.update (fst kv) (snd kv) res) entries res
      | _ \<Rightarrow> res)"

definition resultStep ::
  "event \<Rightarrow> (string \<times> val) list \<times> CalculationResult \<Rightarrow> (string \<times> val) list \<times> CalculationResult" where
  "resultStep e acc =
     (case e of
        BeforeNodeCalculation n inputValues \<Rightarrow> (inputValues, snd acc)
      | AfterNodeCalculation n outputValues \<Rightarrow>
          (fst acc, mergedResult outputValues (AList.update (node_id n) (fst acc, outputValues) (snd acc)))
      | _ \<Rightarrow> acc)"

definition isQuiet :: "event \<Rightarrow> bool" where
  "isQuiet e = (case e of BeforeNodeCalculation n iv \<Rightarrow> False | NodeCalculate n iv \<Rightarrow> False | _ \<Rightarrow> True)"

definition eventNodes :: "event list \<Rightarrow> AbstractNode list" where
  "eventNodes evs =
     List.map_filter (\<lambda>e. case e of
         BeforeNodeCalculation n iv \<Rightarrow> Some n
       | NodeCalculate n iv \<Rightarrow> Some n
       | AfterNodeCalculation n ov \<Rightarrow> Some n
       | TransferData v c \<Rightarrow> None) evs"

lemma staging_simps [simp]:
  "staging (emit e st) = staging st"
  "staging (st\<lparr> run_result := r \<rparr>) = staging st"
  "staging (st\<lparr> run_events := evs \<rparr>) = staging st"
  by (simp_all add: staging_def emit_def)

lemma stageValue_staging:
  "staging st1 = staging st2 \<Longrightarrow>
     staging (snd (stageValue to v st1)) = staging (snd (stageValue to v st2))"
  by (simp add: staging_def stageValue_def split: option.splits val.splits)

lemma stageEvent_staging:
  "staging st1 = staging st2 \<Longrightarrow>
     staging (stageEvent transferData e st1) = staging (stageEvent transferData e st2)"
  by (cases e) (auto simp: stageEvent_def intro: stageValue_staging)

lemma fold_stageEvent_staging:
  "staging st1 = staging st2 \<Longrightarrow>
     staging (fold (stageEvent transferData) evs st1) = staging (fold (stageEvent transferData) evs st2)"
proof (induction evs arbitrary: st1 st2)
  case Nil
  then show ?case by simp
next
  case (Cons e evs)
  have "staging (stageEvent transferData e st1) = staging (stageEvent transferData e st2)"
    using Cons.prems by (rule stageEvent_staging)
  then have "staging (fold (stageEvent transferData) evs (stageEvent transferData e st1))
               = staging (fold (stageEvent transferData) evs (stageEvent transferData e st2))"
    by (rule Cons.IH)
  then show ?case by simp
qed

lemma isTransfer_quiet: "list_all isTransfer evs \<Longrightarrow> list_all isQuiet evs"
  by (induction evs) (auto simp: isTransfer_def isQuiet_def split: event.splits)

lemma eventNodes_append [simp]: "eventNodes (xs @ ys) = eventNodes xs @ eventNodes ys"
  by (simp add: eventNodes_def List.map_filter_def)

lemma eventNodes_transfers: "list_all isTransfer evs \<Longrightarrow> eventNodes evs = []"
  by (induction evs) (auto simp: isTransfer_def eventNodes_def List.map_filter_def split: event.splits)

lemma eventNodes_simps [simp]:
  "eventNodes [] = []"
  "eventNodes (BeforeNodeCalculation n iv # evs) = n # eventNodes evs"
  "eventNodes (NodeCalculate n iv # evs) = n # eventNodes evs"
  "eventNodes (AfterNodeCalculation n ov # evs) = n # eventNodes evs"
  "eventNodes (TransferData v c # evs) = eventNodes evs"
  by (simp_all add: eventNodes_def List.map_filter_def)

lemma resultStep_transfers:
  "list_all isTransfer evs \<Longrightarrow> fold resultStep evs acc = acc"
  by (induction evs arbitrary: acc) (auto simp: isTransfer_def resultStep_def split: event.splits)

lemma stageEvent_simps [simp]:
  "stageEvent transferData (BeforeNodeCalculation n iv) st = st"
  "stageEvent transferData (NodeCalculate n iv) st = st"
  "stageEvent transferData (AfterNodeCalculation n ov) st = st"
  "stageEvent transferData (TransferData v c) st = snd (stageValue (conn_to c) (transferData v c) st)"
  by (simp_all add: stageEvent_def)

lemma stageValue_result:
  "run_events (snd (stageValue to v st)) = run_events st \<and>
   run_result (snd (stageValue to v st)) = run_result st"
  by (simp add: stageValue_def split: option.splits val.splits)

lemma propagateConnection_block:
  "\<exists>evs. run_events (snd (propagateConnection transferData node outputValues connection st))
            = run_events st @ evs \<and> list_all isTransfer evs \<and>
         run_result (snd (propagateConnection transferData node outputValues connection st))
            = run_result st \<and>
         staging (snd (propagateConnection transferData node outputValues connection st))
            = staging (fold (stageEvent transferData) evs st)"
proof (cases "find (\<lambda>kv. intf_id (snd kv) = intf_id (conn_from connection)) (node_outputs node)")
  case None
  then have "snd (propagateConnection transferData node outputValues connection st) = st"
    by (simp add: propagateConnection_def)
  then show ?thesis by (intro exI[of _ "[]"]) simp
next
  case (Some kv)
  show ?thesis
  proof (cases "fst kv = []")
    case True
    then have "snd (propagateConnection transferData node outputValues connection st) = st"
      using Some by (simp add: propagateConnection_def)
    then show ?thesis by (intro exI[of _ "[]"]) simp
  next
    case False
    let ?v = "property outputValues (fst kv)"
    have p: "propagateConnection transferData node outputValues connection st
               = stageValue (conn_to connection) (transferData ?v connection)
                   (emit (TransferData ?v connection) st)"
      using Some False by (simp add: propagateConnection_def)
    have "staging (snd (stageValue (conn_to connection) (transferData ?v connection)
                          (emit (TransferData ?v connection) st)))
            = staging (snd (stageValue (conn_to connection) (transferData ?v connection) st))"
      by (rule stageValue_staging) simp
    then show ?thesis unfolding p
      by (intro exI[of _ "[TransferData ?v connection]"])
         (simp add: stageValue_result emit_def isTransfer_def)
  qed
qed

lemma propagateConnections_block:
  "\<exists>evs. run_events (snd (propagateConnections transferData node outputValues connections st))
            = run_events st @ evs \<and> list_all isTransfer evs \<and>
         run_result (snd (propagateConnections transferData node outputValues connections st))
            = run_result st \<and>
         staging (snd (propagateConnections transferData node outputValues connections st))
            = staging (fold (stageEvent transferData) evs st)"
proof (induction connections arbitrary: st)
  case Nil
  show ?case by (intro exI[of _ "[]"]) simp
next
  case (Cons c cs)
  obtain e st1 where r: "propagateConnection transferData node outputValues c st = (e, st1)"
    by (cases "propagateConnection transferData node outputValues c st")
  from propagateConnection_block[of transferData node outputValues c st] r
  obtain evs1 where evs1: "run_events st1 = run_events st @ evs1" "list_all isTransfer evs1"
    "run_result st1 = run_result st" "staging st1 = staging (fold (stageEvent transferData) evs1 st)"
    by auto
  show ?case
  proof (cases e)
    case (Some err)
    then have "snd (propagateConnections transferData node outputValues (c # cs) st) = st1"
      using r by simp
    then show ?thesis using evs1 by (intro exI[of _ evs1]) simp
  next
    case None
    then have s: "propagateConnections transferData node outputValues (c # cs) st
                    = propagateConnections transferData node outputValues cs st1"
      using r by simp
    from Cons.IH[of st1] obtain evs2 where
      evs2: "run_events (snd (propagateConnections transferData node outputValues cs st1))
               = run_events st1 @ evs2" "list_all isTransfer evs2"
        "run_result (snd (propagateConnections transferData node outputValues cs st1)) = run_result st1"
        "staging (snd (propagateConnections transferData node outputValues cs st1))
           = staging (fold (stageEvent transferData) evs2 st1)"
      by auto
    have "staging (fold (stageEvent transferData) evs2 st1)
            = staging (fold (stageEvent transferData) evs2 (fold (stageEvent transferData) evs1 st))"
      using evs1(4) by (rule fold_stageEvent_staging)
    then show ?thesis unfolding s using evs1 evs2
      by (intro exI[of _ "evs1 @ evs2"]) simp
  qed
qed

lemma mergeSubgraphResult_block:
  "run_events (snd (mergeSubgraphResult outputValues st)) = run_events st \<and>
   staging (snd (mergeSubgraphResult outputValues st)) = staging st \<and>
   run_result (snd (mergeSubgraphResult outputValues st)) = mergedResult outputValues (run_result st)"
  by (simp add: mergeSubgraphResult_def mergedResult_def staging_def split: val.splits)

lemma finishNode_block:
  assumes ok: "validateNodeCalculationOutput node outputValues = None"
  shows "\<exists>transfers. run_events (snd (finishNode transferData connectionsFrom node inputValues outputValues st))
            = run_events st @ AfterNodeCalculation node outputValues # transfers \<and>
         list_all isTransfer transfers \<and>
         staging (snd (finishNode transferData connectionsFrom node inputValues outputValues st))
            = staging (fold (stageEvent transferData) transfers st) \<and>
         run_result (snd (finishNode transferData connectionsFrom node inputValues outputValues st))
            = mergedResult outputValues
                (AList.update (node_id node) (inputValues, outputValues) (run_result st))"
proof -
  let ?st1 = "(emit (AfterNodeCalculation node outputValues) st)
                \<lparr> run_result := AList.update (node_id node) (inputValues, outputValues) (run_result st) \<rparr>"
  obtain e st2 where m: "mergeSubgraphResult outputValues ?st1 = (e, st2)"
    by (cases "mergeSubgraphResult outputValues ?st1")
  from mergeSubgraphResult_block[of outputValues ?st1] m
  have st2: "run_events st2 = run_events st @ [AfterNodeCalculation node outputValues]"
    "staging st2 = staging st"
    "run_result st2 = mergedResult outputValues
                (AList.update (node_id node) (inputValues, outputValues) (run_result st))"
    by (simp_all add: emit_def)
  show ?thesis
  proof (cases "e = None \<and> nodeMapGet connectionsFrom node \<noteq> None")
    case False
    then have "finishNode transferData connectionsFrom node inputValues outputValues st = (e, st2)"
      using ok m by (auto simp: finishNode_def split: option.splits)
    then show ?thesis using st2 by (intro exI[of _ "[]"]) simp
  next
    case True
    then obtain connections where c: "nodeMapGet connectionsFrom node = Some connections" by auto
    then have f: "finishNode transferData connectionsFrom node inputValues outputValues st
            = propagateConnections transferData node outputValues connections st2"
      using ok m True by (simp add: finishNode_def)
    from propagateConnections_block[of transferData node outputValues connections st2]
    obtain evs where evs: "run_events (snd (propagateConnections transferData node outputValues connections st2))
            = run_events st2 @ evs" "list_all isTransfer evs"
         "run_result (snd (propagateConnections transferData node outputValues connections st2))
            = run_result st2"
         "staging (snd (propagateConnections transferData node outputValues connections st2))
            = staging (fold (stageEvent transferData) evs st2)" by auto
    have "staging (fold (stageEvent transferData) evs st2) = staging (fold (stageEvent transferData) evs st)"
      using st2(2) by (rule fold_stageEvent_staging)
    then show ?thesis unfolding f using st2 evs by (intro exI[of _ evs]) simp
  qed
qed

text \<open>What one pass of the loop body adds to the run state.\<close>

lemma calculateNode_block:
  assumes calc: "node_calculate node = Some calculate"
    and run: "calculateNode transferData calculationData updatedNode connectionsFrom node st = (err, st')"
  shows "\<exists>block rest. run_events st' = run_events st @
                  BeforeNodeCalculation node (resolveInputs (run_inputs st) node) # block \<and>
           block = (if shouldCalculate updatedNode node (inputsChanged (run_inputs st) node)
                    then NodeCalculate node (resolveInputs (run_inputs st) node) # rest
                    else AfterNodeCalculation node (currentOutputValues node) # rest) \<and>
           list_all isQuiet rest \<and> set (eventNodes rest) \<subseteq> {node} \<and>
           staging st' = staging (fold (stageEvent transferData) block st) \<and>
           (\<forall>p. run_result st' = snd (fold resultStep
                   (BeforeNodeCalculation node (resolveInputs (run_inputs st) node) # block)
                   (p, run_result st)))"
proof -
  let ?iv = "resolveInputs (run_inputs st) node"
  let ?st1 = "emit (BeforeNodeCalculation node ?iv) st"
  let ?cond = "shouldCalculate updatedNode node (inputsChanged (run_inputs st) node)"
  show ?thesis
  proof (cases ?cond)
    case True
    let ?st2 = "emit (NodeCalculate node ?iv) ?st1"
    have failed: ?thesis if "st' = ?st2"
      using that True
      by (intro exI[of _ "[NodeCalculate node ?iv]"] exI[of _ "[]"])
         (simp add: emit_def resultStep_def)
    show ?thesis
    proof (cases "calculate ?iv calculationData")
      case (Inl e)
      then have "st' = ?st2" using run calc True by (simp add: calculateNode_def Let_def)
      then show ?thesis by (rule failed)
    next
      case (Inr outputValues)
      then have r: "finishNode transferData connectionsFrom node ?iv outputValues ?st2 = (err, st')"
        using run calc True by (simp add: calculateNode_def Let_def)
      show ?thesis
      proof (cases "validateNodeCalculationOutput node outputValues")
        case (Some e)
        then have "st' = ?st2" using r by (simp add: finishNode_def)
        then show ?thesis by (rule failed)
      next
        case None
        from finishNode_block[OF None, of transferData connectionsFrom ?iv ?st2] r
        obtain transfers where t: "run_events st' = run_events ?st2 @ AfterNodeCalculation node outputValues # transfers"
          "list_all isTransfer transfers"
          "staging st' = staging (fold (stageEvent transferData) transfers ?st2)"
          "run_result st' = mergedResult outputValues
                (AList.update (node_id node) (?iv, outputValues) (run_result ?st2))"
          by auto
        have s: "staging (fold (stageEvent transferData) transfers ?st2)
                   = staging (fold (stageEvent transferData) transfers st)"
          by (rule fold_stageEvent_staging) simp
        show ?thesis using True t s
          by (intro exI[of _ "NodeCalculate node ?iv # AfterNodeCalculation node outputValues # transfers"]
                exI[of _ "AfterNodeCalculation node outputValues # transfers"])
             (simp add: emit_def resultStep_def resultStep_transfers isTransfer_quiet
                eventNodes_transfers isQuiet_def)
      qed
    qed
  next
    case False
    then have r: "finishNode transferData connectionsFrom node ?iv (currentOutputValues node) ?st1
                    = (err, st')"
      using run calc by (simp add: calculateNode_def Let_def)
    from finishNode_block[OF validate_currentOutputValues, of transferData connectionsFrom node ?iv ?st1] r
    obtain transfers where t: "run_events st' = run_events ?st1 @ AfterNodeCalculation node (currentOutputValues node) # transfers"
      "list_all isTransfer transfers"
      "staging st' = staging (fold (stageEvent transferData) transfers ?st1)"
      "run_result st' = mergedResult (currentOutputValues node)
            (AList.update (node_id node) (?iv, currentOutputValues node) (run_result ?st1))"
      by auto
    have s: "staging (fold (stageEvent transferData) transfers ?st1)
               = staging (fold (stageEvent transferData) transfers st)"
      by (rule fold_stageEvent_staging) simp
    show ?thesis using False t s
      by (intro exI[of _ "AfterNodeCalculation node (currentOutputValues node) # transfers"]
            exI[of _ transfers])
         (simp add: emit_def resultStep_def resultStep_transfers isTransfer_quiet eventNodes_transfers)
  qed
qed

text \<open>
  A component is visited by a run unless the run has an updated node and the component
  has no node of that id.
\<close>

definition visited :: "AbstractNode option \<Rightarrow> ITopologicalSortingResult \<Rightarrow> bool" where
  "visited updatedNode component =
     (case updatedNode of
        None \<Rightarrow> True
      | Some u \<Rightarrow> find (\<lambda>n. node_id n = node_id u) (calculationOrder component) \<noteq> None)"

definition componentsOf :: "DependencyEngine \<Rightarrow> Graph \<Rightarrow> ITopologicalSortingResult list" where
  "componentsOf engine graph =
     (case map_of (engine_order engine) (graph_id graph) of None \<Rightarrow> [] | Some components \<Rightarrow> components)"

definition visitOK ::
  "(val \<Rightarrow> IConnection \<Rightarrow> val) \<Rightarrow> AbstractNode option \<Rightarrow> (string \<times> val) list \<Rightarrow> nat
     \<Rightarrow> ITopologicalSortingResult list \<Rightarrow> event list \<Rightarrow> AbstractNode \<Rightarrow> (string \<times> val) list
     \<Rightarrow> event list \<Rightarrow> bool" where
  "visitOK transferData updatedNode inputs nextId components pre node inputValues post \<longleftrightarrow>
     node_calculate node \<noteq> None \<and>
     (\<exists>c \<in> set components. visited updatedNode c \<and> node \<in> set (calculationOrder c)) \<and>
     inputValues = resolveInputs (stagedInputs transferData inputs nextId pre) node \<and>
     (\<exists>post'. post =
        (if shouldCalculate updatedNode node
              (inputsChanged (stagedInputs transferData inputs nextId pre) node)
         then NodeCalculate node inputValues
         else AfterNodeCalculation node (currentOutputValues node)) # post')"

definition traceOK ::
  "(val \<Rightarrow> IConnection \<Rightarrow> val) \<Rightarrow> AbstractNode option \<Rightarrow> (string \<times> val) list \<Rightarrow> nat
     \<Rightarrow> ITopologicalSortingResult list \<Rightarrow> event list \<Rightarrow> bool" where
  "traceOK transferData updatedNode inputs nextId components evs \<longleftrightarrow>
     (\<forall>pre post node iv. evs = pre @ BeforeNodeCalculation node iv # post \<longrightarrow>
        visitOK transferData updatedNode inputs nextId components pre node iv post) \<and>
     (\<forall>pre post node iv. evs = pre @ NodeCalculate node iv # post \<longrightarrow>
        (\<exists>pre'. pre = pre' @ [BeforeNodeCalculation node iv])) \<and>
     (\<forall>n \<in> set (eventNodes evs). \<exists>c \<in> set components. visited updatedNode c \<and> n \<in> set (calculationOrder c))"

definition runInv ::
  "(val \<Rightarrow> IConnection \<Rightarrow> val) \<Rightarrow> AbstractNode option \<Rightarrow> (string \<times> val) list \<Rightarrow> nat
     \<Rightarrow> ITopologicalSortingResult list \<Rightarrow> RunState \<Rightarrow> bool" where
  "runInv transferData updatedNode inputs nextId components st \<longleftrightarrow>
     staging st = staging (fold (stageEvent transferData) (run_events st)
                    \<lparr> run_inputs = inputs, run_result = [], run_events = [], run_nextId = nextId \<rparr>) \<and>
     run_result st = snd (fold resultStep (run_events st) ([], [])) \<and>
     traceOK transferData updatedNode inputs nextId components (run_events st)"

lemma append_eq_mid:
  "xs @ ys = pre @ e # post \<Longrightarrow>
     (\<exists>post1. xs = pre @ e # post1 \<and> post = post1 @ ys) \<or>
     (\<exists>pre2. pre = xs @ pre2 \<and> ys = pre2 @ e # post)"
proof (induction xs arbitrary: pre)
  case Nil
  then show ?case by simp
next
  case (Cons x xs)
  show ?case
  proof (cases pre)
    case Nil
    then show ?thesis using Cons.prems by simp
  next
    case (Cons p pre1)
    then have "xs @ ys = pre1 @ e # post" and "x = p" using Cons.prems by simp_all
    from Cons.IH[OF this(1)] show ?thesis using Cons \<open>x = p\<close> by auto
  qed
qed

lemma quiet_mid:
  "list_all isQuiet rest \<Longrightarrow> rest = pre @ e # post \<Longrightarrow> isQuiet e"
  by (simp add: list_all_iff)

lemma visitOK_extend:
  "visitOK transferData updatedNode inputs nextId components pre node iv post \<Longrightarrow>
     visitOK transferData updatedNode inputs nextId components pre node iv (post @ later)"
  unfolding visitOK_def by (elim conjE exE) (simp only: append_Cons, blast)

lemma traceOK_block:
  assumes ok: "traceOK transferData updatedNode inputs nextId components evs"
    and hd: "h = (if shouldCalculate updatedNode n (inputsChanged (stagedInputs transferData inputs nextId evs) n)
                  then NodeCalculate n iv else AfterNodeCalculation n (currentOutputValues n))"
    and quiet: "list_all isQuiet rest"
    and nodes: "set (eventNodes rest) \<subseteq> {n}"
    and calc: "node_calculate n \<noteq> None"
    and comp: "c \<in> set components" "visited updatedNode c" "n \<in> set (calculationOrder c)"
    and iv: "iv = resolveInputs (stagedInputs transferData inputs nextId evs) n"
  shows "traceOK transferData updatedNode inputs nextId components
           (evs @ BeforeNodeCalculation n iv # h # rest)"
proof -
  let ?block = "BeforeNodeCalculation n iv # h # rest"
  have here: "visitOK transferData updatedNode inputs nextId components evs n iv (h # rest)"
    unfolding visitOK_def using hd calc comp iv by blast
  have notBefore: "\<not> isQuiet (BeforeNodeCalculation m jv)" for m jv by (simp add: isQuiet_def)
  have notCalc: "\<not> isQuiet (NodeCalculate m jv)" for m jv by (simp add: isQuiet_def)
  have hNotBefore: "h \<noteq> BeforeNodeCalculation m jv" for m jv using hd by (simp split: if_splits)
  have a: "visitOK transferData updatedNode inputs nextId components pre m jv post"
    if eq: "evs @ ?block = pre @ BeforeNodeCalculation m jv # post" for pre post m jv
  proof -
    from append_eq_mid[OF eq] consider
      (old) post1 where "evs = pre @ BeforeNodeCalculation m jv # post1" "post = post1 @ ?block"
      | (new) pre2 where "pre = evs @ pre2" "?block = pre2 @ BeforeNodeCalculation m jv # post"
      by blast
    then show ?thesis
    proof cases
      case old
      from ok old(1) have "visitOK transferData updatedNode inputs nextId components pre m jv post1"
        unfolding traceOK_def by blast
      then show ?thesis unfolding old(2) by (rule visitOK_extend)
    next
      case new
      show ?thesis
      proof (cases pre2)
        case Nil
        then show ?thesis using new here by simp
      next
        case (Cons p pre3)
        then have hr: "h # rest = pre3 @ BeforeNodeCalculation m jv # post" using new(2) by simp
        show ?thesis
        proof (cases pre3)
          case Nil
          then show ?thesis using hr hNotBefore by simp
        next
          case (Cons q pre4)
          then have "rest = pre4 @ BeforeNodeCalculation m jv # post" using hr by simp
          from quiet_mid[OF quiet this] show ?thesis using notBefore by simp
        qed
      qed
    qed
  qed
  have b: "\<exists>pre'. pre = pre' @ [BeforeNodeCalculation m jv]"
    if eq: "evs @ ?block = pre @ NodeCalculate m jv # post" for pre post m jv
  proof -
    from append_eq_mid[OF eq] consider
      (old) post1 where "evs = pre @ NodeCalculate m jv # post1" "post = post1 @ ?block"
      | (new) pre2 where "pre = evs @ pre2" "?block = pre2 @ NodeCalculate m jv # post"
      by blast
    then show ?thesis
    proof cases
      case old
      from ok old(1) show ?thesis unfolding traceOK_def by blast
    next
      case new
      show ?thesis
      proof (cases pre2)
        case Nil
        then show ?thesis using new by simp
      next
        case (Cons p pre3)
        then have p: "p = BeforeNodeCalculation n iv"
          and hr: "h # rest = pre3 @ NodeCalculate m jv # post" using new(2) by simp_all
        show ?thesis
        proof (cases pre3)
          case Nil
          then have "h = NodeCalculate m jv" using hr by simp
          then have "m = n \<and> jv = iv" using hd by (simp split: if_splits)
          then show ?thesis using new(1) Cons Nil p by simp
        next
          case (Cons q pre4)
          then have "rest = pre4 @ NodeCalculate m jv # post" using hr by simp
          from quiet_mid[OF quiet this] show ?thesis using notCalc by simp
        qed
      qed
    qed
  qed
  have hn: "eventNodes [h] = [n]" using hd by (simp split: if_splits)
  have "eventNodes (evs @ ?block) = eventNodes evs @ n # eventNodes ([h] @ rest)" by simp
  then have en: "set (eventNodes (evs @ ?block)) \<subseteq> set (eventNodes evs) \<union> {n}"
    using nodes hn by (simp only: eventNodes_append) auto
  have c: "\<forall>k \<in> set (eventNodes (evs @ ?block)).
             \<exists>c \<in> set components. visited updatedNode c \<and> k \<in> set (calculationOrder c)"
  proof
    fix k assume "k \<in> set (eventNodes (evs @ ?block))"
    then have "k \<in> set (eventNodes evs) \<or> k = n" using en by blast
    then show "\<exists>c \<in> set components. visited updatedNode c \<and> k \<in> set (calculationOrder c)"
      using ok comp unfolding traceOK_def by blast
  qed
  show ?thesis unfolding traceOK_def using a b c by blast
qed

lemma calculateNode_runInv:
  assumes inv: "runInv transferData updatedNode inputs nextId components st"
    and comp: "c \<in> set components" "visited updatedNode c" "node \<in> set (calculationOrder c)"
  shows "runInv transferData updatedNode inputs nextId components
           (snd (calculateNode transferData calculationData updatedNode connectionsFrom node st))"
proof (cases "node_calculate node")
  case None
  then show ?thesis using inv by (simp add: calculateNode_def)
next
  case (Some calculate)
  let ?init = "\<lparr> run_inputs = inputs, run_result = [], run_events = [], run_nextId = nextId \<rparr>"
  obtain err st' where run:
    "calculateNode transferData calculationData updatedNode connectionsFrom node st = (err, st')"
    by (cases "calculateNode transferData calculationData updatedNode connectionsFrom node st")
  let ?iv = "resolveInputs (run_inputs st) node"
  from calculateNode_block[OF Some run] obtain block rest where
    ev: "run_events st' = run_events st @ BeforeNodeCalculation node ?iv # block"
    and bl: "block = (if shouldCalculate updatedNode node (inputsChanged (run_inputs st) node)
                      then NodeCalculate node ?iv # rest
                      else AfterNodeCalculation node (currentOutputValues node) # rest)"
    and quiet: "list_all isQuiet rest" and nodes: "set (eventNodes rest) \<subseteq> {node}"
    and stg: "staging st' = staging (fold (stageEvent transferData) block st)"
    and res: "\<forall>p. run_result st' = snd (fold resultStep (BeforeNodeCalculation node ?iv # block)
                                          (p, run_result st))"
    by blast
  from inv have i1: "staging st = staging (fold (stageEvent transferData) (run_events st) ?init)"
    and i2: "run_result st = snd (fold resultStep (run_events st) ([], []))"
    and i3: "traceOK transferData updatedNode inputs nextId components (run_events st)"
    unfolding runInv_def by blast+
  have inputs_now: "run_inputs st = stagedInputs transferData inputs nextId (run_events st)"
    using i1 by (simp add: staging_def stagedInputs_def)
  have s: "staging st' = staging (fold (stageEvent transferData) (run_events st') ?init)"
  proof -
    have "staging (fold (stageEvent transferData) block st)
            = staging (fold (stageEvent transferData) block
                         (fold (stageEvent transferData) (run_events st) ?init))"
      using i1 by (rule fold_stageEvent_staging)
    then show ?thesis unfolding ev using stg by simp
  qed
  have r: "run_result st' = snd (fold resultStep (run_events st') ([], []))"
  proof -
    let ?acc = "fold resultStep (run_events st) ([], [])"
    have "(fst ?acc, run_result st) = ?acc" using i2 by simp
    moreover have "run_result st' = snd (fold resultStep (BeforeNodeCalculation node ?iv # block)
                                          (fst ?acc, run_result st))"
      using res by blast
    ultimately show ?thesis unfolding ev by (simp only: fold_append comp_apply)
  qed
  let ?h = "if shouldCalculate updatedNode node
                 (inputsChanged (stagedInputs transferData inputs nextId (run_events st)) node)
            then NodeCalculate node ?iv else AfterNodeCalculation node (currentOutputValues node)"
  have block: "block = ?h # rest" using bl inputs_now by (simp split: if_splits)
  have t: "traceOK transferData updatedNode inputs nextId components
             (run_events st @ BeforeNodeCalculation node ?iv # ?h # rest)"
  proof (rule traceOK_block[OF i3 _ quiet nodes _ comp])
    show "?h = ?h" by (rule refl)
    show "node_calculate node \<noteq> None" using Some by simp
    show "?iv = resolveInputs (stagedInputs transferData inputs nextId (run_events st)) node"
      using inputs_now by simp
  qed
  have "runInv transferData updatedNode inputs nextId components st'"
    unfolding runInv_def using s r t ev block by simp
  then show ?thesis using run by simp
qed

lemma calculateNodes_runInv:
  assumes "runInv transferData updatedNode inputs nextId components st"
    and "c \<in> set components" "visited updatedNode c" "set nodes \<subseteq> set (calculationOrder c)"
  shows "runInv transferData updatedNode inputs nextId components
           (snd (calculateNodes transferData calculationData updatedNode connectionsFrom nodes st))"
  using assms
proof (induction nodes arbitrary: st)
  case Nil
  then show ?case by simp
next
  case (Cons node nodes)
  obtain err st1 where r:
    "calculateNode transferData calculationData updatedNode connectionsFrom node st = (err, st1)"
    by (cases "calculateNode transferData calculationData updatedNode connectionsFrom node st")
  have "node \<in> set (calculationOrder c)" using Cons.prems(4) by simp
  from calculateNode_runInv[OF Cons.prems(1,2,3) this, of calculationData connectionsFrom] r
  have st1: "runInv transferData updatedNode inputs nextId components st1" by simp
  show ?case
  proof (cases err)
    case (Some e)
    then show ?thesis using r st1 by simp
  next
    case None
    have "set nodes \<subseteq> set (calculationOrder c)" using Cons.prems(4) by simp
    from Cons.IH[OF st1 Cons.prems(2,3) this] show ?thesis using r None by simp
  qed
qed

lemma calculateComponents_runInv:
  assumes "runInv transferData updatedNode inputs nextId components st"
    and "set cs \<subseteq> set components"
  shows "runInv transferData updatedNode inputs nextId components
           (snd (calculateComponents transferData calculationData updatedNode cs st))"
  using assms
proof (induction cs arbitrary: st)
  case Nil
  then show ?case by simp
next
  case (Cons c cs)
  have rest: "set cs \<subseteq> set components" and c: "c \<in> set components" using Cons.prems(2) by simp_all
  show ?case
  proof (cases "visited updatedNode c")
    case False
    then have "calculateComponents transferData calculationData updatedNode (c # cs) st
                 = calculateComponents transferData calculationData updatedNode cs st"
      by (simp add: visited_def split: option.splits)
    then show ?thesis using Cons.IH[OF Cons.prems(1) rest] by simp
  next
    case True
    obtain err st1 where r:
      "calculateComponent transferData calculationData updatedNode c st = (err, st1)"
      by (cases "calculateComponent transferData calculationData updatedNode c st")
    have "runInv transferData updatedNode inputs nextId components
            (snd (calculateNodes transferData calculationData updatedNode (connectionsFromNode c)
                    (calculationOrder c) st))"
      by (rule calculateNodes_runInv[OF Cons.prems(1) c True]) simp
    then have st1: "runInv transferData updatedNode inputs nextId components st1"
      using r by (simp add: calculateComponent_def)
    have step: "calculateComponents transferData calculationData updatedNode (c # cs) st
                 = (case err of Some e \<Rightarrow> (Some e, st1)
                    | None \<Rightarrow> calculateComponents transferData calculationData updatedNode cs st1)"
      using True r by (auto simp: visited_def split: option.splits)
    show ?thesis
    proof (cases err)
      case (Some e)
      then show ?thesis using step st1 by simp
    next
      case None
      then show ?thesis using step Cons.IH[OF st1 rest] by simp
    qed
  qed
qed

lemma runGraph_runInv:
  assumes run: "runGraph engine graph inputs calculationData nextId = (engine', err, st')"
  shows "runInv (engine_transferData engine) (engine_updatedNode engine) inputs nextId
           (componentsOf engine' graph) st'"
proof -
  let ?init = "\<lparr> run_inputs = inputs, run_result = [], run_events = [], run_nextId = nextId \<rparr>"
  have init: "runInv (engine_transferData engine) (engine_updatedNode engine) inputs nextId cs ?init" for cs
    by (simp add: runInv_def traceOK_def)
  show ?thesis
  proof (cases "map_of (engine_order engine) (graph_id graph)")
    case (Some components)
    then have e: "engine' = engine\<lparr> engine_updatedNode := None \<rparr>"
      and s: "st' = snd (calculateComponents (engine_transferData engine) calculationData
                      (engine_updatedNode engine) components ?init)"
      using run by (simp_all add: runGraph_def Let_def)
    have c: "componentsOf engine' graph = components" using e Some by (simp add: componentsOf_def)
    show ?thesis unfolding c s by (rule calculateComponents_runInv[OF init]) simp
  next
    case None
    show ?thesis
    proof (cases "getSortedComponents (AGraph graph) None")
      case (Inl e)
      then have "st' = ?init" using run None by (simp add: runGraph_def Let_def)
      then show ?thesis using init by simp
    next
      case (Inr components)
      then have e: "engine' = engine\<lparr> engine_order :=
                       AList.update (graph_id graph) components (engine_order engine),
                     engine_updatedNode := None \<rparr>"
        and s: "st' = snd (calculateComponents (engine_transferData engine) calculationData
                      (engine_updatedNode engine) components ?init)"
        using run None by (simp_all add: runGraph_def Let_def update_conv')
      have c: "componentsOf engine' graph = components"
        using e by (simp add: componentsOf_def update_conv')
      show ?thesis unfolding c s by (rule calculateComponents_runInv[OF init]) simp
    qed
  qed
qed

lemma calculateNode_events:
  "\<exists>evs. run_events (snd (calculateNode transferData calculationData updatedNode connectionsFrom node st))
            = run_events st @ evs \<and>
         (node_calculate node \<noteq> None \<longrightarrow> (\<exists>iv. BeforeNodeCalculation node iv \<in> set evs))"
proof (cases "node_calculate node")
  case None
  then show ?thesis by (simp add: calculateNode_def)
next
  case (Some calculate)
  obtain err st' where run:
    "calculateNode transferData calculationData updatedNode connectionsFrom node st = (err, st')"
    by (cases "calculateNode transferData calculationData updatedNode connectionsFrom node st")
  from calculateNode_block[OF Some run] obtain block where
    "run_events st' = run_events st @
       BeforeNodeCalculation node (resolveInputs (run_inputs st) node) # block"
    by blast
  then show ?thesis using run
    by (intro exI[of _ "BeforeNodeCalculation node (resolveInputs (run_inputs st) node) # block"]) auto
qed

lemma calculateNodes_events:
  "\<exists>evs. run_events (snd (calculateNodes transferData calculationData updatedNode connectionsFrom nodes st))
            = run_events st @ evs \<and>
         (fst (calculateNodes transferData calculationData updatedNode connectionsFrom nodes st) = None \<longrightarrow>
            (\<forall>n \<in> set nodes. node_calculate n \<noteq> None \<longrightarrow> (\<exists>iv. BeforeNodeCalculation n iv \<in> set evs)))"
proof (induction nodes arbitrary: st)
  case Nil
  then show ?case by simp
next
  case (Cons node nodes)
  obtain err st1 where r:
    "calculateNode transferData calculationData updatedNode connectionsFrom node st = (err, st1)"
    by (cases "calculateNode transferData calculationData updatedNode connectionsFrom node st")
  from calculateNode_events[of transferData calculationData updatedNode connectionsFrom node st] r
  obtain evs1 where evs1: "run_events st1 = run_events st @ evs1"
    "node_calculate node \<noteq> None \<longrightarrow> (\<exists>iv. BeforeNodeCalculation node iv \<in> set evs1)"
    by auto
  show ?case
  proof (cases err)
    case (Some e)
    then show ?thesis using r evs1 by (intro exI[of _ evs1]) simp
  next
    case None
    then have s: "calculateNodes transferData calculationData updatedNode connectionsFrom (node # nodes) st
                    = calculateNodes transferData calculationData updatedNode connectionsFrom nodes st1"
      using r by simp
    from Cons.IH[of st1] obtain evs2 where evs2:
      "run_events (snd (calculateNodes transferData calculationData updatedNode connectionsFrom nodes st1))
         = run_events st1 @ evs2"
      "fst (calculateNodes transferData calculationData updatedNode connectionsFrom nodes st1) = None \<longrightarrow>
         (\<forall>n \<in> set nodes. node_calculate n \<noteq> None \<longrightarrow> (\<exists>iv. BeforeNodeCalculation n iv \<in> set evs2))"
      by auto
    show ?thesis unfolding s using evs1 evs2
      by (intro exI[of _ "evs1 @ evs2"]) auto
  qed
qed

lemma calculateComponents_events:
  "\<exists>evs. run_events (snd (calculateComponents transferData calculationData updatedNode cs st))
            = run_events st @ evs \<and>
         (fst (calculateComponents transferData calculationData updatedNode cs st) = None \<longrightarrow>
            (\<forall>c \<in> set cs. visited updatedNode c \<longrightarrow>
               (\<forall>n \<in> set (calculationOrder c). node_calculate n \<noteq> None \<longrightarrow>
                  (\<exists>iv. BeforeNodeCalculation n iv \<in> set evs))))"
proof (induction cs arbitrary: st)
  case Nil
  then show ?case by simp
next
  case (Cons c cs)
  show ?case
  proof (cases "visited updatedNode c")
    case False
    then have s: "calculateComponents transferData calculationData updatedNode (c # cs) st
                 = calculateComponents transferData calculationData updatedNode cs st"
      by (simp add: visited_def split: option.splits)
    from Cons.IH[of st] show ?thesis unfolding s using False by auto
  next
    case True
    obtain err st1 where r:
      "calculateNodes transferData calculationData updatedNode (connectionsFromNode c)
         (calculationOrder c) st = (err, st1)"
      by (cases "calculateNodes transferData calculationData updatedNode (connectionsFromNode c)
         (calculationOrder c) st")
    from calculateNodes_events[of transferData calculationData updatedNode "connectionsFromNode c"
        "calculationOrder c" st] r
    obtain evs1 where evs1: "run_events st1 = run_events st @ evs1"
      "err = None \<longrightarrow> (\<forall>n \<in> set (calculationOrder c). node_calculate n \<noteq> None \<longrightarrow>
          (\<exists>iv. BeforeNodeCalculation n iv \<in> set evs1))"
      by auto
    have step: "calculateComponents transferData calculationData updatedNode (c # cs) st
                 = (case err of Some e \<Rightarrow> (Some e, st1)
                    | None \<Rightarrow> calculateComponents transferData calculationData updatedNode cs st1)"
      using True r by (auto simp: visited_def calculateComponent_def split: option.splits)
    show ?thesis
    proof (cases err)
      case (Some e)
      then show ?thesis using step evs1 by (intro exI[of _ evs1]) simp
    next
      case None
      then have s: "calculateComponents transferData calculationData updatedNode (c # cs) st
                      = calculateComponents transferData calculationData updatedNode cs st1"
        using step by simp
      from Cons.IH[of st1] obtain evs2 where evs2:
        "run_events (snd (calculateComponents transferData calculationData updatedNode cs st1))
           = run_events st1 @ evs2"
        "fst (calculateComponents transferData calculationData updatedNode cs st1) = None \<longrightarrow>
            (\<forall>c \<in> set cs. visited updatedNode c \<longrightarrow>
               (\<forall>n \<in> set (calculationOrder c). node_calculate n \<noteq> None \<longrightarrow>
                  (\<exists>iv. BeforeNodeCalculation n iv \<in> set evs2)))"
        by auto
      show ?thesis unfolding s
      proof (intro exI[of _ "evs1 @ evs2"] conjI impI ballI)
        show "run_events (snd (calculateComponents transferData calculationData updatedNode cs st1))
                = run_events st @ evs1 @ evs2"
          using evs1(1) evs2(1) by simp
      next
        fix c' n
        assume ok: "fst (calculateComponents transferData calculationData updatedNode cs st1) = None"
          and c': "c' \<in> set (c # cs)" "visited updatedNode c'"
          and n: "n \<in> set (calculationOrder c')" "node_calculate n \<noteq> None"
        show "\<exists>iv. BeforeNodeCalculation n iv \<in> set (evs1 @ evs2)"
        proof (cases "c' = c")
          case True
          then obtain iv where "BeforeNodeCalculation n iv \<in> set evs1" using evs1(2) None n by blast
          then show ?thesis by auto
        next
          case False
          then have "c' \<in> set cs" using c' by simp
          then obtain iv where "BeforeNodeCalculation n iv \<in> set evs2" using evs2(2) ok c' n by blast
          then show ?thesis by auto
        qed
      qed
    qed
  qed
qed

lemma runGraph_visits:
  assumes run: "runGraph engine graph inputs calculationData nextId = (engine', None, st')"
    and c: "c \<in> set (componentsOf engine' graph)" "visited (engine_updatedNode engine) c"
    and n: "n \<in> set (calculationOrder c)" "node_calculate n \<noteq> None"
  shows "\<exists>iv. BeforeNodeCalculation n iv \<in> set (run_events st')"
proof -
  let ?init = "\<lparr> run_inputs = inputs, run_result = [], run_events = [], run_nextId = nextId \<rparr>"
  have main: "\<exists>iv. BeforeNodeCalculation n iv \<in> set (run_events st')"
    if cs: "componentsOf engine' graph = components"
      and s: "(None, st') = calculateComponents (engine_transferData engine) calculationData
                      (engine_updatedNode engine) components ?init"
    for components
  proof -
    from calculateComponents_events[of "engine_transferData engine" calculationData
        "engine_updatedNode engine" components ?init] s[symmetric]
    obtain evs where "run_events st' = evs"
      "\<forall>c \<in> set components. visited (engine_updatedNode engine) c \<longrightarrow>
               (\<forall>n \<in> set (calculationOrder c). node_calculate n \<noteq> None \<longrightarrow>
                  (\<exists>iv. BeforeNodeCalculation n iv \<in> set evs))"
      by auto
    then show ?thesis using c n cs by blast
  qed
  show ?thesis
  proof (cases "map_of (engine_order engine) (graph_id graph)")
    case (Some components)
    then have e: "engine' = engine\<lparr> engine_updatedNode := None \<rparr>"
      and s: "(None, st') = calculateComponents (engine_transferData engine) calculationData
                      (engine_updatedNode engine) components ?init"
      using run by (simp_all add: runGraph_def Let_def)
    have "componentsOf engine' graph = components" using e Some by (simp add: componentsOf_def)
    then show ?thesis using s by (rule main)
  next
    case None
    show ?thesis
    proof (cases "getSortedComponents (AGraph graph) None")
      case (Inl e)
      then show ?thesis using run None by (simp add: runGraph_def Let_def)
    next
      case (Inr components)
      then have e: "engine' = engine\<lparr> engine_order :=
                       AList.update (graph_id graph) components (engine_order engine),
                     engine_updatedNode := None \<rparr>"
        and s: "(None, st') = calculateComponents (engine_transferData engine) calculationData
                      (engine_updatedNode engine) components ?init"
        using run None by (simp_all add: runGraph_def Let_def update_conv')
      have "componentsOf engine' graph = components"
        using e by (simp add: componentsOf_def update_conv')
      then show ?thesis using s by (rule main)
    qed
  qed
qed

subsection \<open>The result, read off the trace\<close>

definition writes :: "string \<Rightarrow> event \<Rightarrow> bool" where
  "writes k e = (case e of AfterNodeCalculation m ov \<Rightarrow> node_id m = k \<or> k \<in> nestedKeys ov | _ \<Rightarrow> False)"

lemma mergedResult_other:
  "k \<notin> nestedKeys ov \<Longrightarrow> map_of (mergedResult ov res) k = map_of res k"
  by (auto simp: mergedResult_def nestedKeys_def fold_update_other split: val.splits)

lemma resultStep_keep:
  "\<not> writes k e \<Longrightarrow> map_of (snd (resultStep e acc)) k = map_of (snd acc) k"
  by (cases e) (auto simp: writes_def resultStep_def mergedResult_other update_conv')

lemma fold_resultStep_keep:
  "\<forall>e \<in> set evs. \<not> writes k e \<Longrightarrow> map_of (snd (fold resultStep evs acc)) k = map_of (snd acc) k"
proof (induction evs arbitrary: acc)
  case Nil
  then show ?case by simp
next
  case (Cons e evs)
  have "map_of (snd (fold resultStep evs (resultStep e acc))) k = map_of (snd (resultStep e acc)) k"
    using Cons.prems by (intro Cons.IH) simp
  also have "\<dots> = map_of (snd acc) k" using Cons.prems by (intro resultStep_keep) simp
  finally show ?case by simp
qed

lemma result_entry:
  assumes later: "\<forall>e \<in> set post. \<not> writes (node_id n) e"
    and nested: "node_id n \<notin> nestedKeys ov"
  shows "map_of (snd (fold resultStep (pre @ BeforeNodeCalculation n iv # AfterNodeCalculation n ov # post) acc))
           (node_id n) = Some (iv, ov)"
proof -
  let ?acc1 = "fold resultStep pre acc"
  let ?acc2 = "resultStep (AfterNodeCalculation n ov) (resultStep (BeforeNodeCalculation n iv) ?acc1)"
  have "map_of (snd ?acc2) (node_id n) = Some (iv, ov)"
    using nested by (simp add: resultStep_def mergedResult_other update_conv')
  moreover have "map_of (snd (fold resultStep post ?acc2)) (node_id n) = map_of (snd ?acc2) (node_id n)"
    using later by (rule fold_resultStep_keep)
  ultimately show ?thesis by simp
qed

subsection \<open>The staged values, read off the trace\<close>

text \<open>
  The hook calls of a trace whose connection ends in the port of a given id, in their
  order: the value handed to the hook, and the connection.
\<close>

definition transfersTo :: "string \<Rightarrow> event list \<Rightarrow> (val \<times> IConnection) list" where
  "transfersTo portId evs =
     List.map_filter (\<lambda>e. case e of
         TransferData v c \<Rightarrow> if intf_id (conn_to c) = portId then Some (v, c) else None
       | _ \<Rightarrow> None) evs"

lemma transfersTo_snoc:
  "transfersTo p (evs @ [e]) =
     transfersTo p evs @ (case e of
         TransferData v c \<Rightarrow> if intf_id (conn_to c) = p then [(v, c)] else []
       | _ \<Rightarrow> [])"
  by (simp add: transfersTo_def List.map_filter_def split: event.splits)

lemma stageValue_other:
  "intf_id to \<noteq> p \<Longrightarrow> map_of (run_inputs (snd (stageValue to v st))) p = map_of (run_inputs st) p"
  by (simp add: stageValue_def update_conv' split: option.splits val.splits)

lemma stageValue_nextId: "run_nextId st \<le> run_nextId (snd (stageValue to v st))"
  by (simp add: stageValue_def split: option.splits val.splits)

lemma stageEvent_nextId: "run_nextId st \<le> run_nextId (stageEvent transferData e st)"
  by (cases e) (simp_all add: stageValue_nextId)

lemma fold_stageEvent_nextId: "run_nextId st \<le> run_nextId (fold (stageEvent transferData) evs st)"
proof (induction evs arbitrary: st)
  case Nil
  then show ?case by simp
next
  case (Cons e evs)
  have "run_nextId st \<le> run_nextId (stageEvent transferData e st)" by (rule stageEvent_nextId)
  also have "\<dots> \<le> run_nextId (fold (stageEvent transferData) evs (stageEvent transferData e st))"
    by (rule Cons.IH)
  finally show ?case by simp
qed

lemma staged_multiple:
  assumes "\<forall>vc \<in> set (transfersTo p evs). intf_allowMultipleConnections (conn_to (snd vc))"
    and "map_of inputs p = None"
  shows "if transfersTo p evs = [] then map_of (stagedInputs transferData inputs nextId evs) p = None
         else \<exists>a \<ge> nextId. map_of (stagedInputs transferData inputs nextId evs) p
                = Some (VArr a (map (\<lambda>vc. transferData (fst vc) (snd vc)) (transfersTo p evs)))"
  using assms(1)
proof (induction evs rule: rev_induct)
  case Nil
  then show ?case using assms(2) by (simp add: stagedInputs_def transfersTo_def List.map_filter_def)
next
  case (snoc e evs)
  let ?init = "\<lparr> run_inputs = inputs, run_result = [], run_events = [], run_nextId = nextId \<rparr>"
  let ?st = "fold (stageEvent transferData) evs ?init"
  have prev: "\<forall>vc \<in> set (transfersTo p evs). intf_allowMultipleConnections (conn_to (snd vc))"
    using snoc.prems by (simp add: transfersTo_snoc)
  note IH = snoc.IH[OF prev]
  have staged: "stagedInputs transferData inputs nextId (evs @ [e]) = run_inputs (stageEvent transferData e ?st)"
    by (simp add: stagedInputs_def)
  have old: "stagedInputs transferData inputs nextId evs = run_inputs ?st" by (simp add: stagedInputs_def)
  have ge: "nextId \<le> run_nextId ?st"
    using fold_stageEvent_nextId[where st = ?init and transferData = transferData and evs = evs] by simp
  show ?case
  proof (cases "\<exists>v c. e = TransferData v c \<and> intf_id (conn_to c) = p")
    case False
    then have same: "transfersTo p (evs @ [e]) = transfersTo p evs"
      by (auto simp: transfersTo_snoc split: event.splits)
    have "map_of (run_inputs (stageEvent transferData e ?st)) p = map_of (run_inputs ?st) p"
      using False by (cases e) (auto simp: stageValue_other)
    then show ?thesis using IH unfolding same staged old by simp
  next
    case True
    then obtain v c where e: "e = TransferData v c" and to: "intf_id (conn_to c) = p" by blast
    have more: "transfersTo p (evs @ [e]) = transfersTo p evs @ [(v, c)]"
      using e to by (simp add: transfersTo_snoc)
    have multi: "intf_allowMultipleConnections (conn_to c)" using snoc.prems more by simp
    show ?thesis
    proof (cases "transfersTo p evs = []")
      case True
      then have "map_of (run_inputs ?st) p = None" using IH old by simp
      then have "map_of (run_inputs (stageEvent transferData e ?st)) p
                   = Some (VArr (run_nextId ?st) [transferData v c])"
        using e to multi by (simp add: stageValue_def update_conv')
      then show ?thesis unfolding staged more using True ge by auto
    next
      case False
      then obtain a where a: "a \<ge> nextId" "map_of (run_inputs ?st) p
                = Some (VArr a (map (\<lambda>vc. transferData (fst vc) (snd vc)) (transfersTo p evs)))"
        using IH old by auto
      then have "map_of (run_inputs (stageEvent transferData e ?st)) p
                   = Some (VArr a (map (\<lambda>vc. transferData (fst vc) (snd vc)) (transfersTo p evs)
                                     @ [transferData v c]))"
        using e to multi by (simp add: stageValue_def update_conv')
      then show ?thesis unfolding staged more using a(1) by auto
    qed
  qed
qed

lemma staged_single:
  assumes "\<forall>vc \<in> set (transfersTo p evs). \<not> intf_allowMultipleConnections (conn_to (snd vc))"
  shows "map_of (stagedInputs transferData inputs nextId evs) p =
           (if transfersTo p evs = [] then map_of inputs p
            else Some (transferData (fst (last (transfersTo p evs))) (snd (last (transfersTo p evs)))))"
  using assms
proof (induction evs rule: rev_induct)
  case Nil
  then show ?case by (simp add: stagedInputs_def transfersTo_def List.map_filter_def)
next
  case (snoc e evs)
  let ?init = "\<lparr> run_inputs = inputs, run_result = [], run_events = [], run_nextId = nextId \<rparr>"
  let ?st = "fold (stageEvent transferData) evs ?init"
  have prev: "\<forall>vc \<in> set (transfersTo p evs). \<not> intf_allowMultipleConnections (conn_to (snd vc))"
    using snoc.prems by (simp add: transfersTo_snoc)
  note IH = snoc.IH[OF prev]
  have staged: "stagedInputs transferData inputs nextId (evs @ [e]) = run_inputs (stageEvent transferData e ?st)"
    by (simp add: stagedInputs_def)
  have old: "stagedInputs transferData inputs nextId evs = run_inputs ?st" by (simp add: stagedInputs_def)
  show ?case
  proof (cases "\<exists>v c. e = TransferData v c \<and> intf_id (conn_to c) = p")
    case False
    then have same: "transfersTo p (evs @ [e]) = transfersTo p evs"
      by (auto simp: transfersTo_snoc split: event.splits)
    have "map_of (run_inputs (stageEvent transferData e ?st)) p = map_of (run_inputs ?st) p"
      using False by (cases e) (auto simp: stageValue_other)
    then show ?thesis using IH unfolding same staged old by simp
  next
    case True
    then obtain v c where e: "e = TransferData v c" and to: "intf_id (conn_to c) = p" by blast
    have more: "transfersTo p (evs @ [e]) = transfersTo p evs @ [(v, c)]"
      using e to by (simp add: transfersTo_snoc)
    have single: "\<not> intf_allowMultipleConnections (conn_to c)" using snoc.prems more by simp
    have "map_of (run_inputs (stageEvent transferData e ?st)) p = Some (transferData v c)"
      using e to single by (simp add: stageValue_def update_conv')
    then show ?thesis unfolding staged more by simp
  qed
qed

subsection \<open>The decision, spelled out\<close>

lemma strictEquals_explicit:
  "strictEquals v w \<longleftrightarrow>
     (case (v, w) of
        (VArr a xs, VArr b ys) \<Rightarrow> a = b
      | (VResult a xs, VResult b ys) \<Rightarrow> a = b
      | (v, w) \<Rightarrow> v = w)"
  by (cases v; cases w; simp)

lemma shouldCalculate_explicit:
  "shouldCalculate updatedNode node (inputsChanged inputs node) \<longleftrightarrow>
     updatedNode = None \<or> (\<exists>u. updatedNode = Some u \<and> node_id node = node_id u) \<or>
     node_alwaysRecalculate node \<or>
     (\<exists>i < length (node_inputs node).
        case node_isInterfaceEqualTo node of
          Some isInterfaceEqualTo \<Rightarrow>
            \<not> isInterfaceEqualTo (snd (node_inputs node ! i)) (snd (resolveInputs inputs node ! i))
        | None \<Rightarrow>
            \<not> (case (snd (resolveInputs inputs node ! i), intf_value (snd (node_inputs node ! i))) of
                 (VArr a xs, VArr b ys) \<Rightarrow> a = b
               | (VResult a xs, VResult b ys) \<Rightarrow> a = b
               | (v, w) \<Rightarrow> v = w))"
proof -
  have r: "snd (resolveInputs inputs node ! i) = resolveInput inputs (snd (node_inputs node ! i))"
    if "i < length (node_inputs node)" for i
    using that by (simp add: resolveInputs_def)
  have "(\<exists>kv \<in> set (node_inputs node). inputChanged node (snd kv) (resolveInput inputs (snd kv))) \<longleftrightarrow>
        (\<exists>i < length (node_inputs node).
           inputChanged node (snd (node_inputs node ! i)) (snd (resolveInputs inputs node ! i)))"
  proof
    assume "\<exists>kv \<in> set (node_inputs node). inputChanged node (snd kv) (resolveInput inputs (snd kv))"
    then obtain kv where "kv \<in> set (node_inputs node)"
      and c: "inputChanged node (snd kv) (resolveInput inputs (snd kv))" by blast
    then obtain i where i: "i < length (node_inputs node)" "node_inputs node ! i = kv"
      unfolding in_set_conv_nth by blast
    then have "inputChanged node (snd (node_inputs node ! i)) (snd (resolveInputs inputs node ! i))"
      using c r[OF i(1)] by simp
    then show "\<exists>i < length (node_inputs node).
           inputChanged node (snd (node_inputs node ! i)) (snd (resolveInputs inputs node ! i))"
      using i(1) by blast
  next
    assume "\<exists>i < length (node_inputs node).
           inputChanged node (snd (node_inputs node ! i)) (snd (resolveInputs inputs node ! i))"
    then obtain i where i: "i < length (node_inputs node)"
      and c: "inputChanged node (snd (node_inputs node ! i)) (snd (resolveInputs inputs node ! i))"
      by blast
    have "node_inputs node ! i \<in> set (node_inputs node)" using i by simp
    moreover have "inputChanged node (snd (node_inputs node ! i))
                     (resolveInput inputs (snd (node_inputs node ! i)))"
      using c r[OF i] by simp
    ultimately show "\<exists>kv \<in> set (node_inputs node). inputChanged node (snd kv) (resolveInput inputs (snd kv))"
      by blast
  qed
  moreover have "inputChanged node intf v \<longleftrightarrow>
      (case node_isInterfaceEqualTo node of
         Some isInterfaceEqualTo \<Rightarrow> \<not> isInterfaceEqualTo intf v
       | None \<Rightarrow> \<not> (case (v, intf_value intf) of
                 (VArr a xs, VArr b ys) \<Rightarrow> a = b
               | (VResult a xs, VResult b ys) \<Rightarrow> a = b
               | (v, w) \<Rightarrow> v = w))" for intf v
    unfolding inputChanged_def strictEquals_explicit[symmetric] by (simp split: option.splits)
  ultimately show ?thesis unfolding shouldCalculate_iff by simp
qed

lemma runGraph_visit:
  assumes run: "runGraph engine graph inputs calculationData nextId = (engine', err, st')"
    and visit: "run_events st' = pre @ BeforeNodeCalculation node iv # post"
  shows "node_calculate node \<noteq> None \<and>
         (\<exists>c \<in> set (componentsOf engine' graph).
            visited (engine_updatedNode engine) c \<and> node \<in> set (calculationOrder c)) \<and>
         iv = resolveInputs (stagedInputs (engine_transferData engine) inputs nextId pre) node \<and>
         (\<exists>post'. post =
            (if shouldCalculate (engine_updatedNode engine) node
                  (inputsChanged (stagedInputs (engine_transferData engine) inputs nextId pre) node)
             then NodeCalculate node iv
             else AfterNodeCalculation node (currentOutputValues node)) # post') \<and>
         (\<forall>ov post'. post = AfterNodeCalculation node ov # post' \<longrightarrow>
            node_id node \<notin> nestedKeys ov \<longrightarrow>
            (\<forall>m ov'. AfterNodeCalculation m ov' \<in> set post' \<longrightarrow>
               node_id m \<noteq> node_id node \<and> node_id node \<notin> nestedKeys ov') \<longrightarrow>
            map_of (run_result st') (node_id node) = Some (iv, ov))"
proof -
  from runGraph_runInv[OF run]
  have res: "run_result st' = snd (fold resultStep (run_events st') ([], []))"
    and tr: "traceOK (engine_transferData engine) (engine_updatedNode engine) inputs nextId
               (componentsOf engine' graph) (run_events st')"
    unfolding runInv_def by blast+
  from tr visit
  have v: "visitOK (engine_transferData engine) (engine_updatedNode engine) inputs nextId
             (componentsOf engine' graph) pre node iv post"
    unfolding traceOK_def by blast
  have entry: "map_of (run_result st') (node_id node) = Some (iv, ov)"
    if p: "post = AfterNodeCalculation node ov # post'"
      and nested: "node_id node \<notin> nestedKeys ov"
      and later: "\<forall>m ov'. AfterNodeCalculation m ov' \<in> set post' \<longrightarrow>
               node_id m \<noteq> node_id node \<and> node_id node \<notin> nestedKeys ov'"
    for ov post'
  proof -
    have "\<forall>e \<in> set post'. \<not> writes (node_id node) e"
    proof
      fix e assume e: "e \<in> set post'"
      show "\<not> writes (node_id node) e"
      proof (cases e)
        case (AfterNodeCalculation m ov')
        then have "AfterNodeCalculation m ov' \<in> set post'" using e by simp
        then have "node_id m \<noteq> node_id node \<and> node_id node \<notin> nestedKeys ov'" using later by blast
        then show ?thesis by (simp add: writes_def AfterNodeCalculation)
      qed (simp_all add: writes_def)
    qed
    from result_entry[OF this nested, of pre iv "([], [])"] show ?thesis
      unfolding res visit p by simp
  qed
  show ?thesis using v entry unfolding visitOK_def by blast
qed

lemma runGraph_calculate:
  assumes run: "runGraph engine graph inputs calculationData nextId = (engine', err, st')"
    and visit: "run_events st' = pre @ NodeCalculate node iv # post"
  shows "\<exists>pre'. pre = pre' @ [BeforeNodeCalculation node iv]"
  using runGraph_runInv[OF run] visit unfolding runInv_def traceOK_def by blast

lemma runGraph_eventNodes:
  assumes run: "runGraph engine graph inputs calculationData nextId = (engine', err, st')"
    and n: "n \<in> set (eventNodes (run_events st'))"
  shows "\<exists>c \<in> set (componentsOf engine' graph).
           visited (engine_updatedNode engine) c \<and> n \<in> set (calculationOrder c)"
  using runGraph_runInv[OF run] n unfolding runInv_def traceOK_def by blast

lemma runGraph_result:
  assumes run: "runGraph engine graph inputs calculationData nextId = (engine', err, st')"
  shows "run_result st' = snd (fold resultStep (run_events st') ([], []))"
  using runGraph_runInv[OF run] unfolding runInv_def by blast

text \<open>
  Claim C4. In \<^verbatim>\<open>runGraph\<close>, every node with a calculation step in a visited component is
  visited (announced by the before-calculation notification, with its resolved input
  values), and at each visit the calculation step is invoked (the next entry of the trace
  is the call) if and only if there is no updated-node hint, or the node's id equals the
  hint's id, or the node's \<^verbatim>\<open>alwaysRecalculate\<close> flag is set, or at least one resolved
  input value differs from that input port's stored value (by the node's
  \<^verbatim>\<open>isInterfaceEqualTo\<close> if it has one, else by \<^verbatim>\<open>!==\<close>: objects by identity, anything
  else by value). When it is not invoked, the node's stored output values are this run's
  outputs: they are announced by the after-calculation notification that follows at once,
  and they are the node's entry of the result unless a later step writes that key. The
  step is called nowhere else.
\<close>

theorem runGraph_invocation:
  assumes run: "runGraph engine graph inputs calculationData nextId = (engine', err, st')"
  shows "(err = None \<longrightarrow>
            (\<forall>c \<in> set (componentsOf engine' graph). visited (engine_updatedNode engine) c \<longrightarrow>
               (\<forall>n \<in> set (calculationOrder c). node_calculate n \<noteq> None \<longrightarrow>
                  (\<exists>inputValues. BeforeNodeCalculation n inputValues \<in> set (run_events st'))))) \<and>
         (\<forall>pre node inputValues post.
            run_events st' = pre @ BeforeNodeCalculation node inputValues # post \<longrightarrow>
              node_calculate node \<noteq> None \<and>
              (\<exists>c \<in> set (componentsOf engine' graph).
                 visited (engine_updatedNode engine) c \<and> node \<in> set (calculationOrder c)) \<and>
              inputValues =
                map (\<lambda>kv. (fst kv,
                       case map_of (stagedInputs (engine_transferData engine) inputs nextId pre)
                              (intf_id (snd kv)) of
                         Some v \<Rightarrow> v
                       | None \<Rightarrow> intf_value (snd kv)))
                  (node_inputs node) \<and>
              ((\<exists>post'. post = NodeCalculate node inputValues # post') \<longleftrightarrow>
                 engine_updatedNode engine = None \<or>
                 (\<exists>u. engine_updatedNode engine = Some u \<and> node_id node = node_id u) \<or>
                 node_alwaysRecalculate node \<or>
                 (\<exists>i < length (node_inputs node).
                    case node_isInterfaceEqualTo node of
                      Some isInterfaceEqualTo \<Rightarrow>
                        \<not> isInterfaceEqualTo (snd (node_inputs node ! i)) (snd (inputValues ! i))
                    | None \<Rightarrow>
                        \<not> (case (snd (inputValues ! i), intf_value (snd (node_inputs node ! i))) of
                             (VArr a xs, VArr b ys) \<Rightarrow> a = b
                           | (VResult a xs, VResult b ys) \<Rightarrow> a = b
                           | (v, w) \<Rightarrow> v = w))) \<and>
              ((\<nexists>post'. post = NodeCalculate node inputValues # post') \<longrightarrow>
                 (\<exists>post'. post = AfterNodeCalculation node
                                    (map (\<lambda>kv. (fst kv, intf_value (snd kv))) (node_outputs node)) # post' \<and>
                    (node_id node \<notin> nestedKeys (map (\<lambda>kv. (fst kv, intf_value (snd kv))) (node_outputs node)) \<and>
                     (\<forall>m ov. AfterNodeCalculation m ov \<in> set post' \<longrightarrow>
                        node_id m \<noteq> node_id node \<and> node_id node \<notin> nestedKeys ov) \<longrightarrow>
                     map_of (run_result st') (node_id node)
                       = Some (inputValues,
                               map (\<lambda>kv. (fst kv, intf_value (snd kv))) (node_outputs node)))))) \<and>
         (\<forall>pre node inputValues post.
            run_events st' = pre @ NodeCalculate node inputValues # post \<longrightarrow>
              (\<exists>pre'. pre = pre' @ [BeforeNodeCalculation node inputValues]))"
proof (intro conjI impI allI ballI)
  fix c n
  assume "err = None" "c \<in> set (componentsOf engine' graph)" "visited (engine_updatedNode engine) c"
    "n \<in> set (calculationOrder c)" "node_calculate n \<noteq> None"
  then show "\<exists>inputValues. BeforeNodeCalculation n inputValues \<in> set (run_events st')"
    using runGraph_visits[of engine graph inputs calculationData nextId engine' st' c n] run by simp
next
  fix pre node inputValues post
  assume "run_events st' = pre @ NodeCalculate node inputValues # post"
  then show "\<exists>pre'. pre = pre' @ [BeforeNodeCalculation node inputValues]"
    by (rule runGraph_calculate[OF run])
next
  fix pre node inputValues post
  assume visit: "run_events st' = pre @ BeforeNodeCalculation node inputValues # post"
  let ?staged = "stagedInputs (engine_transferData engine) inputs nextId pre"
  let ?stored = "map (\<lambda>kv. (fst kv, intf_value (snd kv))) (node_outputs node)"
  note v = runGraph_visit[OF run visit]
  from v have calc: "node_calculate node \<noteq> None" by blast
  from v have comp: "\<exists>c \<in> set (componentsOf engine' graph).
            visited (engine_updatedNode engine) c \<and> node \<in> set (calculationOrder c)" by blast
  from v have iv: "inputValues = resolveInputs ?staged node" by blast
  from v obtain post' where post: "post =
            (if shouldCalculate (engine_updatedNode engine) node (inputsChanged ?staged node)
             then NodeCalculate node inputValues
             else AfterNodeCalculation node (currentOutputValues node)) # post'" by blast
  from v have entry: "\<forall>ov post'. post = AfterNodeCalculation node ov # post' \<longrightarrow>
            node_id node \<notin> nestedKeys ov \<longrightarrow>
            (\<forall>m ov'. AfterNodeCalculation m ov' \<in> set post' \<longrightarrow>
               node_id m \<noteq> node_id node \<and> node_id node \<notin> nestedKeys ov') \<longrightarrow>
            map_of (run_result st') (node_id node) = Some (inputValues, ov)" by blast
  have invoked: "(\<exists>post'. post = NodeCalculate node inputValues # post') \<longleftrightarrow>
      shouldCalculate (engine_updatedNode engine) node (inputsChanged ?staged node)"
    using post by simp
  show "node_calculate node \<noteq> None" by (rule calc)
  show "\<exists>c \<in> set (componentsOf engine' graph).
            visited (engine_updatedNode engine) c \<and> node \<in> set (calculationOrder c)" by (rule comp)
  show "inputValues =
          map (\<lambda>kv. (fst kv, case map_of ?staged (intf_id (snd kv)) of
                         Some v \<Rightarrow> v | None \<Rightarrow> intf_value (snd kv)))
            (node_inputs node)"
    using iv by (simp add: resolveInputs_def resolveInput_def)
  show "(\<exists>post'. post = NodeCalculate node inputValues # post') \<longleftrightarrow>
                 engine_updatedNode engine = None \<or>
                 (\<exists>u. engine_updatedNode engine = Some u \<and> node_id node = node_id u) \<or>
                 node_alwaysRecalculate node \<or>
                 (\<exists>i < length (node_inputs node).
                    case node_isInterfaceEqualTo node of
                      Some isInterfaceEqualTo \<Rightarrow>
                        \<not> isInterfaceEqualTo (snd (node_inputs node ! i)) (snd (inputValues ! i))
                    | None \<Rightarrow>
                        \<not> (case (snd (inputValues ! i), intf_value (snd (node_inputs node ! i))) of
                             (VArr a xs, VArr b ys) \<Rightarrow> a = b
                           | (VResult a xs, VResult b ys) \<Rightarrow> a = b
                           | (v, w) \<Rightarrow> v = w))"
    unfolding invoked unfolding iv by (rule shouldCalculate_explicit)
  show "\<exists>post'. post = AfterNodeCalculation node ?stored # post' \<and>
           (node_id node \<notin> nestedKeys ?stored \<and>
            (\<forall>m ov. AfterNodeCalculation m ov \<in> set post' \<longrightarrow>
               node_id m \<noteq> node_id node \<and> node_id node \<notin> nestedKeys ov) \<longrightarrow>
            map_of (run_result st') (node_id node) = Some (inputValues, ?stored))"
    if "\<nexists>post'. post = NodeCalculate node inputValues # post'"
  proof -
    have "post = AfterNodeCalculation node ?stored # post'"
      using that post by (simp add: currentOutputValues_def split: if_splits)
    then show ?thesis using entry by blast
  qed
qed

lemmas run_simps = execute_def runGraph_def testEngine_def
  unconnectedInputValues_def testNode_def testInterface_def conn12_def testConnection_def
  getSortedComponents_def connectedComponents_def nodesOrGraphToData_def registerInterfaces_def
  addNodeLists_def addPredecessor_def connectionsFromCurrentNode_def dfs.simps Let_def
  sortTopologically_def buildAdjacency_def adjacentNodes_def newSet_def initialStartNodes_def
  sortLoop.simps visitAdjacent.simps calculateComponent_def calculateNode_def finishNode_def
  resolveInputs_def resolveInput_def inputsChanged_def inputChanged_def shouldCalculate_def
  currentOutputValues_def validateNodeCalculationOutput_def mergeSubgraphResult_def property_def
  emit_def nodeMapGet_def propagateConnection_def stageValue_def testCalculate_def update_conv'
  componentsOf_def

text \<open>
  The second run of the test ``should not recalculate node if inputs weren't changed'':
  the graph as the first run left it, run again with \<^verbatim>\<open>n1\<close> as the updated node.
\<close>

definition appliedInputs :: "(string \<times> val) list" where
  "appliedInputs = [(''n1.a'', VNum 1), (''n1.b'', VNum 1), (''n2.b'', VNum 1)]"

definition appliedRun :: "DependencyEngine \<times> error option \<times> RunState" where
  "appliedRun = runGraph (testEngine (Some appliedNode1)) appliedGraph appliedInputs VUndefined 0"

lemma appliedRun_events:
  "run_events (snd (snd appliedRun))
     = [BeforeNodeCalculation appliedNode1 [(''a'', VNum 1), (''b'', VNum 1)],
        NodeCalculate appliedNode1 [(''a'', VNum 1), (''b'', VNum 1)],
        AfterNodeCalculation appliedNode1 [(''c'', VNum 2), (''d'', VNum 0)],
        TransferData (VNum 2) conn12] @
       BeforeNodeCalculation appliedNode2 [(''a'', VNum 2), (''b'', VNum 1)] #
       [AfterNodeCalculation appliedNode2 [(''c'', VNum 3), (''d'', VNum 1)]]"
  by (simp add: appliedRun_def appliedInputs_def appliedGraph_def appliedNode1_def appliedNode2_def
        run_simps)

theorem runGraph_invocation_witness:
  "runGraph (testEngine (Some appliedNode1)) appliedGraph appliedInputs VUndefined 0
     = (fst appliedRun, fst (snd appliedRun), snd (snd appliedRun)) \<and>
   run_events (snd (snd appliedRun))
     = [BeforeNodeCalculation appliedNode1 [(''a'', VNum 1), (''b'', VNum 1)],
        NodeCalculate appliedNode1 [(''a'', VNum 1), (''b'', VNum 1)],
        AfterNodeCalculation appliedNode1 [(''c'', VNum 2), (''d'', VNum 0)],
        TransferData (VNum 2) conn12] @
       BeforeNodeCalculation appliedNode2 [(''a'', VNum 2), (''b'', VNum 1)] #
       [AfterNodeCalculation appliedNode2 [(''c'', VNum 3), (''d'', VNum 1)]] \<and>
   (\<nexists>post'. [AfterNodeCalculation appliedNode2 [(''c'', VNum 3), (''d'', VNum 1)]]
              = NodeCalculate appliedNode2 [(''a'', VNum 2), (''b'', VNum 1)] # post') \<and>
   map_of (run_result (snd (snd appliedRun))) (node_id appliedNode2)
     = Some ([(''a'', VNum 2), (''b'', VNum 1)], [(''c'', VNum 3), (''d'', VNum 1)]) \<and>
   run_events (snd (snd appliedRun))
     = [] @ BeforeNodeCalculation appliedNode1 [(''a'', VNum 1), (''b'', VNum 1)] #
       [NodeCalculate appliedNode1 [(''a'', VNum 1), (''b'', VNum 1)],
        AfterNodeCalculation appliedNode1 [(''c'', VNum 2), (''d'', VNum 0)],
        TransferData (VNum 2) conn12,
        BeforeNodeCalculation appliedNode2 [(''a'', VNum 2), (''b'', VNum 1)],
        AfterNodeCalculation appliedNode2 [(''c'', VNum 3), (''d'', VNum 1)]] \<and>
   engine_updatedNode (testEngine (Some appliedNode1)) = Some appliedNode1 \<and>
   (\<exists>post'. [NodeCalculate appliedNode1 [(''a'', VNum 1), (''b'', VNum 1)],
              AfterNodeCalculation appliedNode1 [(''c'', VNum 2), (''d'', VNum 0)],
              TransferData (VNum 2) conn12,
              BeforeNodeCalculation appliedNode2 [(''a'', VNum 2), (''b'', VNum 1)],
              AfterNodeCalculation appliedNode2 [(''c'', VNum 3), (''d'', VNum 1)]]
            = NodeCalculate appliedNode1 [(''a'', VNum 1), (''b'', VNum 1)] # post')"
proof -
  have run: "runGraph (testEngine (Some appliedNode1)) appliedGraph appliedInputs VUndefined 0
     = (fst appliedRun, fst (snd appliedRun), snd (snd appliedRun))"
    by (simp add: appliedRun_def)
  note tr = appliedRun_events
  note w = runGraph_invocation[OF run]
  note v = w[THEN conjunct2, THEN conjunct1, rule_format, OF tr]
  note decision = v[THEN conjunct2, THEN conjunct2, THEN conjunct2, THEN conjunct1]
  note reuse = v[THEN conjunct2, THEN conjunct2, THEN conjunct2, THEN conjunct2]
  have notInvoked: "\<nexists>post'. [AfterNodeCalculation appliedNode2 [(''c'', VNum 3), (''d'', VNum 1)]]
              = NodeCalculate appliedNode2 [(''a'', VNum 2), (''b'', VNum 1)] # post'"
    unfolding decision
    by (simp add: testEngine_def appliedNode1_def appliedNode2_def testNode_def testInterface_def
          All_less_Suc Ex_less_Suc)
  have stored: "map (\<lambda>kv. (fst kv, intf_value (snd kv))) (node_outputs appliedNode2)
                  = [(''c'', VNum 3), (''d'', VNum 1)]"
    by (simp add: appliedNode2_def testNode_def testInterface_def)
  have nested: "node_id appliedNode2 \<notin> nestedKeys [(''c'', VNum 3), (''d'', VNum 1)]"
    by (simp add: nestedKeys_def property_def)
  from reuse[rule_format, OF notInvoked]
  have "map_of (run_result (snd (snd appliedRun))) (node_id appliedNode2)
     = Some ([(''a'', VNum 2), (''b'', VNum 1)], [(''c'', VNum 3), (''d'', VNum 1)])"
    unfolding stored using nested by auto
  note entry = this
  have tr1: "run_events (snd (snd appliedRun))
     = [] @ BeforeNodeCalculation appliedNode1 [(''a'', VNum 1), (''b'', VNum 1)] #
       [NodeCalculate appliedNode1 [(''a'', VNum 1), (''b'', VNum 1)],
        AfterNodeCalculation appliedNode1 [(''c'', VNum 2), (''d'', VNum 0)],
        TransferData (VNum 2) conn12,
        BeforeNodeCalculation appliedNode2 [(''a'', VNum 2), (''b'', VNum 1)],
        AfterNodeCalculation appliedNode2 [(''c'', VNum 3), (''d'', VNum 1)]]"
    using tr by simp
  have hint: "engine_updatedNode (testEngine (Some appliedNode1)) = Some appliedNode1"
    by (simp add: testEngine_def)
  note v1 = w[THEN conjunct2, THEN conjunct1, rule_format, OF tr1]
  note decision1 = v1[THEN conjunct2, THEN conjunct2, THEN conjunct2, THEN conjunct1]
  have invoked: "\<exists>post'. [NodeCalculate appliedNode1 [(''a'', VNum 1), (''b'', VNum 1)],
              AfterNodeCalculation appliedNode1 [(''c'', VNum 2), (''d'', VNum 0)],
              TransferData (VNum 2) conn12,
              BeforeNodeCalculation appliedNode2 [(''a'', VNum 2), (''b'', VNum 1)],
              AfterNodeCalculation appliedNode2 [(''c'', VNum 3), (''d'', VNum 1)]]
            = NodeCalculate appliedNode1 [(''a'', VNum 1), (''b'', VNum 1)] # post'"
    unfolding decision1 using hint by simp
  from run tr notInvoked entry tr1 hint invoked show ?thesis by (intro conjI)
qed


text \<open>
  Claim C5, as stated, fails. In the second run of the test the hint names \<^verbatim>\<open>n1\<close>; the
  resolved inputs of \<^verbatim>\<open>n1\<close> announced by the run are its stored input values, so none has
  changed, and the calculation step of \<^verbatim>\<open>n1\<close> is invoked all the same (that of \<^verbatim>\<open>n2\<close> is
  not).
\<close>

theorem hinted_node_counterexample:
  "engine_updatedNode (testEngine (Some appliedNode1)) = Some appliedNode1 \<and>
   map (\<lambda>kv. (fst kv, intf_value (snd kv))) (node_inputs appliedNode1)
     = [(''a'', VNum 1), (''b'', VNum 1)] \<and>
   fst (snd (execute (testEngine (Some appliedNode1)) appliedGraph VUndefined 0)) = None \<and>
   run_events (snd (snd (execute (testEngine (Some appliedNode1)) appliedGraph VUndefined 0)))
     = [BeforeNodeCalculation appliedNode1 [(''a'', VNum 1), (''b'', VNum 1)],
        NodeCalculate appliedNode1 [(''a'', VNum 1), (''b'', VNum 1)],
        AfterNodeCalculation appliedNode1 [(''c'', VNum 2), (''d'', VNum 0)],
        TransferData (VNum 2) conn12,
        BeforeNodeCalculation appliedNode2 [(''a'', VNum 2), (''b'', VNum 1)],
        AfterNodeCalculation appliedNode2 [(''c'', VNum 3), (''d'', VNum 1)]] \<and>
   run_result (snd (snd (execute (testEngine (Some appliedNode1)) appliedGraph VUndefined 0)))
     = [(''n1'', [(''a'', VNum 1), (''b'', VNum 1)], [(''c'', VNum 2), (''d'', VNum 0)]),
        (''n2'', [(''a'', VNum 2), (''b'', VNum 1)], [(''c'', VNum 3), (''d'', VNum 1)])]"
proof -
  have "engine_updatedNode (testEngine (Some appliedNode1)) = Some appliedNode1"
    by (simp add: testEngine_def)
  moreover have "map (\<lambda>kv. (fst kv, intf_value (snd kv))) (node_inputs appliedNode1)
     = [(''a'', VNum 1), (''b'', VNum 1)]"
    by (simp add: appliedNode1_def testNode_def testInterface_def)
  moreover have "fst (snd (execute (testEngine (Some appliedNode1)) appliedGraph VUndefined 0)) = None"
    by code_simp
  moreover have "run_events (snd (snd (execute (testEngine (Some appliedNode1)) appliedGraph VUndefined 0)))
     = [BeforeNodeCalculation appliedNode1 [(''a'', VNum 1), (''b'', VNum 1)],
        NodeCalculate appliedNode1 [(''a'', VNum 1), (''b'', VNum 1)],
        AfterNodeCalculation appliedNode1 [(''c'', VNum 2), (''d'', VNum 0)],
        TransferData (VNum 2) conn12,
        BeforeNodeCalculation appliedNode2 [(''a'', VNum 2), (''b'', VNum 1)],
        AfterNodeCalculation appliedNode2 [(''c'', VNum 3), (''d'', VNum 1)]]"
    by (simp add: appliedGraph_def appliedNode1_def appliedNode2_def run_simps)
  moreover have "run_result (snd (snd (execute (testEngine (Some appliedNode1)) appliedGraph VUndefined 0)))
     = [(''n1'', [(''a'', VNum 1), (''b'', VNum 1)], [(''c'', VNum 2), (''d'', VNum 0)]),
        (''n2'', [(''a'', VNum 2), (''b'', VNum 1)], [(''c'', VNum 3), (''d'', VNum 1)])]"
    by code_simp
  ultimately show ?thesis by (intro conjI)
qed

text \<open>
  Claim C5, amended. In a run with an updated-node hint, at each visit of a node (with its
  resolved input values): the calculation step of a node with the hint's id is invoked,
  also when all its resolved inputs are unchanged; the step of a node with a changed
  resolved input is invoked; a node whose id is not the hint's, whose
  \<^verbatim>\<open>alwaysRecalculate\<close> flag is not set and whose resolved inputs are all unchanged is not
  invoked: its stored output values are announced at once, and they are its entry of the
  returned result unless a later step of the run writes that key (a later visit of a node
  of the same id, or a nested result that carries the key).
\<close>

theorem runGraph_with_hint:
  assumes run: "runGraph engine graph inputs calculationData nextId = (engine', err, st')"
    and hint: "engine_updatedNode engine = Some u"
    and visit: "run_events st' = pre @ BeforeNodeCalculation node inputValues # post"
  shows "inputValues =
           map (\<lambda>kv. (fst kv,
                  case map_of (stagedInputs (engine_transferData engine) inputs nextId pre)
                         (intf_id (snd kv)) of
                    Some v \<Rightarrow> v
                  | None \<Rightarrow> intf_value (snd kv)))
             (node_inputs node) \<and>
         (node_id node = node_id u \<longrightarrow> (\<exists>post'. post = NodeCalculate node inputValues # post')) \<and>
         ((\<exists>i < length (node_inputs node).
             case node_isInterfaceEqualTo node of
               Some isInterfaceEqualTo \<Rightarrow>
                 \<not> isInterfaceEqualTo (snd (node_inputs node ! i)) (snd (inputValues ! i))
             | None \<Rightarrow>
                 \<not> (case (snd (inputValues ! i), intf_value (snd (node_inputs node ! i))) of
                      (VArr a xs, VArr b ys) \<Rightarrow> a = b
                    | (VResult a xs, VResult b ys) \<Rightarrow> a = b
                    | (v, w) \<Rightarrow> v = w)) \<longrightarrow>
            (\<exists>post'. post = NodeCalculate node inputValues # post')) \<and>
         (node_id node \<noteq> node_id u \<and> \<not> node_alwaysRecalculate node \<and>
          \<not> (\<exists>i < length (node_inputs node).
                case node_isInterfaceEqualTo node of
                  Some isInterfaceEqualTo \<Rightarrow>
                    \<not> isInterfaceEqualTo (snd (node_inputs node ! i)) (snd (inputValues ! i))
                | None \<Rightarrow>
                    \<not> (case (snd (inputValues ! i), intf_value (snd (node_inputs node ! i))) of
                         (VArr a xs, VArr b ys) \<Rightarrow> a = b
                       | (VResult a xs, VResult b ys) \<Rightarrow> a = b
                       | (v, w) \<Rightarrow> v = w)) \<longrightarrow>
            (\<exists>post'. post = AfterNodeCalculation node
                               (map (\<lambda>kv. (fst kv, intf_value (snd kv))) (node_outputs node)) # post' \<and>
               (node_id node \<notin> nestedKeys (map (\<lambda>kv. (fst kv, intf_value (snd kv))) (node_outputs node)) \<and>
                (\<forall>m ov. AfterNodeCalculation m ov \<in> set post' \<longrightarrow>
                   node_id m \<noteq> node_id node \<and> node_id node \<notin> nestedKeys ov) \<longrightarrow>
                map_of (run_result st') (node_id node)
                  = Some (inputValues,
                          map (\<lambda>kv. (fst kv, intf_value (snd kv))) (node_outputs node)))))"
proof -
  let ?staged = "stagedInputs (engine_transferData engine) inputs nextId pre"
  let ?stored = "map (\<lambda>kv. (fst kv, intf_value (snd kv))) (node_outputs node)"
  let ?changed = "\<exists>i < length (node_inputs node).
             case node_isInterfaceEqualTo node of
               Some isInterfaceEqualTo \<Rightarrow>
                 \<not> isInterfaceEqualTo (snd (node_inputs node ! i)) (snd (inputValues ! i))
             | None \<Rightarrow>
                 \<not> (case (snd (inputValues ! i), intf_value (snd (node_inputs node ! i))) of
                      (VArr a xs, VArr b ys) \<Rightarrow> a = b
                    | (VResult a xs, VResult b ys) \<Rightarrow> a = b
                    | (v, w) \<Rightarrow> v = w)"
  note v = runGraph_visit[OF run visit]
  from v have iv: "inputValues = resolveInputs ?staged node" by blast
  from v obtain post' where post: "post =
            (if shouldCalculate (engine_updatedNode engine) node (inputsChanged ?staged node)
             then NodeCalculate node inputValues
             else AfterNodeCalculation node (currentOutputValues node)) # post'" by blast
  from v have entry: "\<forall>ov post'. post = AfterNodeCalculation node ov # post' \<longrightarrow>
            node_id node \<notin> nestedKeys ov \<longrightarrow>
            (\<forall>m ov'. AfterNodeCalculation m ov' \<in> set post' \<longrightarrow>
               node_id m \<noteq> node_id node \<and> node_id node \<notin> nestedKeys ov') \<longrightarrow>
            map_of (run_result st') (node_id node) = Some (inputValues, ov)" by blast
  have "shouldCalculate (engine_updatedNode engine) node (inputsChanged ?staged node) \<longleftrightarrow>
          engine_updatedNode engine = None \<or>
          (\<exists>u. engine_updatedNode engine = Some u \<and> node_id node = node_id u) \<or>
          node_alwaysRecalculate node \<or> ?changed"
    unfolding iv by (rule shouldCalculate_explicit)
  then have cond: "shouldCalculate (engine_updatedNode engine) node (inputsChanged ?staged node) \<longleftrightarrow>
          node_id node = node_id u \<or> node_alwaysRecalculate node \<or> ?changed"
    using hint by simp
  have a: "inputValues =
          map (\<lambda>kv. (fst kv, case map_of ?staged (intf_id (snd kv)) of
                         Some v \<Rightarrow> v | None \<Rightarrow> intf_value (snd kv)))
            (node_inputs node)"
    using iv by (simp add: resolveInputs_def resolveInput_def)
  have b: "\<exists>post'. post = NodeCalculate node inputValues # post'" if "node_id node = node_id u"
    using that post cond by simp
  have c: "\<exists>post'. post = NodeCalculate node inputValues # post'" if ?changed
    using that post cond by simp
  have d: "\<exists>post'. post = AfterNodeCalculation node ?stored # post' \<and>
           (node_id node \<notin> nestedKeys ?stored \<and>
            (\<forall>m ov. AfterNodeCalculation m ov \<in> set post' \<longrightarrow>
               node_id m \<noteq> node_id node \<and> node_id node \<notin> nestedKeys ov) \<longrightarrow>
            map_of (run_result st') (node_id node) = Some (inputValues, ?stored))"
    if "node_id node \<noteq> node_id u \<and> \<not> node_alwaysRecalculate node \<and> \<not> ?changed"
  proof -
    have "\<not> shouldCalculate (engine_updatedNode engine) node (inputsChanged ?staged node)"
      using that cond by blast
    then have "post = AfterNodeCalculation node ?stored # post'"
      using post by (simp add: currentOutputValues_def)
    then show ?thesis using entry by blast
  qed
  show ?thesis using a b c d by (intro conjI impI)
qed

lemma mem_eventNodes:
  "BeforeNodeCalculation m vals \<in> set evs \<or> NodeCalculate m vals \<in> set evs \<or>
   AfterNodeCalculation m vals \<in> set evs \<Longrightarrow> m \<in> set (eventNodes evs)"
proof (induction evs)
  case Nil
  then show ?case by simp
next
  case (Cons e evs)
  show ?case
  proof (cases "BeforeNodeCalculation m vals = e \<or> NodeCalculate m vals = e \<or>
                AfterNodeCalculation m vals = e")
    case True
    then show ?thesis by auto
  next
    case False
    then have "m \<in> set (eventNodes evs)" using Cons by auto
    then show ?thesis by (cases e) simp_all
  qed
qed

lemma mem_calculatedIds:
  "k \<in> set (calculatedIds evs) \<Longrightarrow> \<exists>m iv. NodeCalculate m iv \<in> set evs \<and> node_id m = k"
proof (induction evs)
  case Nil
  then show ?case by simp
next
  case (Cons e evs)
  show ?case
  proof (cases "k \<in> set (calculatedIds evs)")
    case True
    then show ?thesis using Cons.IH by auto
  next
    case False
    then show ?thesis using Cons.prems by (cases e) auto
  qed
qed

lemma distinct_concat_same:
  "distinct (map f (concat xss)) \<Longrightarrow> xs \<in> set xss \<Longrightarrow> ys \<in> set xss \<Longrightarrow>
     x \<in> set xs \<Longrightarrow> y \<in> set ys \<Longrightarrow> f x = f y \<Longrightarrow> xs = ys"
proof (induction xss)
  case Nil
  then show ?case by simp
next
  case (Cons zs xss)
  have d: "distinct (map f (concat xss))" and disj: "f ` set zs \<inter> f ` set (concat xss) = {}"
    using Cons.prems(1) by simp_all
  have inconcat: "w \<in> set (concat xss)" if "w \<in> set ws" "ws \<in> set xss" for w ws
    using that by auto
  show ?case
  proof (cases "xs = zs \<or> ys = zs")
    case False
    then show ?thesis using Cons.IH[OF d] Cons.prems by simp
  next
    case True
    show ?thesis
    proof (rule ccontr)
      assume ne: "xs \<noteq> ys"
      from True show False
      proof
        assume xz: "xs = zs"
        then have "ys \<in> set xss" using Cons.prems(3) ne by auto
        then have "y \<in> set (concat xss)" using Cons.prems(5) inconcat by blast
        then have "f y \<in> f ` set (concat xss)" by blast
        moreover have "f x \<in> f ` set zs" using Cons.prems(4) xz by blast
        ultimately show False using disj Cons.prems(6) by auto
      next
        assume yz: "ys = zs"
        then have "xs \<in> set xss" using Cons.prems(2) ne by auto
        then have "x \<in> set (concat xss)" using Cons.prems(4) inconcat by blast
        then have "f x \<in> f ` set (concat xss)" by blast
        moreover have "f y \<in> f ` set zs" using Cons.prems(5) yz by blast
        ultimately show False using disj Cons.prems(6) by auto
      qed
    qed
  qed
qed

text \<open>
  Claim C6. For every run with an updated-node hint, a sorted component that contains no
  node with the hint's id is skipped entirely: for each of its nodes, no calculation step
  is invoked and no before- or after-calculation notification fires for a node of that
  id, and the returned result has no entry under that id. Node ids are unique over the
  sorted components, and no calculation of the run returns a nested result with that key.
\<close>

theorem runGraph_skipped_component:
  assumes run: "runGraph engine graph inputs calculationData nextId = (engine', err, st')"
    and hint: "engine_updatedNode engine = Some u"
    and comp: "c \<in> set (componentsOf engine' graph)"
    and skipped: "\<forall>m \<in> set (calculationOrder c). node_id m \<noteq> node_id u"
    and n: "n \<in> set (calculationOrder c)"
    and ids: "distinct (map node_id (concat (map calculationOrder (componentsOf engine' graph))))"
    and nested: "\<forall>m ov. AfterNodeCalculation m ov \<in> set (run_events st') \<longrightarrow> node_id n \<notin> nestedKeys ov"
  shows "(\<forall>m vals. node_id m = node_id n \<longrightarrow>
            BeforeNodeCalculation m vals \<notin> set (run_events st') \<and>
            NodeCalculate m vals \<notin> set (run_events st') \<and>
            AfterNodeCalculation m vals \<notin> set (run_events st')) \<and>
         node_id n \<notin> set (calculatedIds (run_events st')) \<and>
         node_id n \<notin> fst ` set (run_result st')"
proof -
  have no: "node_id m \<noteq> node_id n" if m: "m \<in> set (eventNodes (run_events st'))" for m
  proof
    assume same: "node_id m = node_id n"
    from runGraph_eventNodes[OF run m] obtain c' where
      c': "c' \<in> set (componentsOf engine' graph)" "visited (engine_updatedNode engine) c'"
        "m \<in> set (calculationOrder c')"
      by blast
    have "calculationOrder c' = calculationOrder c"
      by (rule distinct_concat_same[OF ids _ _ c'(3) n same]) (use c' comp in auto)
    moreover obtain w where "w \<in> set (calculationOrder c')" "node_id w = node_id u"
      using c'(2) hint by (auto simp: visited_def find_None_iff)
    ultimately show False using skipped by auto
  qed
  have a: "\<forall>m vals. node_id m = node_id n \<longrightarrow>
            BeforeNodeCalculation m vals \<notin> set (run_events st') \<and>
            NodeCalculate m vals \<notin> set (run_events st') \<and>
            AfterNodeCalculation m vals \<notin> set (run_events st')"
    using no mem_eventNodes by blast
  have b: "node_id n \<notin> set (calculatedIds (run_events st'))"
  proof
    assume "node_id n \<in> set (calculatedIds (run_events st'))"
    then obtain m iv where "NodeCalculate m iv \<in> set (run_events st')" "node_id m = node_id n"
      using mem_calculatedIds by blast
    then show False using a by blast
  qed
  have "\<forall>e \<in> set (run_events st'). \<not> writes (node_id n) e"
  proof
    fix e assume e: "e \<in> set (run_events st')"
    show "\<not> writes (node_id n) e"
    proof (cases e)
      case (AfterNodeCalculation m ov)
      then have in_trace: "AfterNodeCalculation m ov \<in> set (run_events st')" using e by simp
      then have "node_id n \<notin> nestedKeys ov" using nested by blast
      moreover have "node_id m \<noteq> node_id n" using a in_trace by blast
      ultimately show ?thesis by (simp add: writes_def AfterNodeCalculation)
    qed (simp_all add: writes_def)
  qed
  from fold_resultStep_keep[OF this, of "([], [])"]
  have "map_of (run_result st') (node_id n) = None"
    unfolding runGraph_result[OF run] by simp
  then have c: "node_id n \<notin> fst ` set (run_result st')" by (simp add: map_of_eq_None_iff)
  show ?thesis using a b c by (intro conjI)
qed

text \<open>
  Claim C7. At each visit of a node, the resolved value of an input port is made of the
  values staged for the port's id by the hook calls that precede the visit in the run,
  each the hook's result for the value and the connection it was called with. If these
  connections all end in a port that allows multiple connections (and the run was given
  no value for the id), the resolved value is the array of the staged values in the order
  of the calls, created at the first write (the port's stored value when nothing was
  staged). If they all end in a port that does not, the resolved value is the value
  staged last: every write replaces what was staged (the run's given value, else the
  port's stored value, when nothing was staged).
\<close>

theorem runGraph_staged_inputs:
  assumes run: "runGraph engine graph inputs calculationData nextId = (engine', err, st')"
    and visit: "run_events st' = pre @ BeforeNodeCalculation node inputValues # post"
    and port: "i < length (node_inputs node)"
  shows "fst (inputValues ! i) = fst (node_inputs node ! i) \<and>
         ((\<forall>vc \<in> set (transfersTo (intf_id (snd (node_inputs node ! i))) pre).
              intf_allowMultipleConnections (conn_to (snd vc))) \<and>
          map_of inputs (intf_id (snd (node_inputs node ! i))) = None \<longrightarrow>
            (if transfersTo (intf_id (snd (node_inputs node ! i))) pre = []
             then snd (inputValues ! i) = intf_value (snd (node_inputs node ! i))
             else \<exists>a \<ge> nextId. snd (inputValues ! i) =
                    VArr a (map (\<lambda>vc. engine_transferData engine (fst vc) (snd vc))
                              (transfersTo (intf_id (snd (node_inputs node ! i))) pre)))) \<and>
         ((\<forall>vc \<in> set (transfersTo (intf_id (snd (node_inputs node ! i))) pre).
              \<not> intf_allowMultipleConnections (conn_to (snd vc))) \<longrightarrow>
            snd (inputValues ! i) =
              (if transfersTo (intf_id (snd (node_inputs node ! i))) pre = []
               then (case map_of inputs (intf_id (snd (node_inputs node ! i))) of
                       Some v \<Rightarrow> v
                     | None \<Rightarrow> intf_value (snd (node_inputs node ! i)))
               else engine_transferData engine
                      (fst (last (transfersTo (intf_id (snd (node_inputs node ! i))) pre)))
                      (snd (last (transfersTo (intf_id (snd (node_inputs node ! i))) pre)))))"
proof -
  let ?p = "intf_id (snd (node_inputs node ! i))"
  let ?staged = "stagedInputs (engine_transferData engine) inputs nextId pre"
  from runGraph_visit[OF run visit]
  have iv: "inputValues = resolveInputs ?staged node" by blast
  have at: "inputValues ! i = (fst (node_inputs node ! i),
              case map_of ?staged ?p of Some v \<Rightarrow> v | None \<Rightarrow> intf_value (snd (node_inputs node ! i)))"
    unfolding iv using port by (simp add: resolveInputs_def resolveInput_def)
  have a: "fst (inputValues ! i) = fst (node_inputs node ! i)" using at by simp
  have b: "if transfersTo ?p pre = []
           then snd (inputValues ! i) = intf_value (snd (node_inputs node ! i))
           else \<exists>a \<ge> nextId. snd (inputValues ! i) =
                    VArr a (map (\<lambda>vc. engine_transferData engine (fst vc) (snd vc)) (transfersTo ?p pre))"
    if "(\<forall>vc \<in> set (transfersTo ?p pre). intf_allowMultipleConnections (conn_to (snd vc))) \<and>
        map_of inputs ?p = None"
  proof -
    from that have m: "\<forall>vc \<in> set (transfersTo ?p pre). intf_allowMultipleConnections (conn_to (snd vc))"
      and none: "map_of inputs ?p = None" by blast+
    note s = staged_multiple[OF m none, of "engine_transferData engine" nextId]
    show ?thesis
    proof (cases "transfersTo ?p pre = []")
      case True
      then have "map_of ?staged ?p = None" using s by simp
      then show ?thesis using True at by simp
    next
      case False
      then obtain a where "a \<ge> nextId" "map_of ?staged ?p
          = Some (VArr a (map (\<lambda>vc. engine_transferData engine (fst vc) (snd vc)) (transfersTo ?p pre)))"
        using s by auto
      then show ?thesis using False at by auto
    qed
  qed
  have c: "snd (inputValues ! i) =
              (if transfersTo ?p pre = []
               then (case map_of inputs ?p of Some v \<Rightarrow> v | None \<Rightarrow> intf_value (snd (node_inputs node ! i)))
               else engine_transferData engine (fst (last (transfersTo ?p pre)))
                      (snd (last (transfersTo ?p pre))))"
    if "\<forall>vc \<in> set (transfersTo ?p pre). \<not> intf_allowMultipleConnections (conn_to (snd vc))"
    using staged_single[OF that, of "engine_transferData engine" inputs nextId] at by simp
  show ?thesis using a b c by (intro conjI impI)
qed

text \<open>
  The same graph after \<^verbatim>\<open>n1.inputs.a\<close> has been set to 5, run with \<^verbatim>\<open>n1\<close> as the updated
  node: the value that reaches \<^verbatim>\<open>n2.a\<close> is no longer the stored one.
\<close>

definition editedNode1 :: AbstractNode where
  "editedNode1 =
     appliedNode1\<lparr> node_inputs := [(''a'', testInterface ''n1'' ''a'' (VNum 5)),
                                     (''b'', testInterface ''n1'' ''b'' (VNum 1))] \<rparr>"

definition editedGraph :: Graph where
  "editedGraph = \<lparr> graph_id = ''g'', graph_nodes = [editedNode1, appliedNode2],
                   graph_connections = [conn12] \<rparr>"

definition editedInputs :: "(string \<times> val) list" where
  "editedInputs = [(''n1.a'', VNum 5), (''n1.b'', VNum 1), (''n2.b'', VNum 1)]"

definition editedRun :: "DependencyEngine \<times> error option \<times> RunState" where
  "editedRun = runGraph (testEngine (Some editedNode1)) editedGraph editedInputs VUndefined 0"

lemma editedRun_events:
  "run_events (snd (snd editedRun))
     = [BeforeNodeCalculation editedNode1 [(''a'', VNum 5), (''b'', VNum 1)],
        NodeCalculate editedNode1 [(''a'', VNum 5), (''b'', VNum 1)],
        AfterNodeCalculation editedNode1 [(''c'', VNum 6), (''d'', VNum 4)],
        TransferData (VNum 6) conn12] @
       BeforeNodeCalculation appliedNode2 [(''a'', VNum 6), (''b'', VNum 1)] #
       [NodeCalculate appliedNode2 [(''a'', VNum 6), (''b'', VNum 1)],
        AfterNodeCalculation appliedNode2 [(''c'', VNum 7), (''d'', VNum 5)]]"
  by (simp add: editedRun_def editedInputs_def editedGraph_def editedNode1_def appliedNode1_def
        appliedNode2_def run_simps)

theorem runGraph_with_hint_witness:
  "runGraph (testEngine (Some appliedNode1)) appliedGraph appliedInputs VUndefined 0
     = (fst appliedRun, fst (snd appliedRun), snd (snd appliedRun)) \<and>
   engine_updatedNode (testEngine (Some appliedNode1)) = Some appliedNode1 \<and>
   run_events (snd (snd appliedRun))
     = [] @ BeforeNodeCalculation appliedNode1 [(''a'', VNum 1), (''b'', VNum 1)] #
       [NodeCalculate appliedNode1 [(''a'', VNum 1), (''b'', VNum 1)],
        AfterNodeCalculation appliedNode1 [(''c'', VNum 2), (''d'', VNum 0)],
        TransferData (VNum 2) conn12,
        BeforeNodeCalculation appliedNode2 [(''a'', VNum 2), (''b'', VNum 1)],
        AfterNodeCalculation appliedNode2 [(''c'', VNum 3), (''d'', VNum 1)]] \<and>
   map (\<lambda>kv. (fst kv, intf_value (snd kv))) (node_inputs appliedNode1)
     = [(''a'', VNum 1), (''b'', VNum 1)] \<and>
   (\<exists>post'. [NodeCalculate appliedNode1 [(''a'', VNum 1), (''b'', VNum 1)],
              AfterNodeCalculation appliedNode1 [(''c'', VNum 2), (''d'', VNum 0)],
              TransferData (VNum 2) conn12,
              BeforeNodeCalculation appliedNode2 [(''a'', VNum 2), (''b'', VNum 1)],
              AfterNodeCalculation appliedNode2 [(''c'', VNum 3), (''d'', VNum 1)]]
            = NodeCalculate appliedNode1 [(''a'', VNum 1), (''b'', VNum 1)] # post') \<and>
   run_events (snd (snd appliedRun))
     = [BeforeNodeCalculation appliedNode1 [(''a'', VNum 1), (''b'', VNum 1)],
        NodeCalculate appliedNode1 [(''a'', VNum 1), (''b'', VNum 1)],
        AfterNodeCalculation appliedNode1 [(''c'', VNum 2), (''d'', VNum 0)],
        TransferData (VNum 2) conn12] @
       BeforeNodeCalculation appliedNode2 [(''a'', VNum 2), (''b'', VNum 1)] #
       [AfterNodeCalculation appliedNode2 [(''c'', VNum 3), (''d'', VNum 1)]] \<and>
   node_id appliedNode2 \<noteq> node_id appliedNode1 \<and>
   \<not> node_alwaysRecalculate appliedNode2 \<and>
   map (\<lambda>kv. (fst kv, intf_value (snd kv))) (node_inputs appliedNode2)
     = [(''a'', VNum 2), (''b'', VNum 1)] \<and>
   map_of (run_result (snd (snd appliedRun))) (node_id appliedNode2)
     = Some ([(''a'', VNum 2), (''b'', VNum 1)], [(''c'', VNum 3), (''d'', VNum 1)]) \<and>
   runGraph (testEngine (Some editedNode1)) editedGraph editedInputs VUndefined 0
     = (fst editedRun, fst (snd editedRun), snd (snd editedRun)) \<and>
   engine_updatedNode (testEngine (Some editedNode1)) = Some editedNode1 \<and>
   run_events (snd (snd editedRun))
     = [BeforeNodeCalculation editedNode1 [(''a'', VNum 5), (''b'', VNum 1)],
        NodeCalculate editedNode1 [(''a'', VNum 5), (''b'', VNum 1)],
        AfterNodeCalculation editedNode1 [(''c'', VNum 6), (''d'', VNum 4)],
        TransferData (VNum 6) conn12] @
       BeforeNodeCalculation appliedNode2 [(''a'', VNum 6), (''b'', VNum 1)] #
       [NodeCalculate appliedNode2 [(''a'', VNum 6), (''b'', VNum 1)],
        AfterNodeCalculation appliedNode2 [(''c'', VNum 7), (''d'', VNum 5)]] \<and>
   node_id appliedNode2 \<noteq> node_id editedNode1 \<and>
   (\<exists>post'. [NodeCalculate appliedNode2 [(''a'', VNum 6), (''b'', VNum 1)],
              AfterNodeCalculation appliedNode2 [(''c'', VNum 7), (''d'', VNum 5)]]
            = NodeCalculate appliedNode2 [(''a'', VNum 6), (''b'', VNum 1)] # post')"
proof -
  have run: "runGraph (testEngine (Some appliedNode1)) appliedGraph appliedInputs VUndefined 0
     = (fst appliedRun, fst (snd appliedRun), snd (snd appliedRun))"
    by (simp add: appliedRun_def)
  have hint: "engine_updatedNode (testEngine (Some appliedNode1)) = Some appliedNode1"
    by (simp add: testEngine_def)
  note tr2 = appliedRun_events
  have tr1: "run_events (snd (snd appliedRun))
     = [] @ BeforeNodeCalculation appliedNode1 [(''a'', VNum 1), (''b'', VNum 1)] #
       [NodeCalculate appliedNode1 [(''a'', VNum 1), (''b'', VNum 1)],
        AfterNodeCalculation appliedNode1 [(''c'', VNum 2), (''d'', VNum 0)],
        TransferData (VNum 2) conn12,
        BeforeNodeCalculation appliedNode2 [(''a'', VNum 2), (''b'', VNum 1)],
        AfterNodeCalculation appliedNode2 [(''c'', VNum 3), (''d'', VNum 1)]]"
    using tr2 by simp
  have stored1: "map (\<lambda>kv. (fst kv, intf_value (snd kv))) (node_inputs appliedNode1)
     = [(''a'', VNum 1), (''b'', VNum 1)]"
    by (simp add: appliedNode1_def testNode_def testInterface_def)
  note w1 = runGraph_with_hint[OF run hint tr1]
  have hinted: "\<exists>post'. [NodeCalculate appliedNode1 [(''a'', VNum 1), (''b'', VNum 1)],
              AfterNodeCalculation appliedNode1 [(''c'', VNum 2), (''d'', VNum 0)],
              TransferData (VNum 2) conn12,
              BeforeNodeCalculation appliedNode2 [(''a'', VNum 2), (''b'', VNum 1)],
              AfterNodeCalculation appliedNode2 [(''c'', VNum 3), (''d'', VNum 1)]]
            = NodeCalculate appliedNode1 [(''a'', VNum 1), (''b'', VNum 1)] # post'"
    using w1[THEN conjunct2, THEN conjunct1] by simp
  have other: "node_id appliedNode2 \<noteq> node_id appliedNode1"
    by (simp add: appliedNode1_def appliedNode2_def testNode_def)
  have flag: "\<not> node_alwaysRecalculate appliedNode2" by (simp add: appliedNode2_def testNode_def)
  have stored2: "map (\<lambda>kv. (fst kv, intf_value (snd kv))) (node_inputs appliedNode2)
     = [(''a'', VNum 2), (''b'', VNum 1)]"
    by (simp add: appliedNode2_def testNode_def testInterface_def)
  have unchanged: "\<not> (\<exists>i < length (node_inputs appliedNode2).
                case node_isInterfaceEqualTo appliedNode2 of
                  Some isInterfaceEqualTo \<Rightarrow>
                    \<not> isInterfaceEqualTo (snd (node_inputs appliedNode2 ! i))
                         (snd ([(''a'', VNum 2), (''b'', VNum 1)] ! i))
                | None \<Rightarrow>
                    \<not> (case (snd ([(''a'', VNum 2), (''b'', VNum 1)] ! i),
                               intf_value (snd (node_inputs appliedNode2 ! i))) of
                         (VArr a xs, VArr b ys) \<Rightarrow> a = b
                       | (VResult a xs, VResult b ys) \<Rightarrow> a = b
                       | (v, w) \<Rightarrow> v = w))"
    by (simp add: appliedNode2_def testNode_def testInterface_def All_less_Suc Ex_less_Suc)
  note w2 = runGraph_with_hint[OF run hint tr2]
  have outputs: "map (\<lambda>kv. (fst kv, intf_value (snd kv))) (node_outputs appliedNode2)
                  = [(''c'', VNum 3), (''d'', VNum 1)]"
    by (simp add: appliedNode2_def testNode_def testInterface_def)
  have nested: "node_id appliedNode2 \<notin> nestedKeys [(''c'', VNum 3), (''d'', VNum 1)]"
    by (simp add: nestedKeys_def property_def)
  from w2[THEN conjunct2, THEN conjunct2, THEN conjunct2, rule_format, OF conjI[OF other conjI[OF flag unchanged]]]
  have entry: "map_of (run_result (snd (snd appliedRun))) (node_id appliedNode2)
     = Some ([(''a'', VNum 2), (''b'', VNum 1)], [(''c'', VNum 3), (''d'', VNum 1)])"
    unfolding outputs using nested by auto
  have run3: "runGraph (testEngine (Some editedNode1)) editedGraph editedInputs VUndefined 0
     = (fst editedRun, fst (snd editedRun), snd (snd editedRun))"
    by (simp add: editedRun_def)
  have hint3: "engine_updatedNode (testEngine (Some editedNode1)) = Some editedNode1"
    by (simp add: testEngine_def)
  note tr3 = editedRun_events
  have other3: "node_id appliedNode2 \<noteq> node_id editedNode1"
    by (simp add: editedNode1_def appliedNode1_def appliedNode2_def testNode_def)
  have changed: "\<exists>i < length (node_inputs appliedNode2).
                case node_isInterfaceEqualTo appliedNode2 of
                  Some isInterfaceEqualTo \<Rightarrow>
                    \<not> isInterfaceEqualTo (snd (node_inputs appliedNode2 ! i))
                         (snd ([(''a'', VNum 6), (''b'', VNum 1)] ! i))
                | None \<Rightarrow>
                    \<not> (case (snd ([(''a'', VNum 6), (''b'', VNum 1)] ! i),
                               intf_value (snd (node_inputs appliedNode2 ! i))) of
                         (VArr a xs, VArr b ys) \<Rightarrow> a = b
                       | (VResult a xs, VResult b ys) \<Rightarrow> a = b
                       | (v, w) \<Rightarrow> v = w)"
    by (simp add: appliedNode2_def testNode_def testInterface_def All_less_Suc Ex_less_Suc)
  note w3 = runGraph_with_hint[OF run3 hint3 tr3]
  have invoked3: "\<exists>post'. [NodeCalculate appliedNode2 [(''a'', VNum 6), (''b'', VNum 1)],
              AfterNodeCalculation appliedNode2 [(''c'', VNum 7), (''d'', VNum 5)]]
            = NodeCalculate appliedNode2 [(''a'', VNum 6), (''b'', VNum 1)] # post'"
    using w3[THEN conjunct2, THEN conjunct2, THEN conjunct1] changed by blast
  from run hint tr1 stored1 hinted tr2 other flag stored2 entry run3 hint3 tr3 other3 invoked3
  show ?thesis by (intro conjI)
qed

text \<open>
  The test ``calculate nodes only in connected components'': \<^verbatim>\<open>n1.c\<close> is connected to
  \<^verbatim>\<open>n2.a\<close>, \<^verbatim>\<open>n3\<close> stands alone, and \<^verbatim>\<open>n1\<close> is the updated node.
\<close>

definition componentsGraph :: Graph where
  "componentsGraph = \<lparr> graph_id = ''g'',
                        graph_nodes = [testNode ''n1'', testNode ''n2'', testNode ''n3''],
                        graph_connections = [conn12] \<rparr>"

definition componentsInputs :: "(string \<times> val) list" where
  "componentsInputs = [(''n1.a'', VNum 1), (''n1.b'', VNum 1), (''n2.b'', VNum 1),
                       (''n3.a'', VNum 1), (''n3.b'', VNum 1)]"

definition componentsRun :: "DependencyEngine \<times> error option \<times> RunState" where
  "componentsRun =
     runGraph (testEngine (Some (testNode ''n1''))) componentsGraph componentsInputs VUndefined 0"

lemma componentsRun_events:
  "run_events (snd (snd componentsRun))
     = [BeforeNodeCalculation (testNode ''n1'') [(''a'', VNum 1), (''b'', VNum 1)],
        NodeCalculate (testNode ''n1'') [(''a'', VNum 1), (''b'', VNum 1)],
        AfterNodeCalculation (testNode ''n1'') [(''c'', VNum 2), (''d'', VNum 0)],
        TransferData (VNum 2) conn12,
        BeforeNodeCalculation (testNode ''n2'') [(''a'', VNum 2), (''b'', VNum 1)],
        NodeCalculate (testNode ''n2'') [(''a'', VNum 2), (''b'', VNum 1)],
        AfterNodeCalculation (testNode ''n2'') [(''c'', VNum 3), (''d'', VNum 1)]]"
  by (simp add: componentsRun_def componentsInputs_def componentsGraph_def run_simps)

lemma componentsRun_orders:
  "map calculationOrder (componentsOf (fst componentsRun) componentsGraph)
     = [[testNode ''n1'', testNode ''n2''], [testNode ''n3'']]"
  by (simp add: componentsRun_def componentsInputs_def componentsGraph_def run_simps)

theorem runGraph_skipped_component_witness:
  "runGraph (testEngine (Some (testNode ''n1''))) componentsGraph componentsInputs VUndefined 0
     = (fst componentsRun, fst (snd componentsRun), snd (snd componentsRun)) \<and>
   engine_updatedNode (testEngine (Some (testNode ''n1''))) = Some (testNode ''n1'') \<and>
   componentsOf (fst componentsRun) componentsGraph ! 1
     \<in> set (componentsOf (fst componentsRun) componentsGraph) \<and>
   calculationOrder (componentsOf (fst componentsRun) componentsGraph ! 1) = [testNode ''n3''] \<and>
   node_id (testNode ''n3'') \<noteq> node_id (testNode ''n1'') \<and>
   distinct (map node_id (concat (map calculationOrder
      (componentsOf (fst componentsRun) componentsGraph)))) \<and>
   node_id (testNode ''n3'') \<notin> set (calculatedIds (run_events (snd (snd componentsRun)))) \<and>
   BeforeNodeCalculation (testNode ''n3'') [(''a'', VNum 1), (''b'', VNum 1)]
     \<notin> set (run_events (snd (snd componentsRun))) \<and>
   node_id (testNode ''n3'') \<notin> fst ` set (run_result (snd (snd componentsRun)))"
proof -
  let ?comps = "componentsOf (fst componentsRun) componentsGraph"
  have run: "runGraph (testEngine (Some (testNode ''n1''))) componentsGraph componentsInputs VUndefined 0
     = (fst componentsRun, fst (snd componentsRun), snd (snd componentsRun))"
    by (simp add: componentsRun_def)
  have hint: "engine_updatedNode (testEngine (Some (testNode ''n1''))) = Some (testNode ''n1'')"
    by (simp add: testEngine_def)
  have len: "length ?comps = 2"
    using arg_cong[OF componentsRun_orders, of length] by simp
  then have comp: "?comps ! 1 \<in> set ?comps" by simp
  have order: "calculationOrder (?comps ! 1) = [testNode ''n3'']"
    using arg_cong[OF componentsRun_orders, of "\<lambda>xs. xs ! 1"] len by simp
  have other: "node_id (testNode ''n3'') \<noteq> node_id (testNode ''n1'')" by (simp add: testNode_def)
  have skipped: "\<forall>m \<in> set (calculationOrder (?comps ! 1)). node_id m \<noteq> node_id (testNode ''n1'')"
    unfolding order using other by simp
  have n: "testNode ''n3'' \<in> set (calculationOrder (?comps ! 1))" unfolding order by simp
  have "concat (map calculationOrder ?comps) = [testNode ''n1'', testNode ''n2'', testNode ''n3'']"
    unfolding componentsRun_orders by simp
  then have ids: "distinct (map node_id (concat (map calculationOrder ?comps)))"
    by (simp add: testNode_def)
  have nested: "\<forall>m ov. AfterNodeCalculation m ov \<in> set (run_events (snd (snd componentsRun))) \<longrightarrow>
                  node_id (testNode ''n3'') \<notin> nestedKeys ov"
    unfolding componentsRun_events by (auto simp: nestedKeys_def property_def)
  note w = runGraph_skipped_component[OF run hint comp skipped n ids nested]
  have a: "node_id (testNode ''n3'') \<notin> set (calculatedIds (run_events (snd (snd componentsRun))))"
    using w by blast
  have b: "BeforeNodeCalculation (testNode ''n3'') [(''a'', VNum 1), (''b'', VNum 1)]
     \<notin> set (run_events (snd (snd componentsRun)))"
    using w by blast
  have c: "node_id (testNode ''n3'') \<notin> fst ` set (run_result (snd (snd componentsRun)))"
    using w by blast
  from run hint comp order other ids a b c show ?thesis by (intro conjI)
qed

text \<open>
  The test ``allows using multiple connections'': both outputs of \<^verbatim>\<open>n1\<close> are connected
  to the input \<^verbatim>\<open>a\<close> of a node whose port allows multiple connections.
\<close>

definition multiInterface :: NodeInterface where
  "multiInterface = (testInterface ''m'' ''a'' (VArr 0 [VNum 0]))
                      \<lparr> intf_allowMultipleConnections := True, intf_connectionCount := 2 \<rparr>"

definition multiNode :: AbstractNode where
  "multiNode =
     \<lparr> node_id = ''m'',
       node_inputs = [(''a'', multiInterface)],
       node_outputs = [],
       node_calculate = Some (\<lambda>inputValues globalValues. Inr []),
       node_alwaysRecalculate = False,
       node_isInterfaceEqualTo = None \<rparr>"

definition connC :: IConnection where
  "connC = testConnection ''x'' (testInterface ''n1'' ''c'' VUndefined) multiInterface"

definition connD :: IConnection where
  "connD = testConnection ''y'' (testInterface ''n1'' ''d'' VUndefined) multiInterface"

definition multiGraph :: Graph where
  "multiGraph = \<lparr> graph_id = ''g'', graph_nodes = [testNode ''n1'', multiNode],
                  graph_connections = [connC, connD] \<rparr>"

definition multiRun :: "DependencyEngine \<times> error option \<times> RunState" where
  "multiRun = runGraph (testEngine None) multiGraph [(''n1.a'', VNum 1), (''n1.b'', VNum 1)] VUndefined 1"

lemma multiRun_events:
  "run_events (snd (snd multiRun))
     = [BeforeNodeCalculation (testNode ''n1'') [(''a'', VNum 1), (''b'', VNum 1)],
        NodeCalculate (testNode ''n1'') [(''a'', VNum 1), (''b'', VNum 1)],
        AfterNodeCalculation (testNode ''n1'') [(''c'', VNum 2), (''d'', VNum 0)],
        TransferData (VNum 2) connC,
        TransferData (VNum 0) connD] @
       BeforeNodeCalculation multiNode [(''a'', VArr 1 [VNum 2, VNum 0])] #
       [NodeCalculate multiNode [(''a'', VArr 1 [VNum 2, VNum 0])],
        AfterNodeCalculation multiNode []]"
  by (simp add: multiRun_def multiGraph_def multiNode_def multiInterface_def connC_def connD_def
        run_simps)

theorem runGraph_staged_inputs_witness:
  "runGraph (testEngine None) multiGraph [(''n1.a'', VNum 1), (''n1.b'', VNum 1)] VUndefined 1
     = (fst multiRun, fst (snd multiRun), snd (snd multiRun)) \<and>
   run_events (snd (snd multiRun))
     = [BeforeNodeCalculation (testNode ''n1'') [(''a'', VNum 1), (''b'', VNum 1)],
        NodeCalculate (testNode ''n1'') [(''a'', VNum 1), (''b'', VNum 1)],
        AfterNodeCalculation (testNode ''n1'') [(''c'', VNum 2), (''d'', VNum 0)],
        TransferData (VNum 2) connC,
        TransferData (VNum 0) connD] @
       BeforeNodeCalculation multiNode [(''a'', VArr 1 [VNum 2, VNum 0])] #
       [NodeCalculate multiNode [(''a'', VArr 1 [VNum 2, VNum 0])],
        AfterNodeCalculation multiNode []] \<and>
   0 < length (node_inputs multiNode) \<and>
   transfersTo (intf_id (snd (node_inputs multiNode ! 0)))
     [BeforeNodeCalculation (testNode ''n1'') [(''a'', VNum 1), (''b'', VNum 1)],
      NodeCalculate (testNode ''n1'') [(''a'', VNum 1), (''b'', VNum 1)],
      AfterNodeCalculation (testNode ''n1'') [(''c'', VNum 2), (''d'', VNum 0)],
      TransferData (VNum 2) connC,
      TransferData (VNum 0) connD] = [(VNum 2, connC), (VNum 0, connD)] \<and>
   intf_allowMultipleConnections (conn_to connC) \<and>
   intf_allowMultipleConnections (conn_to connD) \<and>
   map_of [(''n1.a'', VNum 1), (''n1.b'', VNum 1)] (intf_id (snd (node_inputs multiNode ! 0))) = None \<and>
   (\<exists>a \<ge> 1. snd ([(''a'', VArr 1 [VNum 2, VNum 0])] ! 0) = VArr a [VNum 2, VNum 0]) \<and>
   runGraph (testEngine (Some appliedNode1)) appliedGraph appliedInputs VUndefined 0
     = (fst appliedRun, fst (snd appliedRun), snd (snd appliedRun)) \<and>
   run_events (snd (snd appliedRun))
     = [BeforeNodeCalculation appliedNode1 [(''a'', VNum 1), (''b'', VNum 1)],
        NodeCalculate appliedNode1 [(''a'', VNum 1), (''b'', VNum 1)],
        AfterNodeCalculation appliedNode1 [(''c'', VNum 2), (''d'', VNum 0)],
        TransferData (VNum 2) conn12] @
       BeforeNodeCalculation appliedNode2 [(''a'', VNum 2), (''b'', VNum 1)] #
       [AfterNodeCalculation appliedNode2 [(''c'', VNum 3), (''d'', VNum 1)]] \<and>
   0 < length (node_inputs appliedNode2) \<and>
   transfersTo (intf_id (snd (node_inputs appliedNode2 ! 0)))
     [BeforeNodeCalculation appliedNode1 [(''a'', VNum 1), (''b'', VNum 1)],
      NodeCalculate appliedNode1 [(''a'', VNum 1), (''b'', VNum 1)],
      AfterNodeCalculation appliedNode1 [(''c'', VNum 2), (''d'', VNum 0)],
      TransferData (VNum 2) conn12] = [(VNum 2, conn12)] \<and>
   \<not> intf_allowMultipleConnections (conn_to conn12) \<and>
   snd ([(''a'', VNum 2), (''b'', VNum 1)] ! 0)
     = engine_transferData (testEngine (Some appliedNode1)) (VNum 2) conn12"
proof -
  let ?pre = "[BeforeNodeCalculation (testNode ''n1'') [(''a'', VNum 1), (''b'', VNum 1)],
      NodeCalculate (testNode ''n1'') [(''a'', VNum 1), (''b'', VNum 1)],
      AfterNodeCalculation (testNode ''n1'') [(''c'', VNum 2), (''d'', VNum 0)],
      TransferData (VNum 2) connC,
      TransferData (VNum 0) connD]"
  have run: "runGraph (testEngine None) multiGraph [(''n1.a'', VNum 1), (''n1.b'', VNum 1)] VUndefined 1
     = (fst multiRun, fst (snd multiRun), snd (snd multiRun))"
    by (simp add: multiRun_def)
  note tr = multiRun_events
  have port: "0 < length (node_inputs multiNode)" by (simp add: multiNode_def)
  have ts: "transfersTo (intf_id (snd (node_inputs multiNode ! 0))) ?pre
              = [(VNum 2, connC), (VNum 0, connD)]"
    by (simp add: transfersTo_def List.map_filter_def multiNode_def multiInterface_def connC_def
          connD_def testConnection_def testInterface_def)
  have mC: "intf_allowMultipleConnections (conn_to connC)"
    by (simp add: connC_def testConnection_def multiInterface_def)
  have mD: "intf_allowMultipleConnections (conn_to connD)"
    by (simp add: connD_def testConnection_def multiInterface_def)
  have none: "map_of [(''n1.a'', VNum 1), (''n1.b'', VNum 1)]
                (intf_id (snd (node_inputs multiNode ! 0))) = None"
    by (simp add: multiNode_def multiInterface_def testInterface_def)
  have multi: "\<forall>vc \<in> set (transfersTo (intf_id (snd (node_inputs multiNode ! 0))) ?pre).
                 intf_allowMultipleConnections (conn_to (snd vc))"
    unfolding ts using mC mD by simp
  note w = runGraph_staged_inputs[OF run tr port]
  from w[THEN conjunct2, THEN conjunct1, rule_format, OF conjI[OF multi none]]
  have array: "\<exists>a \<ge> 1. snd ([(''a'', VArr 1 [VNum 2, VNum 0])] ! 0) = VArr a [VNum 2, VNum 0]"
    unfolding ts by (simp add: testEngine_def)
  let ?pre2 = "[BeforeNodeCalculation appliedNode1 [(''a'', VNum 1), (''b'', VNum 1)],
      NodeCalculate appliedNode1 [(''a'', VNum 1), (''b'', VNum 1)],
      AfterNodeCalculation appliedNode1 [(''c'', VNum 2), (''d'', VNum 0)],
      TransferData (VNum 2) conn12]"
  have run2: "runGraph (testEngine (Some appliedNode1)) appliedGraph appliedInputs VUndefined 0
     = (fst appliedRun, fst (snd appliedRun), snd (snd appliedRun))"
    by (simp add: appliedRun_def)
  note tr2 = appliedRun_events
  have port2: "0 < length (node_inputs appliedNode2)" by (simp add: appliedNode2_def testNode_def)
  have ts2: "transfersTo (intf_id (snd (node_inputs appliedNode2 ! 0))) ?pre2 = [(VNum 2, conn12)]"
    by (simp add: transfersTo_def List.map_filter_def appliedNode2_def testNode_def conn12_def
          testConnection_def testInterface_def)
  have s12: "\<not> intf_allowMultipleConnections (conn_to conn12)"
    by (simp add: conn12_def testConnection_def testInterface_def)
  have single: "\<forall>vc \<in> set (transfersTo (intf_id (snd (node_inputs appliedNode2 ! 0))) ?pre2).
                 \<not> intf_allowMultipleConnections (conn_to (snd vc))"
    unfolding ts2 using s12 by simp
  note w2 = runGraph_staged_inputs[OF run2 tr2 port2]
  from w2[THEN conjunct2, THEN conjunct2, THEN mp, OF single]
  have last: "snd ([(''a'', VNum 2), (''b'', VNum 1)] ! 0)
     = engine_transferData (testEngine (Some appliedNode1)) (VNum 2) conn12"
    unfolding ts2 by simp
  from run tr port ts mC mD none array run2 tr2 port2 ts2 s12 last
  show ?thesis by (intro conjI)
qed


section \<open>Result application\<close>

text \<open>
  Modelled from the spec: \<^verbatim>\<open>applyResult(result, graphOwner)\<close> of the engine package, which
  is not among the sources (only its test is). For every entry in the result, the node
  is looked up by id in the graph owner; if it is found, each output value is written into
  the corresponding output port's stored value (a key without a port of the node has no
  corresponding port and writes nothing, as in the test); if the node id is unknown, the
  entry is skipped. The operation never raises an error.
\<close>

definition setOutputValue :: "string \<Rightarrow> val \<Rightarrow> AbstractNode \<Rightarrow> AbstractNode" where
  "setOutputValue key v node =
     node\<lparr> node_outputs :=
             map (\<lambda>kv. if fst kv = key then (fst kv, (snd kv)\<lparr> intf_value := v \<rparr>) else kv)
                 (node_outputs node) \<rparr>"

definition writeOutputs :: "(string \<times> val) list \<Rightarrow> AbstractNode \<Rightarrow> AbstractNode" where
  "writeOutputs outputs node = fold (\<lambda>kv n. setOutputValue (fst kv) (snd kv) n) outputs node"

fun replaceFirst :: "('a \<Rightarrow> bool) \<Rightarrow> ('a \<Rightarrow> 'a) \<Rightarrow> 'a list \<Rightarrow> 'a list" where
  "replaceFirst P f [] = []"
| "replaceFirst P f (x # xs) = (if P x then f x # xs else x # replaceFirst P f xs)"

definition applyEntry ::
  "string \<times> (string \<times> val) list \<times> (string \<times> val) list \<Rightarrow> AbstractNode list \<Rightarrow> AbstractNode list" where
  "applyEntry entry nodes =
     replaceFirst (\<lambda>n. node_id n = fst entry) (writeOutputs (snd (snd entry))) nodes"

text \<open>
  Modelled from the spec: the entries of the result are applied in turn; nothing is
  raised (the error component of the outcome is always empty).
\<close>

definition applyResult :: "CalculationResult \<Rightarrow> Graph \<Rightarrow> error option \<times> Graph" where
  "applyResult result graphOwner =
     (None, graphOwner\<lparr> graph_nodes := fold applyEntry result (graph_nodes graphOwner) \<rparr>)"

lemma setOutputValue_id [simp]: "node_id (setOutputValue k v n) = node_id n"
  by (simp add: setOutputValue_def)

lemma writeOutputs_id [simp]: "node_id (writeOutputs outputs n) = node_id n"
  unfolding writeOutputs_def by (induction outputs arbitrary: n) simp_all

lemma writeOutputs_keys:
  "map fst (node_outputs (writeOutputs outputs n)) = map fst (node_outputs n)"
  unfolding writeOutputs_def
  by (induction outputs arbitrary: n) (simp_all add: setOutputValue_def comp_def)

lemma writeOutputs_written:
  assumes "distinct (map fst outputs)" and "(key, v) \<in> set outputs"
    and "(key, intf) \<in> set (node_outputs n)"
  shows "(key, intf\<lparr> intf_value := v \<rparr>) \<in> set (node_outputs (writeOutputs outputs n))"
  using assms unfolding writeOutputs_def
proof (induction outputs arbitrary: n intf)
  case Nil
  then show ?case by simp
next
  case (Cons kv outputs)
  show ?case
  proof (cases "kv = (key, v)")
    case True
    then have later: "key \<notin> fst ` set outputs" using Cons.prems(1) by auto
    have now: "(key, intf\<lparr> intf_value := v \<rparr>) \<in> set (node_outputs (setOutputValue key v n))"
      using Cons.prems(3) by (force simp: setOutputValue_def)
    have keep: "(key, i) \<in> set (node_outputs m) \<Longrightarrow>
        (key, i) \<in> set (node_outputs (fold (\<lambda>kv n. setOutputValue (fst kv) (snd kv) n) outs m))"
      if "key \<notin> fst ` set outs" for outs m i
      using that
    proof (induction outs arbitrary: m)
      case Nil
      then show ?case by simp
    next
      case (Cons a outs)
      have "(key, i) \<in> set (node_outputs (setOutputValue (fst a) (snd a) m))"
        using Cons.prems by (force simp: setOutputValue_def)
      then show ?case using Cons.IH Cons.prems by simp
    qed
    show ?thesis using keep[OF later now] True by simp
  next
    case False
    then have in_rest: "(key, v) \<in> set outputs" using Cons.prems(2) by auto
    have d: "distinct (map fst outputs)" using Cons.prems(1) by simp
    have "key \<in> fst ` set outputs" using in_rest by force
    moreover have "fst kv \<notin> fst ` set outputs" using Cons.prems(1) by simp
    ultimately have "fst kv \<noteq> key" by metis
    then have "(key, intf) \<in> set (node_outputs (setOutputValue (fst kv) (snd kv) n))"
      using Cons.prems(3) by (force simp: setOutputValue_def)
    from Cons.IH[OF d in_rest this] show ?thesis by simp
  qed
qed

lemma replaceFirst_ids:
  "(\<And>x. g (f x) = g x) \<Longrightarrow> map g (replaceFirst P f xs) = map g xs"
  by (induction xs) auto

lemma replaceFirst_none:
  "\<forall>x \<in> set xs. \<not> P x \<Longrightarrow> replaceFirst P f xs = xs"
  by (induction xs) auto

lemma replaceFirst_set:
  "x \<in> set xs \<Longrightarrow> \<not> P x \<Longrightarrow> x \<in> set (replaceFirst P f xs)"
  by (induction xs) auto

lemma replaceFirst_hit:
  "distinct (map g xs) \<Longrightarrow> x \<in> set xs \<Longrightarrow> f x \<in> set (replaceFirst (\<lambda>y. g y = g x) f xs)"
  by (induction xs) force+

lemma applyEntry_ids: "map node_id (applyEntry entry nodes) = map node_id nodes"
  unfolding applyEntry_def by (rule replaceFirst_ids) simp

lemma fold_applyEntry_ids: "map node_id (fold applyEntry result nodes) = map node_id nodes"
  by (induction result arbitrary: nodes) (simp_all add: applyEntry_ids)

lemma fold_applyEntry_other:
  "n \<in> set nodes \<Longrightarrow> node_id n \<notin> fst ` set result \<Longrightarrow> n \<in> set (fold applyEntry result nodes)"
proof (induction result arbitrary: nodes)
  case Nil
  then show ?case by simp
next
  case (Cons e result)
  have "n \<in> set (applyEntry e nodes)"
    unfolding applyEntry_def using Cons.prems by (intro replaceFirst_set) auto
  then show ?case using Cons.IH Cons.prems by simp
qed

lemma fold_applyEntry_unknown:
  "\<forall>entry \<in> set result. fst entry \<notin> node_id ` set nodes \<Longrightarrow> fold applyEntry result nodes = nodes"
proof (induction result)
  case Nil
  then show ?case by simp
next
  case (Cons e result)
  have "applyEntry e nodes = nodes"
    unfolding applyEntry_def using Cons.prems by (intro replaceFirst_none) force
  then show ?case using Cons by simp
qed

text \<open>
  Claim C9. For every calculation result and graph owner, \<^verbatim>\<open>applyResult\<close> writes, for
  each result entry whose node id exists in the graph owner, every listed output value
  into that node's corresponding output port's stored value; an entry whose node id is
  not found is skipped (nodes not named by the result stay as they are; a result naming
  no node of the owner changes nothing), and the operation never raises an error.
\<close>

theorem applyResult_writes_outputs:
  assumes ids: "distinct (map node_id (graph_nodes graphOwner))"
    and keys: "distinct (map fst result)"
  shows "fst (applyResult result graphOwner) = None \<and>
         map node_id (graph_nodes (snd (applyResult result graphOwner)))
           = map node_id (graph_nodes graphOwner) \<and>
         (\<forall>n \<in> set (graph_nodes graphOwner). \<forall>inputs outputs key v intf.
            (node_id n, inputs, outputs) \<in> set result \<longrightarrow> distinct (map fst outputs) \<longrightarrow>
            (key, v) \<in> set outputs \<longrightarrow> (key, intf) \<in> set (node_outputs n) \<longrightarrow>
            (\<exists>n' \<in> set (graph_nodes (snd (applyResult result graphOwner))).
               node_id n' = node_id n \<and> (key, intf\<lparr> intf_value := v \<rparr>) \<in> set (node_outputs n'))) \<and>
         (\<forall>n \<in> set (graph_nodes graphOwner).
            node_id n \<notin> fst ` set result \<longrightarrow> n \<in> set (graph_nodes (snd (applyResult result graphOwner)))) \<and>
         ((\<forall>entry \<in> set result. fst entry \<notin> node_id ` set (graph_nodes graphOwner)) \<longrightarrow>
            snd (applyResult result graphOwner) = graphOwner)"
proof -
  let ?nodes = "graph_nodes graphOwner"
  have written: "\<exists>n' \<in> set (fold applyEntry result nodes).
               node_id n' = node_id n \<and> (key, intf\<lparr> intf_value := v \<rparr>) \<in> set (node_outputs n')"
    if "distinct (map node_id nodes)" "distinct (map fst result)" "n \<in> set nodes"
      "(node_id n, inputs, outputs) \<in> set result" "distinct (map fst outputs)"
      "(key, v) \<in> set outputs" "(key, intf) \<in> set (node_outputs n)"
    for nodes result n inputs outputs key v intf
    using that
  proof (induction result arbitrary: nodes n intf)
    case Nil
    then show ?case by simp
  next
    case (Cons e result)
    show ?case
    proof (cases "e = (node_id n, inputs, outputs)")
      case True
      have hit: "writeOutputs outputs n \<in> set (applyEntry e nodes)"
        unfolding applyEntry_def True fst_conv snd_conv
        using Cons.prems(1,3) by (rule replaceFirst_hit)
      have w: "(key, intf\<lparr> intf_value := v \<rparr>) \<in> set (node_outputs (writeOutputs outputs n))"
        using Cons.prems(5,6,7) by (rule writeOutputs_written)
      have "node_id n \<notin> fst ` set result" using Cons.prems(2) True by auto
      then have "writeOutputs outputs n \<in> set (fold applyEntry result (applyEntry e nodes))"
        using hit by (intro fold_applyEntry_other) simp_all
      then show ?thesis using w
        by (intro bexI[of _ "writeOutputs outputs n"]) simp_all
    next
      case False
      then have inr: "(node_id n, inputs, outputs) \<in> set result" using Cons.prems(4) by auto
      have "node_id n \<in> fst ` set result" using inr by force
      moreover have "fst e \<notin> fst ` set result" using Cons.prems(2) by simp
      ultimately have "fst e \<noteq> node_id n" by metis
      then have "n \<in> set (applyEntry e nodes)"
        unfolding applyEntry_def using Cons.prems(3) by (intro replaceFirst_set) auto
      moreover have "distinct (map node_id (applyEntry e nodes))"
        using Cons.prems(1) by (simp add: applyEntry_ids)
      moreover have "distinct (map fst result)" using Cons.prems(2) by simp
      ultimately show ?thesis
        using Cons.IH[of "applyEntry e nodes" n intf] inr Cons.prems(5,6,7) by simp
    qed
  qed
  have a: "fst (applyResult result graphOwner) = None" by (simp add: applyResult_def)
  have b: "map node_id (graph_nodes (snd (applyResult result graphOwner))) = map node_id ?nodes"
    by (simp add: applyResult_def fold_applyEntry_ids)
  have c: "\<forall>n \<in> set ?nodes. \<forall>inputs outputs key v intf.
            (node_id n, inputs, outputs) \<in> set result \<longrightarrow> distinct (map fst outputs) \<longrightarrow>
            (key, v) \<in> set outputs \<longrightarrow> (key, intf) \<in> set (node_outputs n) \<longrightarrow>
            (\<exists>n' \<in> set (graph_nodes (snd (applyResult result graphOwner))).
               node_id n' = node_id n \<and> (key, intf\<lparr> intf_value := v \<rparr>) \<in> set (node_outputs n'))"
    using written[OF ids keys] by (simp add: applyResult_def)
  have d: "\<forall>n \<in> set ?nodes.
            node_id n \<notin> fst ` set result \<longrightarrow> n \<in> set (graph_nodes (snd (applyResult result graphOwner)))"
    by (simp add: applyResult_def fold_applyEntry_other)
  have e: "(\<forall>entry \<in> set result. fst entry \<notin> node_id ` set ?nodes) \<longrightarrow>
            snd (applyResult result graphOwner) = graphOwner"
    by (simp add: applyResult_def fold_applyEntry_unknown)
  show ?thesis using a b c d e by (intro conjI)
qed


text \<open>
  The test ``should apply the result'': a graph with one \<^verbatim>\<open>TestNode\<close>, and a result with
  an entry for it and one for a node that is not in the graph.
\<close>

definition applyGraph :: Graph where
  "applyGraph = \<lparr> graph_id = ''g'', graph_nodes = [testNode ''n1''], graph_connections = [] \<rparr>"

definition applyCalculationResult :: CalculationResult where
  "applyCalculationResult =
     [(''n1'', [(''a'', VNum 5), (''b'', VNum 10)], [(''c'', VNum 15), (''d'', VNum (- 5))]),
      (''removed'', [(''a'', VNum 1)], [(''c'', VNum 2)])]"

theorem applyResult_writes_outputs_witness:
  "distinct (map node_id (graph_nodes applyGraph)) \<and>
   distinct (map fst applyCalculationResult) \<and>
   fst (applyResult applyCalculationResult applyGraph) = None \<and>
   (''c'', (testInterface ''n1'' ''c'' VUndefined)\<lparr> intf_value := VNum 15 \<rparr>)
     \<in> set (concat (map node_outputs (graph_nodes (snd (applyResult applyCalculationResult applyGraph)))))"
proof -
  have d1: "distinct (map node_id (graph_nodes applyGraph))" by (simp add: applyGraph_def)
  have d2: "distinct (map fst applyCalculationResult)" by (simp add: applyCalculationResult_def)
  note w = applyResult_writes_outputs[OF d1 d2]
  have none: "fst (applyResult applyCalculationResult applyGraph) = None"
    using w by (rule conjunct1)
  have written: "\<forall>n \<in> set (graph_nodes applyGraph). \<forall>inputs outputs key v intf.
      (node_id n, inputs, outputs) \<in> set applyCalculationResult \<longrightarrow> distinct (map fst outputs) \<longrightarrow>
      (key, v) \<in> set outputs \<longrightarrow> (key, intf) \<in> set (node_outputs n) \<longrightarrow>
      (\<exists>n' \<in> set (graph_nodes (snd (applyResult applyCalculationResult applyGraph))).
         node_id n' = node_id n \<and> (key, intf\<lparr> intf_value := v \<rparr>) \<in> set (node_outputs n'))"
    using w by (rule conjunct1[OF conjunct2[OF conjunct2]])
  have n: "testNode ''n1'' \<in> set (graph_nodes applyGraph)" by (simp add: applyGraph_def)
  have e: "(node_id (testNode ''n1''), [(''a'', VNum 5), (''b'', VNum 10)], [(''c'', VNum 15), (''d'', VNum (- 5))])
             \<in> set applyCalculationResult"
    by (simp add: applyCalculationResult_def testNode_def)
  have o: "distinct (map fst [(''c'', VNum 15), (''d'', VNum (- 5))])" by simp
  have kv: "(''c'', VNum 15) \<in> set [(''c'', VNum 15), (''d'', VNum (- 5))]" by simp
  have port: "(''c'', testInterface ''n1'' ''c'' VUndefined) \<in> set (node_outputs (testNode ''n1''))"
    by (simp add: testNode_def)
  from written[rule_format, OF n e o kv port]
  have "(''c'', (testInterface ''n1'' ''c'' VUndefined)\<lparr> intf_value := VNum 15 \<rparr>)
     \<in> set (concat (map node_outputs (graph_nodes (snd (applyResult applyCalculationResult applyGraph)))))"
    by auto
  with d1 d2 none show ?thesis by (intro conjI)
qed

end
